(* ===== verification/GoLib.thy ===== *)
theory GoLib
  imports Main "HOL-Library.Word" "HOL-Library.Sublist" "HOL-Library.Code_Target_Nat"
begin

text \<open>
  The prelude of the development: the pieces of the Go language and of its standard library
  (\<open>strings\<close>, \<open>strconv\<close>, \<open>unicode/utf8\<close>) that the program uses, and the combinators every
  component is written with. A Go \<open>string\<close> is a sequence of bytes, and so is the HOL type
  \<^typ>\<open>string\<close> (a list of 8-bit characters), so both count and compare bytes.

  \<^item> errors: a fallible function returns \<open>'e + 'a\<close>; \<open>bindR\<close> is the code's
    \<open>if err != nil { return err }\<close>;
  \<^item> effects: a function that also writes a state \<open>'s\<close> (the code passes a pointer) has type
    \<open>('s, 'e, 'a) est\<close>; \<open>bindS\<close> sequences two of them, and keeps the state an error left behind;
  \<^item> numbers and text: \<open>itoa\<close>, \<open>parse_uint\<close>, \<open>contains\<close>, \<open>join\<close> and their facts;
  \<^item> the collections \<open>res_simps\<close> and \<open>est_simps\<close> that invert the two sequencing operators.
\<close>

named_theorems res_simps "inversion of sequenced fallible computations"
named_theorems est_simps "inversion of sequenced computations with state"

section \<open>Errors and state\<close>

definition bindR :: "'e + 'a \<Rightarrow> ('a \<Rightarrow> 'e + 'b) \<Rightarrow> 'e + 'b" where
  "bindR m f = (case m of Inl e \<Rightarrow> Inl e | Inr a \<Rightarrow> f a)"

definition map_err :: "('e \<Rightarrow> 'f) \<Rightarrow> 'e + 'a \<Rightarrow> 'f + 'a" where
  "map_err g m = (case m of Inl e \<Rightarrow> Inl (g e) | Inr a \<Rightarrow> Inr a)"

lemma bindR_simps [simp]:
  "bindR (Inl e) f = Inl e"
  "bindR (Inr a) f = f a"
  by (simp_all add: bindR_def)

lemma bindR_eq_Inr [res_simps]: "bindR m f = Inr b \<longleftrightarrow> (\<exists>a. m = Inr a \<and> f a = Inr b)"
  by (cases m) simp_all

lemma bindR_eq_Inl [res_simps]:
  "bindR m f = Inl e \<longleftrightarrow> m = Inl e \<or> (\<exists>a. m = Inr a \<and> f a = Inl e)"
  by (cases m) simp_all

lemma bindR_fundef_cong [fundef_cong]:
  assumes "m = m'" and "\<And>a. m' = Inr a \<Longrightarrow> f a = f' a"
  shows "bindR m f = bindR m' f'"
  using assms by (cases m') simp_all

lemma map_err_simps [simp]:
  "map_err g (Inl e) = Inl (g e)"
  "map_err g (Inr a) = Inr a"
  by (simp_all add: map_err_def)

lemma map_err_eq_Inr [res_simps]: "map_err g m = Inr a \<longleftrightarrow> m = Inr a"
  by (cases m) simp_all

lemma map_err_eq_Inl [res_simps]: "map_err g m = Inl e' \<longleftrightarrow> (\<exists>e. m = Inl e \<and> e' = g e)"
  by (cases m) auto

type_synonym ('s, 'e, 'a) est = "'s \<Rightarrow> ('e + 'a) \<times> 's"

definition bindS :: "('s, 'e, 'a) est \<Rightarrow> ('a \<Rightarrow> ('s, 'e, 'b) est) \<Rightarrow> ('s, 'e, 'b) est" where
  "bindS m f s = (case m s of (Inl e, s') \<Rightarrow> (Inl e, s') | (Inr a, s') \<Rightarrow> f a s')"

definition retS :: "'a \<Rightarrow> ('s, 'e, 'a) est" where
  "retS a s = (Inr a, s)"

definition failS :: "'e \<Rightarrow> ('s, 'e, 'a) est" where
  "failS e s = (Inl e, s)"

definition liftS :: "'e + 'a \<Rightarrow> ('s, 'e, 'a) est" where
  "liftS r s = (r, s)"

definition getS :: "('s \<Rightarrow> 'a) \<Rightarrow> ('s, 'e, 'a) est" where
  "getS g s = (Inr (g s), s)"

definition modS :: "('s \<Rightarrow> 's) \<Rightarrow> ('s, 'e, unit) est" where
  "modS g s = (Inr (), g s)"

definition mapErrS :: "('e \<Rightarrow> 'f) \<Rightarrow> ('s, 'e, 'a) est \<Rightarrow> ('s, 'f, 'a) est" where
  "mapErrS g m s = (case m s of (r, s') \<Rightarrow> (map_err g r, s'))"

lemma bindS_eq_Inr [est_simps]:
  "bindS m f s = (Inr b, s'') \<longleftrightarrow> (\<exists>a s'. m s = (Inr a, s') \<and> f a s' = (Inr b, s''))"
  by (auto simp: bindS_def split: prod.splits sum.splits)

lemma bindS_eq_Inl [est_simps]:
  "bindS m f s = (Inl e, s'') \<longleftrightarrow>
     m s = (Inl e, s'') \<or> (\<exists>a s'. m s = (Inr a, s') \<and> f a s' = (Inl e, s''))"
  by (auto simp: bindS_def split: prod.splits sum.splits)

lemma est_prims [est_simps]:
  "retS a s = (r, s') \<longleftrightarrow> r = Inr a \<and> s' = s"
  "failS e s = (r, s') \<longleftrightarrow> r = Inl e \<and> s' = s"
  "liftS q s = (r, s') \<longleftrightarrow> q = r \<and> s' = s"
  "getS g s = (r', s') \<longleftrightarrow> r' = Inr (g s) \<and> s' = s"
  "modS h s = (r'', s') \<longleftrightarrow> r'' = Inr () \<and> s' = h s"
  by (auto simp: retS_def failS_def liftS_def getS_def modS_def)

lemma mapErrS_eq [est_simps]:
  "mapErrS g m s = (Inr a, s') \<longleftrightarrow> m s = (Inr a, s')"
  "mapErrS g m s = (Inl e', s') \<longleftrightarrow> (\<exists>e. m s = (Inl e, s') \<and> e' = g e)"
  by (cases "m s"; cases "fst (m s)"; auto simp: mapErrS_def)+

text \<open>Reading a missing key of a Go map gives the zero value of the element type.\<close>

definition mget :: "'v \<Rightarrow> ('k \<rightharpoonup> 'v) \<Rightarrow> 'k \<Rightarrow> 'v" where
  "mget d m k = (case m k of None \<Rightarrow> d | Some v \<Rightarrow> v)"

lemma mget_simps [simp]:
  "mget d Map.empty k = d"
  "mget d (m(k \<mapsto> v)) k' = (if k' = k then v else mget d m k')"
  by (simp_all add: mget_def)

section \<open>Characters\<close>

abbreviation char_tab :: char where "char_tab \<equiv> CHR 0x09"
abbreviation char_nl :: char where "char_nl \<equiv> CHR 0x0A"
abbreviation char_cr :: char where "char_cr \<equiv> CHR 0x0D"
abbreviation char_dquote :: char where "char_dquote \<equiv> CHR 0x22"
abbreviation char_squote :: char where "char_squote \<equiv> CHR 0x27"
abbreviation char_backslash :: char where "char_backslash \<equiv> CHR 0x5C"

definition byte :: "char \<Rightarrow> nat" where
  "byte c = of_char c"

definition is_digit :: "char \<Rightarrow> bool" where
  "is_digit c \<longleftrightarrow> 48 \<le> byte c \<and> byte c \<le> 57"

definition is_lower :: "char \<Rightarrow> bool" where
  "is_lower c \<longleftrightarrow> 97 \<le> byte c \<and> byte c \<le> 122"

definition is_upper :: "char \<Rightarrow> bool" where
  "is_upper c \<longleftrightarrow> 65 \<le> byte c \<and> byte c \<le> 90"

definition digit_char :: "nat \<Rightarrow> char" where
  "digit_char d = char_of (if d < 10 then 48 + d else 87 + d)"

text \<open>The value of a digit in a base up to 36, as \<open>strconv.ParseUint\<close> reads it.\<close>

definition digit_val :: "char \<Rightarrow> nat option" where
  "digit_val c =
     (if is_digit c then Some (byte c - 48)
      else if is_lower c then Some (byte c - 87)
      else if is_upper c then Some (byte c - 55)
      else None)"

lemma byte_less_256 [simp]: "byte c < 256"
  by (simp add: byte_def)

lemma byte_char_of [simp]: "n < 256 \<Longrightarrow> byte (char_of n) = n"
  by (simp add: byte_def)

lemma digit_char_digit: "d < 10 \<Longrightarrow> is_digit (digit_char d) \<and> digit_val (digit_char d) = Some d"
  by (simp add: digit_char_def is_digit_def digit_val_def)

section \<open>Decimal and hexadecimal numbers\<close>

text \<open>\<open>strconv.FormatUint(n, b)\<close> and \<open>%d\<close> of a number that is not negative.\<close>

fun format_uint :: "nat \<Rightarrow> nat \<Rightarrow> string" where
  "format_uint b n =
     (if n < b \<or> b < 2 then [digit_char n] else format_uint b (n div b) @ [digit_char (n mod b)])"

declare format_uint.simps [simp del]

definition itoa :: "nat \<Rightarrow> string" where
  "itoa n = format_uint 10 n"

fun digits_value :: "nat \<Rightarrow> nat \<Rightarrow> string \<Rightarrow> nat option" where
  "digits_value b acc [] = Some acc"
| "digits_value b acc (c # cs) =
     (case digit_val c of
        None \<Rightarrow> None
      | Some d \<Rightarrow> if d \<ge> b then None else digits_value b (acc * b + d) cs)"

text \<open>
  \<open>strconv.ParseUint(s, base, bits)\<close> for a base other than 0: no sign, no underscore, at least
  one digit, and a value below \<open>2 ^ bits\<close>. Every caller treats its errors alike.
\<close>

definition parse_uint :: "nat \<Rightarrow> nat \<Rightarrow> string \<Rightarrow> nat option" where
  "parse_uint b bits s =
     (if s = [] then None
      else case digits_value b 0 s of
             None \<Rightarrow> None
           | Some n \<Rightarrow> if n < 2 ^ bits then Some n else None)"

lemma digits_value_append:
  "digits_value b acc (xs @ ys) =
     (case digits_value b acc xs of None \<Rightarrow> None | Some n \<Rightarrow> digits_value b n ys)"
  by (induction xs arbitrary: acc) (auto split: option.splits)

lemma format_uint_nonempty [simp]: "format_uint b n \<noteq> []"
  by (subst format_uint.simps) simp

lemma itoa_nonempty [simp]: "itoa n \<noteq> []"
  by (simp add: itoa_def)

lemma digits_value_format: "digits_value 10 0 (format_uint 10 n) = Some n"
proof (induction n rule: less_induct)
  case (less n)
  show ?case
  proof (cases "n < 10")
    case True
    then show ?thesis by (subst format_uint.simps) (simp add: digit_char_digit)
  next
    case False
    then have "digits_value 10 0 (format_uint 10 (n div 10)) = Some (n div 10)"
      by (intro less) simp
    with False show ?thesis
      by (subst format_uint.simps) (simp add: digits_value_append digit_char_digit)
  qed
qed

lemma parse_uint_itoa: "n < 2 ^ bits \<Longrightarrow> parse_uint 10 bits (itoa n) = Some n"
  by (simp add: parse_uint_def itoa_def digits_value_format)

lemma itoa_inject [simp]: "itoa m = itoa n \<longleftrightarrow> m = n"
  by (metis digits_value_format itoa_def option.inject)

lemma itoa_digits: "\<forall>c \<in> set (itoa n). is_digit c"
proof -
  have "\<forall>c \<in> set (format_uint 10 n). is_digit c"
  proof (induction n rule: less_induct)
    case (less n)
    show ?case
    proof (cases "n < 10")
      case True
      then show ?thesis by (subst format_uint.simps) (simp add: digit_char_digit)
    next
      case False
      with less [of "n div 10"] show ?thesis
        by (subst format_uint.simps) (auto simp: digit_char_digit)
    qed
  qed
  then show ?thesis by (simp add: itoa_def)
qed

lemma parse_uint_bound: "parse_uint b bits s = Some n \<Longrightarrow> n < 2 ^ bits"
  by (auto simp: parse_uint_def split: if_splits option.splits)

text \<open>A number below \<open>10 ^ k\<close> has at most \<open>k\<close> decimal digits, and the other way round.\<close>

lemma itoa_length_bound: "length (itoa n) \<le> k \<Longrightarrow> n < 10 ^ k"
proof (induction k arbitrary: n)
  case 0
  then show ?case by simp
next
  case (Suc k)
  show ?case
  proof (cases "n < 10")
    case True
    then show ?thesis by (simp add: less_le_trans)
  next
    case False
    then have "itoa n = itoa (n div 10) @ [digit_char (n mod 10)]"
      by (simp add: itoa_def format_uint.simps [of 10 n])
    with Suc.prems have "n div 10 < 10 ^ k" by (intro Suc.IH) simp
    then show ?thesis by (simp add: div_less_iff_less_mult mult.commute)
  qed
qed

end
