(* ===== verification/GoText.thy ===== *)
theory GoText
  imports GoLib
begin

text \<open>
  The text functions of the Go standard library that the program calls: \<open>strings.Contains\<close>,
  \<open>strings.IndexByte\<close>, \<open>strings.Join\<close>, \<open>strings.TrimPrefix\<close>, \<open>strings.ReplaceAll\<close> of a
  one-byte pattern, \<open>strings.TrimRight\<close>, the UTF-8 decoder of \<open>unicode/utf8\<close>, the padding of
  \<open>%-*s\<close> (which counts code points, not bytes) and \<open>strconv.Quote\<close> (the verb \<open>%q\<close>).
  \<open>strconv.Quote\<close> consults the Unicode table of printable code points for code points from
  128 on; that table is a parameter \<open>printable\<close>.
\<close>

section \<open>Searching and joining\<close>

fun contains :: "string \<Rightarrow> string \<Rightarrow> bool" where
  "contains [] sub = (sub = [])"
| "contains (c # cs) sub = (prefix sub (c # cs) \<or> contains cs sub)"

lemma contains_iff: "contains s sub \<longleftrightarrow> (\<exists>u v. s = u @ sub @ v)"
proof (induction s)
  case Nil
  then show ?case by simp
next
  case (Cons c cs)
  show ?case
  proof
    assume "contains (c # cs) sub"
    then consider "prefix sub (c # cs)" | "contains cs sub" by auto
    then show "\<exists>u v. c # cs = u @ sub @ v"
    proof cases
      case 1
      then show ?thesis by (metis append_Nil prefixE)
    next
      case 2
      with Cons.IH show ?thesis by (metis append_Cons)
    qed
  next
    assume "\<exists>u v. c # cs = u @ sub @ v"
    then obtain u v where uv: "c # cs = u @ sub @ v" by blast
    show "contains (c # cs) sub"
    proof (cases u)
      case Nil
      with uv have "prefix sub (c # cs)" by (simp add: prefix_def)
      then show ?thesis by simp
    next
      case (Cons d u')
      with uv have "cs = u' @ sub @ v" by simp
      with Cons.IH show ?thesis by auto
    qed
  qed
qed

lemma contains_single: "contains s [c] \<longleftrightarrow> c \<in> set s"
  by (induction s) auto

lemma contains_set: "contains s sub \<Longrightarrow> set sub \<subseteq> set s"
  by (auto simp: contains_iff)

lemma contains_sublist: "contains s sub \<longleftrightarrow> sublist sub s"
  by (auto simp: contains_iff sublist_def)

fun index_byte :: "char \<Rightarrow> string \<Rightarrow> nat option" where
  "index_byte c [] = None"
| "index_byte c (d # ds) = (if d = c then Some 0 else map_option Suc (index_byte c ds))"

lemma index_byte_None: "index_byte c s = None \<longleftrightarrow> c \<notin> set s"
  by (induction s) auto

lemma index_byte_Some:
  "index_byte c s = Some i \<Longrightarrow> s = take i s @ c # drop (Suc i) s \<and> c \<notin> set (take i s)"
  by (induction s arbitrary: i) (auto split: if_splits)

lemma index_byte_append: "c \<notin> set u \<Longrightarrow> index_byte c (u @ c # v) = Some (length u)"
  by (induction u) auto

definition last_index_byte :: "char \<Rightarrow> string \<Rightarrow> nat option" where
  "last_index_byte c s = map_option (\<lambda>i. length s - Suc i) (index_byte c (rev s))"

lemma last_index_byte_nth:
  assumes "last_index_byte c s = Some i"
  shows "i < length s \<and> s ! i = c"
proof -
  have nth: "index_byte c t = Some j \<Longrightarrow> j < length t \<and> t ! j = c" for t j
    by (induction t arbitrary: j) (auto split: if_splits)
  from assms obtain j where j: "index_byte c (rev s) = Some j" "i = length s - Suc j"
    by (auto simp: last_index_byte_def)
  from nth [OF j(1)] j(2) show ?thesis by (auto simp: rev_nth)
qed

lemma last_index_byte_append: "c \<notin> set v \<Longrightarrow> last_index_byte c (u @ c # v) = Some (length u)"
  by (simp add: last_index_byte_def index_byte_append)

definition has_byte :: "char \<Rightarrow> string \<Rightarrow> bool" where
  "has_byte c s \<longleftrightarrow> c \<in> set s"

definition contains_any :: "string \<Rightarrow> string \<Rightarrow> bool" where
  "contains_any s cs \<longleftrightarrow> list_ex (\<lambda>c. c \<in> set cs) s"

definition trim_prefix :: "string \<Rightarrow> string \<Rightarrow> string" where
  "trim_prefix p s = (if prefix p s then drop (length p) s else s)"

fun join :: "string \<Rightarrow> string list \<Rightarrow> string" where
  "join sep [] = []"
| "join sep [s] = s"
| "join sep (s # t # ts) = s @ sep @ join sep (t # ts)"

definition replace_byte :: "char \<Rightarrow> string \<Rightarrow> string \<Rightarrow> string" where
  "replace_byte c new s = concat (map (\<lambda>d. if d = c then new else [d]) s)"

lemma replace_byte_simps [simp]:
  "replace_byte c new [] = []"
  "replace_byte c new (d # ds) = (if d = c then new else [d]) @ replace_byte c new ds"
  by (simp_all add: replace_byte_def)

definition trim_right :: "char \<Rightarrow> string \<Rightarrow> string" where
  "trim_right c s = rev (dropWhile (\<lambda>d. d = c) (rev s))"

section \<open>UTF-8\<close>

definition cont_byte :: "string \<Rightarrow> nat \<Rightarrow> nat \<Rightarrow> nat \<Rightarrow> bool" where
  "cont_byte s i lo hi \<longleftrightarrow> i < length s \<and> lo \<le> byte (s ! i) \<and> byte (s ! i) \<le> hi"

text \<open>
  \<open>utf8.DecodeRuneInString\<close> of a string that is not empty: the code point and the number of
  bytes it takes. An ill-formed sequence gives U+FFFD and one byte.
\<close>

definition decode_rune :: "string \<Rightarrow> nat \<times> nat" where
  "decode_rune s =
     (let b = byte (hd s); t = (\<lambda>i. byte (s ! i) mod 64);
          lo2 = (if b = 0xE0 then 0xA0 else 0x80); hi2 = (if b = 0xED then 0x9F else 0xBF);
          lo3 = (if b = 0xF0 then 0x90 else 0x80); hi3 = (if b = 0xF4 then 0x8F else 0xBF)
      in if b < 0x80 then (b, 1)
         else if 0xC2 \<le> b \<and> b \<le> 0xDF \<and> cont_byte s 1 0x80 0xBF
           then ((b mod 32) * 64 + t 1, 2)
         else if 0xE0 \<le> b \<and> b \<le> 0xEF \<and> cont_byte s 1 lo2 hi2 \<and> cont_byte s 2 0x80 0xBF
           then ((b mod 16) * 4096 + t 1 * 64 + t 2, 3)
         else if 0xF0 \<le> b \<and> b \<le> 0xF4 \<and> cont_byte s 1 lo3 hi3
              \<and> cont_byte s 2 0x80 0xBF \<and> cont_byte s 3 0x80 0xBF
           then ((b mod 8) * 262144 + t 1 * 4096 + t 2 * 64 + t 3, 4)
         else (0xFFFD, 1))"

lemma decode_rune_size: "0 < snd (decode_rune s)"
  by (simp add: decode_rune_def Let_def)

lemma decode_rune_pos: "(r, k) = decode_rune s \<Longrightarrow> 0 < k"
  by (metis decode_rune_size snd_conv)

text \<open>\<open>utf8.RuneCountInString\<close>.\<close>

function rune_count :: "string \<Rightarrow> nat" where
  "rune_count s = (if s = [] then 0 else Suc (rune_count (drop (snd (decode_rune s)) s)))"
  by pat_completeness auto
termination
  by (relation "measure length") (auto simp: decode_rune_size)

declare rune_count.simps [simp del]

text \<open>\<open>utf8.AppendRune\<close> for the code points a byte can be.\<close>

definition encode_byte_rune :: "char \<Rightarrow> string" where
  "encode_byte_rune c =
     (if byte c < 128 then [c]
      else [char_of (0xC0 + byte c div 64), char_of (0x80 + byte c mod 64)])"

text \<open>\<open>%-*s\<close>: pad on the right with blanks to \<open>w\<close> code points.\<close>

definition pad_right :: "nat \<Rightarrow> string \<Rightarrow> string" where
  "pad_right w s = s @ replicate (w - rune_count s) CHR '' ''"

lemma rune_count_ascii: "\<forall>c \<in> set s. byte c < 128 \<Longrightarrow> rune_count s = length s"
proof (induction s)
  case Nil
  then show ?case by (simp add: rune_count.simps)
next
  case (Cons c s)
  then have "decode_rune (c # s) = (byte c, 1)" by (simp add: decode_rune_def)
  with Cons show ?case by (simp add: rune_count.simps [of "c # s"])
qed

section \<open>Quoting\<close>

definition hex_pad :: "nat \<Rightarrow> nat \<Rightarrow> string" where
  "hex_pad w n = (let h = format_uint 16 n in replicate (w - length h) CHR ''0'' @ h)"

text \<open>One code point of \<open>strconv.Quote\<close>; \<open>raw\<close> are the bytes that encode it.\<close>

definition quote_rune :: "(nat \<Rightarrow> bool) \<Rightarrow> nat \<Rightarrow> string \<Rightarrow> string" where
  "quote_rune printable r raw =
     (if r = 0x22 \<or> r = 0x5C then char_backslash # raw
      else if 32 \<le> r \<and> r < 127 \<or> 128 \<le> r \<and> printable r then raw
      else if r = 7 then char_backslash # ''a''
      else if r = 8 then char_backslash # ''b''
      else if r = 12 then char_backslash # ''f''
      else if r = 10 then char_backslash # ''n''
      else if r = 13 then char_backslash # ''r''
      else if r = 9 then char_backslash # ''t''
      else if r = 11 then char_backslash # ''v''
      else if r < 32 \<or> r = 127 then char_backslash # ''x'' @ hex_pad 2 r
      else if r < 65536 then char_backslash # ''u'' @ hex_pad 4 r
      else char_backslash # ''U'' @ hex_pad 8 r)"

function quote_body :: "(nat \<Rightarrow> bool) \<Rightarrow> string \<Rightarrow> string" where
  "quote_body printable s =
     (if s = [] then []
      else case decode_rune s of (r, k) \<Rightarrow>
        (if r = 0xFFFD \<and> k = 1 then char_backslash # ''x'' @ hex_pad 2 (byte (hd s))
         else quote_rune printable r (take k s))
        @ quote_body printable (drop k s))"
  by pat_completeness auto
termination
  by (relation "measure (\<lambda>(p, s). length s)") (auto dest: decode_rune_pos)

declare quote_body.simps [simp del]

definition quote_go :: "(nat \<Rightarrow> bool) \<Rightarrow> string \<Rightarrow> string" where
  "quote_go printable s = char_dquote # quote_body printable s @ [char_dquote]"

text \<open>The middle-dot separator of the program's diagnostics and the other literals that are not ASCII.\<close>

definition middot :: string where
  "middot = [CHR '' '', CHR 0xC2, CHR 0xB7, CHR '' '']"

definition em_dash :: string where
  "em_dash = [CHR '' '', CHR 0xE2, CHR 0x80, CHR 0x94, CHR '' '']"

definition arrow :: string where
  "arrow = [CHR '' '', CHR 0xE2, CHR 0x86, CHR 0x92, CHR '' '']"

end
