(* ===== verification/Diag.thy ===== *)
theory Diag
  imports GoText
begin

text \<open>
  Source positions and diagnostics (\<open>src/sexp/pos.go\<close>, and the kinds of
  \<open>src/sexp/sexp.go\<close> that diagnostics name).

  A Go \<open>error\<close> is a value of \<open>goerr\<close>: a message with a position (\<open>sexp.Errorf\<close>), a message
  without one (\<open>fmt.Errorf\<close>), or \<open>Panic\<close>, which stands for a run-time panic (an index out of
  range) and is never produced by the code as a value: it is there so that the absence of panics
  is a theorem. A message keeps the arguments of its format string, and \<open>msg_text\<close> gives the text, with the table of printable code
  points that \<open>%q\<close> consults as a parameter.
\<close>

record pos =
  p_file :: string
  p_line :: nat
  p_col :: nat

text \<open>The zero \<open>Pos\<close>, of a value that no source text holds.\<close>

definition no_pos :: pos where
  "no_pos = \<lparr>p_file = [], p_line = 0, p_col = 0\<rparr>"

datatype kind = KList | KSymbol | KKeyword | KString | KNumber | KStar

fun kind_text :: "kind \<Rightarrow> string" where
  "kind_text KList = ''form''"
| "kind_text KSymbol = ''symbol''"
| "kind_text KKeyword = ''property name''"
| "kind_text KString = ''string''"
| "kind_text KNumber = ''number''"
| "kind_text KStar = [char_squote] @ ''*'' @ [char_squote]"

text \<open>One constructor for each call site of \<open>Errorf\<close>, grouped by file.\<close>

datatype read_msg = Unclosed | UnexpectedClose | Unterminated | UnknownEscape char
  | ExpectedValue | EmptyKey   \<comment> \<open>sexp/reader.go\<close>

datatype build_msg = ExpectedForm kind | EmptyForm | FormHead kind | NoValue string
  | Duplicate string string | PropAfterForm string | ExpectedNested kind   \<comment> \<open>ast/node.go\<close>

datatype value_msg = NotConcrete string string | Missing string string | WantAddr kind
  | BadAddr string | WantPrefix kind | NeedsLength string | BadPrefix string | WantName kind
  | WantNumber kind | NoFit string nat | VlanRange nat | VniRange nat   \<comment> \<open>ast/value.go and ast/props.go\<close>

datatype name_msg = NameUsed string | NameEmpty | NameLong string | NameIllegal string   \<comment> \<open>env/env.go\<close>

datatype spine_msg = ManyNested string nat | WantConfigure string | ConfigureProps
  | ConfigureOne nat   \<comment> \<open>spine/spine.go\<close>

datatype tile_msg = EmptyPattern string | NoLower string | Ambiguous string string string int
  | NoLowering string string string   \<comment> \<open>tile/tile.go and tile/cover.go\<close>

datatype lower_msg = PointToPoint string | VlanStar | VniMissing | PortStar | PortMissing
  | SrcMissing string | DstMissing string | PeerMissing | ListenMissing | InnerMissing string   \<comment> \<open>tiles/linux\<close>

datatype wire_msg = EmptySpine | WireEthernet | WireNotIP string | WirePort | WireVlan
  | WireNone string   \<comment> \<open>wire/wire.go\<close>

datatype cmd_msg = OsError string | NoForms string | OneForm string nat | Nothing | OneEnded string   \<comment> \<open>cmd/pktc/main.go (and what os.ReadFile reports) and mirror/mirror.go\<close>

datatype msg =
    ReadMsg read_msg | BuildMsg build_msg | ValueMsg value_msg | NameMsg name_msg
  | SpineMsg spine_msg | TileMsg tile_msg | LowerMsg lower_msg | WireMsg wire_msg | CmdMsg cmd_msg
  | PropMsg string string goerr   \<comment> \<open>%s in front of another error: ast/value.go\<close>
  | WrapMsg goerr                 \<comment> \<open>the format %v: tiles/linux\<close>
  | PeerInnerMsg goerr            \<comment> \<open>mirror/mirror.go\<close>
and goerr = ErrPlain msg | ErrAt pos msg | Panic string

type_synonym 'a res = "goerr + 'a"

abbreviation err_at :: "pos \<Rightarrow> msg \<Rightarrow> 'a res" where
  "err_at p m \<equiv> Inl (ErrAt p m)"

abbreviation err_plain :: "msg \<Rightarrow> 'a res" where
  "err_plain m \<equiv> Inl (ErrPlain m)"

abbreviation panic :: "string \<Rightarrow> 'a res" where
  "panic w \<equiv> Inl (Panic w)"

text \<open>Wrapping an error value in a new message; a panic is not an error value and passes.\<close>

definition wrap_err :: "(goerr \<Rightarrow> goerr) \<Rightarrow> 'a res \<Rightarrow> 'a res" where
  "wrap_err g m = (case m of
       Inr a \<Rightarrow> Inr a
     | Inl (Panic w) \<Rightarrow> Inl (Panic w)
     | Inl e \<Rightarrow> Inl (g e))"

definition is_panic :: "goerr \<Rightarrow> bool" where
  "is_panic e = (case e of Panic _ \<Rightarrow> True | _ \<Rightarrow> False)"

text \<open>A computation that never panics: either a value or an error the code reports.\<close>

definition no_panic :: "'a res \<Rightarrow> bool" where
  "no_panic m = (case m of Inl e \<Rightarrow> \<not> is_panic e | Inr _ \<Rightarrow> True)"

lemma is_panic_simps [simp]:
  "is_panic (Panic w)" "\<not> is_panic (ErrAt p m)" "\<not> is_panic (ErrPlain m)"
  by (simp_all add: is_panic_def)

lemma no_panic_simps [simp]:
  "no_panic (Inr a)" "no_panic (Inl e) \<longleftrightarrow> \<not> is_panic e"
  by (simp_all add: no_panic_def)

lemma wrap_err_simps [simp]:
  "wrap_err g (Inr a) = Inr a"
  "wrap_err g (Inl (Panic w)) = Inl (Panic w)"
  "wrap_err g (Inl (ErrAt p m)) = Inl (g (ErrAt p m))"
  "wrap_err g (Inl (ErrPlain m)) = Inl (g (ErrPlain m))"
  by (simp_all add: wrap_err_def)

lemma wrap_err_eq_Inr [res_simps]: "wrap_err g m = Inr a \<longleftrightarrow> m = Inr a"
proof (cases m)
  case (Inl e)
  then show ?thesis by (cases e) simp_all
qed simp

lemma no_panic_wrap:
  assumes "no_panic m" and "\<And>e. \<not> is_panic e \<Longrightarrow> \<not> is_panic (g e)"
  shows "no_panic (wrap_err g m)"
proof (cases m)
  case (Inl e)
  with assms show ?thesis by (cases e) simp_all
qed simp

lemma no_panic_bind:
  "no_panic m \<Longrightarrow> (\<And>a. m = Inr a \<Longrightarrow> no_panic (f a)) \<Longrightarrow> no_panic (bindR m f)"
  by (cases m) simp_all

text \<open>\<open>Pos.String\<close> and \<open>Error.Error\<close>.\<close>

definition pos_text :: "pos \<Rightarrow> string" where
  "pos_text p =
     (if p_file p = [] then itoa (p_line p) @ '':'' @ itoa (p_col p)
      else p_file p @ '':'' @ itoa (p_line p) @ '':'' @ itoa (p_col p))"

definition in_form :: "string \<Rightarrow> string" where
  "in_form name = ''('' @ name @ '' ...)''"

definition sq :: "string \<Rightarrow> string" where
  "sq s = [char_squote] @ s @ [char_squote]"

definition int_text :: "int \<Rightarrow> string" where
  "int_text z = (if z < 0 then ''-'' @ itoa (nat (- z)) else itoa (nat z))"

primrec read_msg_text :: "read_msg \<Rightarrow> string" where
  "read_msg_text Unclosed = ''unclosed '' @ sq ''('' @ em_dash @ ''missing '' @ sq '')''"
| "read_msg_text UnexpectedClose = ''unexpected '' @ sq '')''"
| "read_msg_text Unterminated = ''unterminated string''"
| "read_msg_text (UnknownEscape c) =
     ''unknown escape '' @ [char_backslash] @ encode_byte_rune c"
| "read_msg_text ExpectedValue = ''expected a value''"
| "read_msg_text EmptyKey = ''property name is empty''"

primrec build_msg_text :: "build_msg \<Rightarrow> string" where
  "build_msg_text (ExpectedForm k) =
     ''expected a form '' @ sq ''(...)'' @ '', got '' @ kind_text k"
| "build_msg_text EmptyForm = ''empty form '' @ sq ''()''"
| "build_msg_text (FormHead k) =
     ''a form must start with a protocol name, got '' @ kind_text k"
| "build_msg_text (NoValue t) = ''property '' @ t @ '' has no value''"
| "build_msg_text (Duplicate t n) = ''duplicate property '' @ t @ '' on '' @ in_form n"
| "build_msg_text (PropAfterForm t) =
     ''property '' @ t @ '' must come before any nested form''"
| "build_msg_text (ExpectedNested k) =
     ''expected a nested form '' @ sq ''(...)'' @ '', got '' @ kind_text k"

primrec value_msg_text :: "(nat \<Rightarrow> bool) \<Rightarrow> value_msg \<Rightarrow> string" where
  "value_msg_text q (NotConcrete n k) =
     in_form n @ '': :'' @ k @ '' must be a concrete value here, not '' @ sq ''*''"
| "value_msg_text q (Missing n k) = in_form n @ '': missing required property :'' @ k"
| "value_msg_text q (WantAddr k) = ''expected an IP address, got '' @ kind_text k"
| "value_msg_text q (BadAddr t) = quote_go q t @ '' is not an IP address''"
| "value_msg_text q (WantPrefix k) = ''expected address/length, got '' @ kind_text k"
| "value_msg_text q (NeedsLength t) =
     quote_go q t @ '' needs a prefix length (for example '' @ t
       @ ''/24); a packet does not carry one''"
| "value_msg_text q (BadPrefix t) = quote_go q t @ '' is not a valid address/length''"
| "value_msg_text q (WantName k) = ''expected a name, got '' @ kind_text k"
| "value_msg_text q (WantNumber k) = ''expected a number, got '' @ kind_text k"
| "value_msg_text q (NoFit t b) = t @ '' does not fit in '' @ itoa b @ '' bits''"
| "value_msg_text q (VlanRange n) = itoa n @ '' is outside the usable VLAN range (1..4094)''"
| "value_msg_text q (VniRange n) = itoa n @ '' exceeds the 24-bit VNI range (0..16777215)''"

primrec name_msg_text :: "(nat \<Rightarrow> bool) \<Rightarrow> name_msg \<Rightarrow> string" where
  "name_msg_text q (NameUsed n) =
     ''interface name '' @ quote_go q n @ '' is already used by another rule''"
| "name_msg_text q NameEmpty = ''interface name is empty''"
| "name_msg_text q (NameLong n) =
     ''interface name '' @ quote_go q n @ '' is '' @ itoa (length n)
       @ '' characters; Linux allows 15''"
| "name_msg_text q (NameIllegal n) =
     ''interface name '' @ quote_go q n @ '' contains an illegal character''"

primrec spine_msg_text :: "spine_msg \<Rightarrow> string" where
  "spine_msg_text (ManyNested n k) =
     in_form n @ '' contains '' @ itoa k
       @ '' nested forms; an encapsulation stack carries exactly one''"
| "spine_msg_text (WantConfigure n) =
     ''expected a (configure ...) form, found '' @ in_form n"
| "spine_msg_text ConfigureProps = ''(configure ...) takes no properties''"
| "spine_msg_text (ConfigureOne k) =
     ''(configure ...) must contain exactly one packet form, found '' @ itoa k"

primrec tile_msg_text :: "tile_msg \<Rightarrow> string" where
  "tile_msg_text (EmptyPattern t) = ''tile '' @ t @ '' has an empty pattern''"
| "tile_msg_text (NoLower t) = ''tile '' @ t @ '' has no Lower function''"
| "tile_msg_text (Ambiguous a b p k) =
     ''tiles '' @ a @ '' and '' @ b @ '' share pattern '' @ p @ '' at priority ''
       @ int_text k @ ''; give one a distinct priority''"
| "tile_msg_text (NoLowering s t ts) =
     ''no lowering exists for '' @ s @ '' on target '' @ t @ [char_nl]
       @ ''       tiles available: '' @ ts"

primrec lower_msg_text :: "lower_msg \<Rightarrow> string" where
  "lower_msg_text (PointToPoint n) =
     in_form n @ '': :dst '' @ sq ''*'' @ '' has no lowering for a point-to-point tunnel; ''
       @ ''only VXLAN-style devices serve many remotes''"
| "lower_msg_text VlanStar =
     ''(vlan ...): :id '' @ sq ''*'' @ '' has no lowering; a tagged interface carries one tag. ''
       @ ''An interface that carries every tag is the untagged parent itself''"
| "lower_msg_text VniMissing =
     ''(vxlan ...): missing required property :vni; give a VNI, or '' @ sq ''*''
       @ '' for one device serving every VNI''"
| "lower_msg_text PortStar =
     ''(udp ...): :dst-port '' @ sq ''*''
       @ '' has no lowering; a VXLAN device listens on one port''"
| "lower_msg_text PortMissing =
     ''(udp ...): missing required property :dst-port; pktc will not guess, ''
       @ ''because the kernel default is 8472 and the IANA value is 4789''"
| "lower_msg_text (SrcMissing n) =
     in_form n @ '': missing required property :src; give the underlay address, ''
       @ ''or '' @ sq ''*'' @ '' to let the kernel choose it from the device''"
| "lower_msg_text (DstMissing n) =
     in_form n @ '': missing required property :dst; give the peer address, a multicast ''
       @ ''group, or '' @ sq ''*'' @ '' when remotes are learned rather than configured''"
| "lower_msg_text PeerMissing =
     ''(wireguard ...): missing required property :peer; name the peer, and the ''
       @ ''name resolves to key material on the machine. Keys are not packet structure''"
| "lower_msg_text ListenMissing =
     ''(udp ...): missing required property :src-port; WireGuard listens on a ''
       @ ''fixed port, which is the port the peer sends to''"
| "lower_msg_text (InnerMissing n) =
     in_form n @ '': missing required property :src; the inner prefix is what ''
       @ ''allowed-ips is derived from''"

primrec wire_msg_text :: "wire_msg \<Rightarrow> string" where
  "wire_msg_text EmptySpine = ''empty spine''"
| "wire_msg_text WireEthernet =
     ''the outermost layer is (ethernet ...); a tagged or bridged interface has no ''
       @ ''outer header of its own to predict''"
| "wire_msg_text (WireNotIP n) =
     ''the outermost layer is '' @ in_form n @ ''; only IP underlays can be predicted''"
| "wire_msg_text WirePort =
     ''(udp ...): a dynamic or absent :dst-port cannot be predicted''"
| "wire_msg_text WireVlan =
     ''(vlan ...): a tagged interface is predicted on its parent, not on itself''"
| "wire_msg_text (WireNone n) =
     in_form n @ '' under the outer header has no wire prediction yet''"

primrec cmd_msg_text :: "cmd_msg \<Rightarrow> string" where
  "cmd_msg_text (OsError t) = t"
| "cmd_msg_text (NoForms p) = p @ '': no forms found''"
| "cmd_msg_text (OneForm p k) =
     ''this command takes one (configure ...) form; '' @ p @ '' holds '' @ itoa k
       @ ''. Use '' @ sq ''lower'' @ '' for a whole file''"
| "cmd_msg_text Nothing = ''nothing to mirror''"
| "cmd_msg_text (OneEnded n) =
     in_form n
       @ '': mirroring needs a layer naming both :src and :dst; a tunnel has two ends''"

primrec msg_text :: "(nat \<Rightarrow> bool) \<Rightarrow> msg \<Rightarrow> string" and
        err_text :: "(nat \<Rightarrow> bool) \<Rightarrow> goerr \<Rightarrow> string" where
  "msg_text q (ReadMsg m) = read_msg_text m"
| "msg_text q (BuildMsg m) = build_msg_text m"
| "msg_text q (ValueMsg m) = value_msg_text q m"
| "msg_text q (NameMsg m) = name_msg_text q m"
| "msg_text q (SpineMsg m) = spine_msg_text m"
| "msg_text q (TileMsg m) = tile_msg_text m"
| "msg_text q (LowerMsg m) = lower_msg_text m"
| "msg_text q (WireMsg m) = wire_msg_text m"
| "msg_text q (CmdMsg m) = cmd_msg_text m"
| "msg_text q (PropMsg n k e) = in_form n @ '': :'' @ k @ '': '' @ err_text q e"
| "msg_text q (WrapMsg e) = err_text q e"
| "msg_text q (PeerInnerMsg e) = ''peer inner address: '' @ err_text q e"
| "err_text q (ErrPlain m) = msg_text q m"
| "err_text q (ErrAt p m) = pos_text p @ '': '' @ msg_text q m"
| "err_text q (Panic w) = ''panic: '' @ w"

end
