(* ===== verification/Sexp.thy ===== *)
theory Sexp
  imports Diag
begin

text \<open>
  The S-expression reader (\<open>src/sexp/sexp.go\<close>, \<open>src/sexp/reader.go\<close>): its state (the source
  and an index into it, with the line and column of that index), one definition per method, and
  the tree it builds. The methods return the new state beside their result; a failed method
  abandons the read, as the code's callers do. Indexing the source out of range is a panic.

  The lemmas show that the index only grows and stays within the source, which gives the
  termination of the three mutually recursive methods, and that no read ever panics. That the line
  and column are those of the index is \<open>SexpPos\<close>.
\<close>

section \<open>Values\<close>

text \<open>\<open>sexp.Value\<close>: \<open>Items\<close> is populated for a list, \<open>Text\<close> for every other kind.\<close>

datatype sval = SVal (vkind: kind) (vtext: string) (vitems: "sval list") (vpos: pos)

text \<open>\<open>Value.Key\<close>.\<close>

definition value_key :: "sval \<Rightarrow> string" where
  "value_key v = trim_prefix '':'' (vtext v)"

section \<open>The reader's state\<close>

record reader =
  src :: string
  fname :: string
  idx :: nat
  line :: nat
  col :: nat

definition eof :: "reader \<Rightarrow> bool" where
  "eof r \<longleftrightarrow> idx r \<ge> length (src r)"

definition cur_pos :: "reader \<Rightarrow> pos" where
  "cur_pos r = \<lparr>p_file = fname r, p_line = line r, p_col = col r\<rparr>"

definition peek :: "reader \<Rightarrow> char" where
  "peek r = (if eof r then CHR 0x00 else src r ! idx r)"

definition step_char :: "reader \<Rightarrow> char \<Rightarrow> reader" where
  "step_char r c =
     (if c = char_nl then r\<lparr>idx := idx r + 1, line := line r + 1, col := 1\<rparr>
      else r\<lparr>idx := idx r + 1, col := col r + 1\<rparr>)"

definition advance :: "reader \<Rightarrow> (char \<times> reader) res" where
  "advance r =
     (if idx r < length (src r) then Inr (src r ! idx r, step_char r (src r ! idx r))
      else panic ''index out of range'')"

definition remaining :: "reader \<Rightarrow> nat" where
  "remaining r = length (src r) - idx r"

text \<open>\<open>moved r r'\<close>: the reader has gone from \<open>r\<close> to \<open>r'\<close>, forwards, in the same source.\<close>

definition moved :: "reader \<Rightarrow> reader \<Rightarrow> bool" where
  "moved r r' \<longleftrightarrow> src r' = src r \<and> fname r' = fname r \<and> idx r \<le> idx r' \<and> idx r' \<le> length (src r')"

lemma step_char_fields [simp]:
  "src (step_char r c) = src r" "fname (step_char r c) = fname r" "idx (step_char r c) = Suc (idx r)"
  by (simp_all add: step_char_def)

lemma advance_Inr [res_simps]:
  "advance r = Inr (c, r') \<longleftrightarrow> \<not> eof r \<and> c = src r ! idx r \<and> r' = step_char r c"
  by (auto simp: advance_def eof_def)

lemma advance_ok [simp]: "\<not> eof r \<Longrightarrow> advance r = Inr (src r ! idx r, step_char r (src r ! idx r))"
  by (simp add: advance_def eof_def)

lemma moved_step [simp]: "\<not> eof r \<Longrightarrow> moved r (step_char r c)"
  by (simp add: moved_def eof_def)

lemma moved_trans [trans]: "moved r s \<Longrightarrow> moved s t \<Longrightarrow> moved r t"
  by (auto simp: moved_def)

lemma remaining_step [simp]: "\<not> eof r \<Longrightarrow> remaining (step_char r c) < remaining r"
  by (simp add: remaining_def eof_def)

lemma moved_remaining: "moved r s \<Longrightarrow> remaining s \<le> remaining r"
  by (auto simp: moved_def remaining_def)

section \<open>White space and comments\<close>

text \<open>The inner loop of \<open>skipSpace\<close>, which drops a comment up to the end of its line.\<close>

function skip_comment :: "reader \<Rightarrow> reader res" where
  "skip_comment r =
     (if \<not> eof r \<and> peek r \<noteq> char_nl
      then (case advance r of Inl e \<Rightarrow> Inl e | Inr (_, r1) \<Rightarrow> skip_comment r1)
      else Inr r)"
  by pat_completeness auto
termination
  by (relation "measure remaining") auto

declare skip_comment.simps [simp del]

lemma skip_comment_step:
  "\<not> eof r \<Longrightarrow> peek r \<noteq> char_nl \<Longrightarrow>
     skip_comment r = skip_comment (step_char r (src r ! idx r))"
  by (subst skip_comment.simps) simp

lemma skip_comment_stop: "eof r \<or> peek r = char_nl \<Longrightarrow> skip_comment r = Inr r"
  by (subst skip_comment.simps) auto

lemma skip_comment_total:
  "idx r \<le> length (src r) \<Longrightarrow> \<exists>r'. skip_comment r = Inr r' \<and> moved r r'"
proof (induction r rule: skip_comment.induct)
  case (1 r)
  show ?case
  proof (cases "\<not> eof r \<and> peek r \<noteq> char_nl")
    case True
    let ?r1 = "step_char r (src r ! idx r)"
    from True have "\<exists>r'. skip_comment ?r1 = Inr r' \<and> moved ?r1 r'"
      by (intro "1.IH") (auto simp: eof_def)
    with True show ?thesis
      using moved_trans [OF moved_step] by (auto simp: skip_comment_step)
  next
    case False
    with "1.prems" show ?thesis by (auto simp: skip_comment_stop moved_def)
  qed
qed

lemma skip_comment_progress:
  assumes "skip_comment r = Inr r'" and "\<not> eof r" and "peek r \<noteq> char_nl"
  shows "remaining r' < remaining r"
proof -
  let ?r1 = "step_char r (src r ! idx r)"
  from assms have "skip_comment ?r1 = Inr r'" by (simp add: skip_comment_step)
  with skip_comment_total [of ?r1] assms(2) have "moved ?r1 r'" by (auto simp: eof_def)
  with assms(2) show ?thesis using moved_remaining remaining_step le_less_trans by blast
qed

definition is_space :: "char \<Rightarrow> bool" where
  "is_space c \<longleftrightarrow> c = CHR '' '' \<or> c = char_tab \<or> c = char_cr \<or> c = char_nl"

function skip_space :: "reader \<Rightarrow> reader res" where
  "skip_space r =
     (if eof r then Inr r
      else if is_space (peek r)
      then (case advance r of Inl e \<Rightarrow> Inl e | Inr (_, r1) \<Rightarrow> skip_space r1)
      else if peek r = CHR '';''
      then (case skip_comment r of Inl e \<Rightarrow> Inl e | Inr r1 \<Rightarrow> skip_space r1)
      else Inr r)"
  by pat_completeness auto
termination
  by (relation "measure remaining") (auto simp: skip_comment_progress)

declare skip_space.simps [simp del]

lemma skip_space_stop:
  "eof r \<or> \<not> is_space (peek r) \<and> peek r \<noteq> CHR '';'' \<Longrightarrow> skip_space r = Inr r"
  by (subst skip_space.simps) auto

lemma skip_space_ws:
  "\<not> eof r \<Longrightarrow> is_space (peek r) \<Longrightarrow> skip_space r = skip_space (step_char r (src r ! idx r))"
  by (subst skip_space.simps) simp

lemma skip_space_comment:
  "\<not> eof r \<Longrightarrow> peek r = CHR '';'' \<Longrightarrow> skip_comment r = Inr r1 \<Longrightarrow> skip_space r = skip_space r1"
  by (subst skip_space.simps) (simp add: is_space_def)

text \<open>Skipping always succeeds, and stops at the end or before something to read.\<close>

lemma skip_space_total:
  "idx r \<le> length (src r) \<Longrightarrow>
     \<exists>r'. skip_space r = Inr r' \<and> moved r r'
        \<and> (eof r' \<or> \<not> is_space (peek r') \<and> peek r' \<noteq> CHR '';'')"
proof (induction r rule: skip_space.induct)
  case (1 r)
  let ?r1 = "step_char r (src r ! idx r)"
  consider "eof r \<or> (\<not> is_space (peek r) \<and> peek r \<noteq> CHR '';'')"
    | "\<not> eof r" "is_space (peek r)"
    | "\<not> eof r" "\<not> is_space (peek r)" "peek r = CHR '';''" by blast
  then show ?case
  proof cases
    case 1
    with "1.prems" show ?thesis by (auto simp: skip_space_stop moved_def)
  next
    case 2
    with "1.IH"(1) have "\<exists>r'. skip_space ?r1 = Inr r' \<and> moved ?r1 r'
        \<and> (eof r' \<or> \<not> is_space (peek r') \<and> peek r' \<noteq> CHR '';'')"
      by (auto simp: eof_def)
    with 2 show ?thesis using moved_trans [OF moved_step] by (auto simp: skip_space_ws)
  next
    case 3
    with skip_comment_total [OF "1.prems"] obtain r1
      where r1: "skip_comment r = Inr r1" "moved r r1" by blast
    with "1.IH"(2) 3 have "\<exists>r'. skip_space r1 = Inr r' \<and> moved r1 r'
        \<and> (eof r' \<or> \<not> is_space (peek r') \<and> peek r' \<noteq> CHR '';'')"
      by (auto simp: moved_def)
    with 3 r1 show ?thesis using moved_trans by (auto simp: skip_space_comment)
  qed
qed

section \<open>Strings and atoms\<close>

text \<open>The loop of \<open>readString\<close>, after the opening quote; \<open>sb\<close> is the builder.\<close>

function string_loop :: "pos \<Rightarrow> string \<Rightarrow> reader \<Rightarrow> (sval \<times> reader) res" where
  "string_loop p sb r =
     (if eof r then err_at p (ReadMsg Unterminated)
      else (case advance r of
          Inl e \<Rightarrow> Inl e
        | Inr (c, r1) \<Rightarrow>
            if c = char_dquote then Inr (SVal KString sb [] p, r1)
            else if c \<noteq> char_backslash then string_loop p (sb @ [c]) r1
            else if eof r1 then err_at p (ReadMsg Unterminated)
            else (case advance r1 of
                Inl e \<Rightarrow> Inl e
              | Inr (e, r2) \<Rightarrow>
                  if e = CHR ''n'' then string_loop p (sb @ [char_nl]) r2
                  else if e = CHR ''t'' then string_loop p (sb @ [char_tab]) r2
                  else if e = char_backslash then string_loop p (sb @ [char_backslash]) r2
                  else if e = char_dquote then string_loop p (sb @ [char_dquote]) r2
                  else err_at (cur_pos r1) (ReadMsg (UnknownEscape e)))))"
  by pat_completeness auto
termination
  by (relation "measure (\<lambda>(p, sb, r). remaining r)")
     (auto simp: less_trans [OF remaining_step remaining_step])

declare string_loop.simps [simp del]

definition read_string :: "reader \<Rightarrow> (sval \<times> reader) res" where
  "read_string r =
     (case advance r of Inl e \<Rightarrow> Inl e | Inr (_, r1) \<Rightarrow> string_loop (cur_pos r) [] r1)"

definition is_delim :: "char \<Rightarrow> bool" where
  "is_delim c \<longleftrightarrow>
     c = CHR ''('' \<or> c = CHR '')'' \<or> c = char_dquote \<or> c = CHR '';'' \<or> is_space c"

function atom_loop :: "reader \<Rightarrow> reader res" where
  "atom_loop r =
     (if \<not> eof r \<and> \<not> is_delim (peek r)
      then (case advance r of Inl e \<Rightarrow> Inl e | Inr (_, r1) \<Rightarrow> atom_loop r1)
      else Inr r)"
  by pat_completeness auto
termination
  by (relation "measure remaining") auto

declare atom_loop.simps [simp del]

definition hex_digit :: "char \<Rightarrow> bool" where
  "hex_digit c \<longleftrightarrow> is_digit c \<or> 97 \<le> byte c \<and> byte c \<le> 102 \<or> 65 \<le> byte c \<and> byte c \<le> 70"

definition is_number :: "string \<Rightarrow> bool" where
  "is_number s =
     (let t = trim_prefix ''-'' s
      in if t = [] then False
         else if prefix ''0x'' t \<or> prefix ''0X'' t
           then (let h = drop 2 t in if h = [] then False else list_all hex_digit h)
         else list_all is_digit t)"

definition classify :: "string \<Rightarrow> kind" where
  "classify t =
     (if t = ''*'' then KStar
      else if prefix '':'' t then KKeyword
      else if is_number t then KNumber
      else KSymbol)"

definition read_atom :: "reader \<Rightarrow> (sval \<times> reader) res" where
  "read_atom r =
     (case atom_loop r of
        Inl e \<Rightarrow> Inl e
      | Inr r1 \<Rightarrow>
          (let text = take (idx r1 - idx r) (drop (idx r) (src r))
           in if text = [] then err_at (cur_pos r) (ReadMsg ExpectedValue)
              else if text = '':'' then err_at (cur_pos r) (ReadMsg EmptyKey)
              else Inr (SVal (classify text) text [] (cur_pos r), r1)))"

text \<open>
  What every reading method guarantees: it does not panic, and if it succeeds it has moved
  forwards in the same source by at least one byte.
\<close>

definition reads :: "reader \<Rightarrow> (sval \<times> reader) res \<Rightarrow> bool" where
  "reads r m = (case m of
       Inl e \<Rightarrow> \<not> is_panic e
     | Inr (v, r') \<Rightarrow> moved r r' \<and> idx r < idx r')"

lemma reads_simps [simp]:
  "reads r (Inl e) \<longleftrightarrow> \<not> is_panic e"
  "reads r (Inr (v, r')) \<longleftrightarrow> moved r r' \<and> idx r < idx r'"
  by (simp_all add: reads_def)

lemma reads_later:
  assumes "moved r r1" and "reads r1 m"
  shows "reads r m"
proof (cases m)
  case (Inl e)
  with assms show ?thesis by simp
next
  case (Inr a)
  obtain v r' where "a = (v, r')" by (cases a)
  with Inr assms moved_trans [OF assms(1)] show ?thesis by (auto simp: moved_def)
qed

lemma string_loop_reads: "idx r \<le> length (src r) \<Longrightarrow> reads r (string_loop p sb r)"
proof (induction "remaining r" arbitrary: sb r rule: less_induct)
  case less
  show ?case
  proof (cases "eof r")
    case True
    then show ?thesis by (simp add: string_loop.simps [of p sb r])
  next
    case False
    let ?c = "src r ! idx r"
    let ?r1 = "step_char r ?c"
    let ?e = "src r ! Suc (idx r)"
    let ?r2 = "step_char ?r1 ?e"
    have m1: "moved r ?r1" using False by simp
    have IH1: "reads r (string_loop p sb' ?r1)" for sb'
      using False by (intro reads_later [OF m1] less.hyps) (auto simp: eof_def)
    have IH2: "reads r (string_loop p sb' ?r2)" if e1: "\<not> eof ?r1" for sb'
    proof (rule reads_later [OF moved_trans [OF m1 moved_step [OF e1]]])
      have "remaining ?r2 < remaining r"
        using remaining_step [OF e1] remaining_step [OF False] less_trans by blast
      then show "reads ?r2 (string_loop p sb' ?r2)"
        using e1 by (intro less.hyps) (auto simp: eof_def)
    qed
    show ?thesis
      using False m1 IH1 IH2 by (subst string_loop.simps) auto
  qed
qed

lemma read_string_reads: "\<not> eof r \<Longrightarrow> reads r (read_string r)"
  unfolding read_string_def
  by (simp, rule reads_later [OF moved_step string_loop_reads]) (auto simp: eof_def)

lemma atom_loop_total:
  "idx r \<le> length (src r) \<Longrightarrow>
     \<exists>r'. atom_loop r = Inr r' \<and> moved r r' \<and> (\<forall>k. idx r \<le> k \<and> k < idx r' \<longrightarrow> \<not> is_delim (src r ! k))
        \<and> (eof r' \<or> is_delim (peek r'))"
proof (induction "remaining r" arbitrary: r rule: less_induct)
  case less
  show ?case
  proof (cases "\<not> eof r \<and> \<not> is_delim (peek r)")
    case True
    let ?r1 = "step_char r (src r ! idx r)"
    from True have "\<exists>r'. atom_loop ?r1 = Inr r' \<and> moved ?r1 r'
        \<and> (\<forall>k. idx ?r1 \<le> k \<and> k < idx r' \<longrightarrow> \<not> is_delim (src ?r1 ! k)) \<and> (eof r' \<or> is_delim (peek r'))"
      by (intro less.hyps) (auto simp: eof_def)
    then obtain r' where r': "atom_loop ?r1 = Inr r'" "moved ?r1 r'" "eof r' \<or> is_delim (peek r')"
      "\<forall>k. Suc (idx r) \<le> k \<and> k < idx r' \<longrightarrow> \<not> is_delim (src r ! k)" by auto
    have "\<not> is_delim (src r ! k)" if "idx r \<le> k" "k < idx r'" for k
      using that r'(4) True by (cases "k = idx r") (auto simp: peek_def)
    with r' True show ?thesis
      using moved_trans [OF moved_step] by (subst atom_loop.simps) auto
  next
    case False
    with less.prems show ?thesis by (subst atom_loop.simps) (auto simp: moved_def)
  qed
qed

lemma read_atom_reads:
  assumes "idx r \<le> length (src r)"
  shows "reads r (read_atom r)"
proof -
  obtain r' where "atom_loop r = Inr r'" "moved r r'"
    using atom_loop_total [OF assms] by blast
  then show ?thesis by (auto simp: read_atom_def Let_def moved_def)
qed

section \<open>Values and lists\<close>

text \<open>
  \<open>readValue\<close>, \<open>readList\<close> and the loop of \<open>readList\<close> call each other. The loop goes on from
  the state the inner read returns, so that its termination needs to know that the inner read
  moved: that is proved on the domain first.
\<close>

function read_value :: "reader \<Rightarrow> (sval \<times> reader) res" and
  read_list :: "reader \<Rightarrow> (sval \<times> reader) res" and
  read_items :: "pos \<Rightarrow> sval list \<Rightarrow> reader \<Rightarrow> (sval \<times> reader) res" where
  "read_value r =
     (if peek r = CHR ''('' then read_list r
      else if peek r = CHR '')'' then err_at (cur_pos r) (ReadMsg UnexpectedClose)
      else if peek r = char_dquote then read_string r
      else read_atom r)"
| "read_list r =
     (case advance r of Inl e \<Rightarrow> Inl e | Inr (_, r1) \<Rightarrow> read_items (cur_pos r) [] r1)"
| "read_items p items r =
     (case skip_space r of
        Inl e \<Rightarrow> Inl e
      | Inr r1 \<Rightarrow>
          if eof r1 then err_at p (ReadMsg Unclosed)
          else if peek r1 = CHR '')''
          then (case advance r1 of
                  Inl e \<Rightarrow> Inl e | Inr (_, r2) \<Rightarrow> Inr (SVal KList [] items p, r2))
          else (case read_value r1 of
                  Inl e \<Rightarrow> Inl e
                | Inr (v, r2) \<Rightarrow> read_items p (items @ [v]) r2))"
  by pat_completeness auto

text \<open>The partial facts the termination proof rests on.\<close>

lemma read_dom_reads:
  shows "read_value_read_list_read_items_dom (Inl r) \<Longrightarrow>
           idx r \<le> length (src r) \<Longrightarrow> reads r (read_value r)"
    and "read_value_read_list_read_items_dom (Inr (Inl r)) \<Longrightarrow>
           \<not> eof r \<Longrightarrow> reads r (read_list r)"
    and "read_value_read_list_read_items_dom (Inr (Inr (p, items, r))) \<Longrightarrow>
           idx r \<le> length (src r) \<Longrightarrow> reads r (read_items p items r)"
proof (induction r and r and p items r rule: read_value_read_list_read_items.pinduct)
  case (1 r)
  have "\<not> eof r" if "peek r = CHR ''('' \<or> peek r = char_dquote"
    using that by (auto simp: peek_def)
  with 1 show ?case
    by (auto simp: read_value.psimps read_string_reads read_atom_reads)
next
  case (2 r)
  let ?r1 = "step_char r (src r ! idx r)"
  have "reads ?r1 (read_items (cur_pos r) [] ?r1)"
  proof (rule "2.IH")
    show "advance r = Inr (src r ! idx r, ?r1)" using "2.prems" by simp
    show "idx ?r1 \<le> length (src ?r1)" using "2.prems" by (simp add: eof_def)
  qed simp
  then have "reads r (read_items (cur_pos r) [] ?r1)"
    using reads_later [OF moved_step [OF "2.prems"]] by blast
  with "2.hyps" "2.prems" show ?case by (simp add: read_list.psimps)
next
  case (3 p items r)
  obtain r1 where r1: "skip_space r = Inr r1" "moved r r1"
    using skip_space_total [OF "3.prems"] by blast
  then have unf: "read_items p items r =
      (if eof r1 then err_at p (ReadMsg Unclosed)
       else if peek r1 = CHR '')''
       then (case advance r1 of
               Inl e \<Rightarrow> Inl e | Inr (_, r2) \<Rightarrow> Inr (SVal KList [] items p, r2))
       else (case read_value r1 of
               Inl e \<Rightarrow> Inl e | Inr (v, r2) \<Rightarrow> read_items p (items @ [v]) r2))"
    using "3.hyps" by (simp add: read_items.psimps)
  show ?case
  proof (cases "eof r1 \<or> peek r1 = CHR '')''")
    case True
    then show ?thesis
      using unf reads_later [OF r1(2), of "Inr (v, step_char r1 c)" for v c] by auto
  next
    case False
    then have rv: "reads r1 (read_value r1)"
      using "3.IH"(1) [OF r1(1)] r1(2) by (auto simp: moved_def)
    show ?thesis
    proof (cases "read_value r1")
      case (Inl e)
      with rv False unf show ?thesis by simp
    next
      case (Inr a)
      obtain v r2 where a: "a = (v, r2)" by (cases a)
      with rv Inr have m: "moved r1 r2" by simp
      then have "reads r2 (read_items p (items @ [v]) r2)"
        using False "3.IH"(2) [OF r1(1) _ _ Inr a [symmetric]] by (auto simp: moved_def)
      then have "reads r (read_items p (items @ [v]) r2)"
        using reads_later moved_trans [OF r1(2) m] by blast
      with Inr a False unf show ?thesis by simp
    qed
  qed
qed

lemma skip_space_remaining:
  assumes "skip_space r = Inr r1" and "\<not> eof r1"
  shows "remaining r1 \<le> remaining r"
proof (cases "idx r \<le> length (src r)")
  case True
  with skip_space_total [of r] assms(1) show ?thesis by (auto intro: moved_remaining)
next
  case False
  then have "eof r" by (simp add: eof_def)
  with assms show ?thesis by (simp add: skip_space_stop)
qed

lemma read_value_remaining:
  assumes "read_value_read_list_read_items_dom (Inl r1)"
    and "read_value r1 = Inr (v, r2)" and "\<not> eof r1"
  shows "remaining r2 < remaining r1"
  using read_dom_reads(1) [OF assms(1)] assms(2,3)
  by (auto simp: eof_def moved_def remaining_def)

lemma read_dom_all: "All read_value_read_list_read_items_dom"
proof (relation "measures
    [case_sum remaining (case_sum remaining (\<lambda>(p, items, r). remaining r)),
     case_sum (\<lambda>_. 1) (case_sum (\<lambda>_. 0) (\<lambda>_. 2))]", goal_cases)
  case (5 p items r r1 a v r2)
  then show ?case
    using skip_space_remaining [of r r1] read_value_remaining [of r1 v r2] by auto
qed (auto simp: res_simps dest: skip_space_remaining)

termination read_value
  by (rule read_dom_all)

declare read_value.simps [simp del] read_list.simps [simp del] read_items.simps [simp del]

lemma read_value_reads: "idx r \<le> length (src r) \<Longrightarrow> reads r (read_value r)"
  using read_dom_reads(1) read_dom_all by blast

section \<open>The entry point\<close>

function read_loop :: "sval list \<Rightarrow> reader \<Rightarrow> sval list res" where
  "read_loop out r =
     (case skip_space r of
        Inl e \<Rightarrow> Inl e
      | Inr r1 \<Rightarrow>
          if eof r1 then Inr out
          else (case read_value r1 of
                  Inl e \<Rightarrow> Inl e
                | Inr (v, r2) \<Rightarrow> read_loop (out @ [v]) r2))"
  by pat_completeness auto
termination
proof (relation "measure (\<lambda>(out, r). remaining r)", goal_cases)
  case (2 out r r1 a v r2)
  then show ?case
    using skip_space_remaining [of r r1] read_value_remaining [of r1 v r2] read_dom_all by auto
qed simp

declare read_loop.simps [simp del]

definition start_reader :: "string \<Rightarrow> string \<Rightarrow> reader" where
  "start_reader f s = \<lparr>src = s, fname = f, idx = 0, line = 1, col = 1\<rparr>"

text \<open>\<open>sexp.Read\<close>.\<close>

definition read :: "string \<Rightarrow> string \<Rightarrow> sval list res" where
  "read f s = read_loop [] (start_reader f s)"

lemma read_loop_no_panic: "idx r \<le> length (src r) \<Longrightarrow> no_panic (read_loop out r)"
proof (induction "remaining r" arbitrary: out r rule: less_induct)
  case less
  obtain r1 where r1: "skip_space r = Inr r1" "moved r r1"
    using skip_space_total [OF less.prems] by blast
  then have rv: "reads r1 (read_value r1)" by (intro read_value_reads) (auto simp: moved_def)
  show ?case
  proof (cases "read_value r1")
    case (Inl e)
    with rv r1 show ?thesis by (subst read_loop.simps) simp
  next
    case (Inr a)
    obtain v r2 where a: "a = (v, r2)" by (cases a)
    with rv Inr r1 have "remaining r2 < remaining r" "idx r2 \<le> length (src r2)"
      by (auto simp: moved_def remaining_def)
    then have "no_panic (read_loop (out @ [v]) r2)" by (rule less.hyps)
    with Inr a r1 show ?thesis by (subst read_loop.simps) simp
  qed
qed

lemma read_never_panics: "no_panic (read f s)"
  unfolding read_def by (rule read_loop_no_panic) (simp add: start_reader_def)

end
