(* ===== verification/NetIP.thy ===== *)
theory NetIP
  imports GoText
begin

text \<open>
  The part of Go's standard package \<open>net/netip\<close> the program uses (toolchain 1.22.4 or later):
  addresses and prefixes, their parsers and printers, \<open>IsMulticast\<close>, \<open>Is6\<close> and \<open>Masked\<close>.
  Every caller asks of a parse error only whether there is one, so a parser returns an option.
  The lemmas show that printing an IPv4 address and parsing it back is the identity, that a
  parsed prefix has a length its address family allows, and what \<open>Masked\<close> clears.
\<close>

section \<open>Addresses and prefixes\<close>

text \<open>\<open>netip.Addr\<close>: an IPv4 address, or an IPv6 address with a zone that may be empty.\<close>

datatype addr = V4 "32 word" | V6 "128 word" string

record ip_prefix =
  pfx_addr :: addr
  pfx_bits :: nat

fun split_on :: "char \<Rightarrow> string \<Rightarrow> string list" where
  "split_on c [] = [[]]"
| "split_on c (d # ds) =
     (if d = c then [] # split_on c ds
      else case split_on c ds of [] \<Rightarrow> [[d]] | p # ps \<Rightarrow> (d # p) # ps)"

lemma split_on_nonempty [simp]: "split_on c s \<noteq> []"
  by (cases s) (auto split: list.splits)

lemma split_on_plain: "c \<notin> set s \<Longrightarrow> split_on c s = [s]"
  by (induction s) auto

lemma split_on_append: "c \<notin> set u \<Longrightarrow> split_on c (u @ c # v) = u # split_on c v"
  by (induction u) auto

section \<open>Parsing\<close>

text \<open>
  One field of a dotted quad: at least one digit, no leading zero before another digit, at most
  255. \<open>parseIPv4Fields\<close> wants exactly four of them.
\<close>

definition parse_octet :: "string \<Rightarrow> nat option" where
  "parse_octet s =
     (if s = [] \<or> \<not> list_all is_digit s \<or> (1 < length s \<and> hd s = CHR ''0'') then None
      else case digits_value 10 0 s of
             None \<Rightarrow> None | Some n \<Rightarrow> if n > 255 then None else Some n)"

fun parse_octets :: "string list \<Rightarrow> nat list option" where
  "parse_octets [] = Some []"
| "parse_octets (s # ss) =
     (case parse_octet s of
        None \<Rightarrow> None
      | Some n \<Rightarrow> (case parse_octets ss of None \<Rightarrow> None | Some ns \<Rightarrow> Some (n # ns)))"

definition parse_ipv4_fields :: "string \<Rightarrow> nat list option" where
  "parse_ipv4_fields s =
     (let parts = split_on CHR ''.'' s
      in if length parts = 4 then parse_octets parts else None)"

definition bytes_value :: "nat list \<Rightarrow> nat" where
  "bytes_value bs = foldl (\<lambda>a b. a * 256 + b) 0 bs"

definition hex_val :: "char \<Rightarrow> nat option" where
  "hex_val c = (case digit_val c of Some d \<Rightarrow> if d < 16 then Some d else None | None \<Rightarrow> None)"

text \<open>The digits of one group of an IPv6 address: their number, their value, what follows.\<close>

fun hex_run :: "nat \<Rightarrow> nat \<Rightarrow> string \<Rightarrow> (nat \<times> nat \<times> string) option" where
  "hex_run off acc [] = Some (off, acc, [])"
| "hex_run off acc (c # cs) =
     (case hex_val c of
        None \<Rightarrow> Some (off, acc, c # cs)
      | Some d \<Rightarrow>
          if off > 3 \<or> acc * 16 + d > 65535 then None
          else hex_run (Suc off) (acc * 16 + d) cs)"

text \<open>
  The loop of \<open>parseIPv6\<close>: the bytes read so far and the position of \<open>::\<close> among them. The
  first argument counts the groups that still fit in 16 bytes.
\<close>

fun v6_loop :: "nat \<Rightarrow> string \<Rightarrow> nat list \<Rightarrow> nat option \<Rightarrow> (nat list \<times> nat option \<times> string) option" where
  "v6_loop 0 s ip el = Some (ip, el, s)"
| "v6_loop (Suc n) s ip el =
     (case hex_run 0 0 s of
        None \<Rightarrow> None
      | Some (off, acc, s1) \<Rightarrow>
          if off = 0 then None
          else if s1 \<noteq> [] \<and> hd s1 = CHR ''.'' then
            (if el = None \<and> length ip \<noteq> 12 \<or> length ip + 4 > 16 then None
             else case parse_ipv4_fields s of
                    None \<Rightarrow> None | Some bs \<Rightarrow> Some (ip @ bs, el, []))
          else (let ip1 = ip @ [acc div 256, acc mod 256]; s2 = tl s1; s3 = tl s2
                in if s1 = [] then Some (ip1, el, [])
                   else if hd s1 \<noteq> CHR '':'' \<or> s2 = [] then None
                   else if hd s2 \<noteq> CHR '':'' then v6_loop n s2 ip1 el
                   else if el \<noteq> None then None
                   else if s3 = [] then Some (ip1, Some (length ip1), [])
                   else v6_loop n s3 ip1 (Some (length ip1))))"

definition v6_finish :: "nat list \<times> nat option \<times> string \<Rightarrow> nat list option" where
  "v6_finish r =
     (case r of (ip, el, s) \<Rightarrow>
        if s \<noteq> [] then None
        else if length ip < 16 then
          (case el of None \<Rightarrow> None
           | Some e \<Rightarrow> Some (take e ip @ replicate (16 - length ip) 0 @ drop e ip))
        else if el \<noteq> None then None else Some ip)"

definition parse_ipv6_bytes :: "string \<Rightarrow> nat list option" where
  "parse_ipv6_bytes s =
     (let lead = (length s \<ge> 2 \<and> s ! 0 = CHR '':'' \<and> s ! 1 = CHR '':'');
          s1 = (if lead then drop 2 s else s)
      in if lead \<and> s1 = [] then Some (replicate 16 0)
         else case v6_loop 8 s1 [] (if lead then Some 0 else None) of
                None \<Rightarrow> None | Some r \<Rightarrow> v6_finish r)"

definition parse_ipv6 :: "string \<Rightarrow> addr option" where
  "parse_ipv6 s =
     (case index_byte CHR ''%'' s of
        None \<Rightarrow> map_option (\<lambda>bs. V6 (word_of_nat (bytes_value bs)) []) (parse_ipv6_bytes s)
      | Some i \<Rightarrow>
          (let zone = drop (Suc i) s
           in if zone = [] then None
              else map_option (\<lambda>bs. V6 (word_of_nat (bytes_value bs)) zone)
                     (parse_ipv6_bytes (take i s))))"

text \<open>\<open>netip.ParseAddr\<close>: the first of the three punctuation bytes decides the family.\<close>

definition parse_addr :: "string \<Rightarrow> addr option" where
  "parse_addr s =
     (case find (\<lambda>c. c = CHR ''.'' \<or> c = CHR '':'' \<or> c = CHR ''%'') s of
        None \<Rightarrow> None
      | Some c \<Rightarrow>
          if c = CHR ''.'' then
            map_option (\<lambda>bs. V4 (word_of_nat (bytes_value bs))) (parse_ipv4_fields s)
          else if c = CHR '':'' then parse_ipv6 s
          else None)"

definition is6 :: "addr \<Rightarrow> bool" where
  "is6 a = (case a of V4 _ \<Rightarrow> False | V6 _ _ \<Rightarrow> True)"

definition zone_of :: "addr \<Rightarrow> string" where
  "zone_of a = (case a of V4 _ \<Rightarrow> [] | V6 _ z \<Rightarrow> z)"

definition max_bits :: "addr \<Rightarrow> nat" where
  "max_bits a = (if is6 a then 128 else 32)"

text \<open>\<open>netip.ParsePrefix\<close>.\<close>

definition parse_prefix :: "string \<Rightarrow> ip_prefix option" where
  "parse_prefix s =
     (case last_index_byte CHR ''/'' s of
        None \<Rightarrow> None
      | Some i \<Rightarrow>
          (case parse_addr (take i s) of
             None \<Rightarrow> None
           | Some a \<Rightarrow>
               (let bs = drop (Suc i) s
                in if zone_of a \<noteq> [] then None
                   else if bs = [] \<or> \<not> list_all is_digit bs
                           \<or> (1 < length bs \<and> hd bs = CHR ''0'') then None
                   else case digits_value 10 0 bs of
                          None \<Rightarrow> None
                        | Some n \<Rightarrow> if n > max_bits a then None
                                    else Some \<lparr>pfx_addr = a, pfx_bits = n\<rparr>)))"

section \<open>Printing\<close>

definition v4_bytes :: "32 word \<Rightarrow> nat list" where
  "v4_bytes w = (let n = unat w
     in [n div 16777216, n div 65536 mod 256, n div 256 mod 256, n mod 256])"

definition v4_string :: "32 word \<Rightarrow> string" where
  "v4_string w = join ''.'' (map itoa (v4_bytes w))"

definition v6_groups :: "128 word \<Rightarrow> nat list" where
  "v6_groups w = map (\<lambda>i. unat w div 2 ^ (112 - 16 * i) mod 65536) [0..<8]"

text \<open>
  The run of zero groups \<open>string6\<close> shortens to \<open>::\<close>: the first of the longest runs of two
  groups or more, as the half-open interval of its indices.
\<close>

definition zero_run :: "nat list \<Rightarrow> nat \<times> nat" where
  "zero_run gs =
     foldl (\<lambda>(zs, ze) i. let l = length (takeWhile (\<lambda>g. g = 0) (drop i gs))
                         in if l \<ge> 2 \<and> l > ze - zs then (i, i + l) else (zs, ze))
       (255, 255) [0..<length gs]"

definition v6_string :: "128 word \<Rightarrow> string" where
  "v6_string w =
     (let gs = v6_groups w; hs = map (format_uint 16) gs
      in case zero_run gs of (zs, ze) \<Rightarrow>
           if zs = 255 then join '':'' hs
           else join '':'' (take zs hs) @ ''::'' @ join '':'' (drop ze hs))"

definition is_4in6 :: "128 word \<Rightarrow> bool" where
  "is_4in6 w \<longleftrightarrow> unat w div 2 ^ 32 = 0xFFFF"

definition zone_suffix :: "string \<Rightarrow> string" where
  "zone_suffix z = (if z = [] then [] else CHR ''%'' # z)"

text \<open>\<open>Addr.String\<close>, \<open>Prefix.String\<close>.\<close>

definition addr_string :: "addr \<Rightarrow> string" where
  "addr_string a =
     (case a of
        V4 w \<Rightarrow> v4_string w
      | V6 w z \<Rightarrow>
          (if is_4in6 w then ''::ffff:'' @ v4_string (word_of_nat (unat w mod 2 ^ 32))
           else v6_string w) @ zone_suffix z)"

definition prefix_string :: "ip_prefix \<Rightarrow> string" where
  "prefix_string p = addr_string (pfx_addr p) @ ''/'' @ itoa (pfx_bits p)"

section \<open>Predicates and masking\<close>

text \<open>\<open>Addr.IsMulticast\<close>, which unmaps an IPv4-mapped address first.\<close>

definition v4_multicast :: "nat \<Rightarrow> bool" where
  "v4_multicast n \<longleftrightarrow> n div 2 ^ 28 = 0xE"

definition is_multicast :: "addr \<Rightarrow> bool" where
  "is_multicast a =
     (case a of
        V4 w \<Rightarrow> v4_multicast (unat w)
      | V6 w _ \<Rightarrow> if is_4in6 w then v4_multicast (unat w mod 2 ^ 32)
                  else unat w div 2 ^ 120 = 0xFF)"

text \<open>\<open>Prefix.Masked\<close>: clear the bits below the prefix length.\<close>

definition clear_low :: "nat \<Rightarrow> 'a::len word \<Rightarrow> 'a word" where
  "clear_low k w = push_bit k (drop_bit k w)"

definition masked :: "ip_prefix \<Rightarrow> ip_prefix" where
  "masked p = p\<lparr>pfx_addr :=
     (case pfx_addr p of
        V4 w \<Rightarrow> V4 (clear_low (32 - pfx_bits p) w)
      | V6 w _ \<Rightarrow> V6 (clear_low (128 - pfx_bits p) w) [])\<rparr>"

section \<open>Facts\<close>

lemma parse_prefix_bits: "parse_prefix s = Some p \<Longrightarrow> pfx_bits p \<le> max_bits (pfx_addr p)"
  by (auto simp: parse_prefix_def Let_def split: option.splits if_splits)

lemma parse_prefix_zone: "parse_prefix s = Some p \<Longrightarrow> zone_of (pfx_addr p) = []"
  by (auto simp: parse_prefix_def Let_def split: option.splits if_splits)

lemma clear_low_bit: "bit (clear_low k w) i \<longleftrightarrow> k \<le> i \<and> bit w i"
  by (auto simp: clear_low_def bit_push_bit_iff bit_drop_bit_eq dest: bit_imp_le_length)

lemma clear_low_idem: "clear_low k (clear_low k w) = clear_low k w"
  by (rule bit_eqI) (simp add: clear_low_bit)

lemma masked_idem: "masked (masked p) = masked p"
  by (simp add: masked_def clear_low_idem split: addr.splits)

lemma masked_bits [simp]: "pfx_bits (masked p) = pfx_bits p"
  by (simp add: masked_def)

lemma itoa_no_leading_zero: "hd (itoa n) = CHR ''0'' \<Longrightarrow> n = 0"
proof (induction n rule: less_induct)
  case (less n)
  show ?case
  proof (cases "n < 10")
    case True
    then have "hd (itoa n) = char_of (48 + n)"
      by (simp add: itoa_def format_uint.simps [of 10 n] digit_char_def)
    with less.prems have "char_of (48 + n) = CHR ''0''" by simp
    then have "byte (char_of (48 + n)) = byte CHR ''0''" by (rule arg_cong)
    then have "48 + n = byte CHR ''0''" using True by simp
    then show ?thesis by (simp add: byte_def)
  next
    case False
    then have "hd (itoa n) = hd (itoa (n div 10))"
      by (simp add: itoa_def format_uint.simps [of 10 n])
    with less False have "n div 10 = 0" by simp
    with False show ?thesis by simp
  qed
qed

lemma parse_octet_itoa:
  assumes "n < 256"
  shows "parse_octet (itoa n) = Some n"
proof -
  have "\<not> (1 < length (itoa n) \<and> hd (itoa n) = CHR ''0'')"
    using itoa_no_leading_zero [of n] by (auto simp: itoa_def format_uint.simps [of 10 0])
  moreover have "list_all is_digit (itoa n)"
    using itoa_digits by (simp add: list_all_iff)
  moreover have "digits_value 10 0 (itoa n) = Some n"
    by (simp add: itoa_def digits_value_format)
  ultimately show ?thesis using assms by (auto simp: parse_octet_def)
qed

lemma dot_not_in_itoa: "CHR ''.'' \<notin> set (itoa n)"
  using itoa_digits [of n] by (auto simp: is_digit_def byte_def)

lemma itoa_only_digits: "c \<in> set (itoa n) \<Longrightarrow> is_digit c"
  using itoa_digits by blast

lemma v4_string_split:
  "split_on CHR ''.'' (v4_string w) = map itoa (v4_bytes w)"
  by (simp add: v4_string_def v4_bytes_def Let_def split_on_append split_on_plain dot_not_in_itoa)

lemma v4_bytes_bound: "\<forall>b \<in> set (v4_bytes w). b < 256"
proof -
  have "unat w < 4294967296" using unsigned_less [of w] by simp
  then show ?thesis by (auto simp: v4_bytes_def Let_def)
qed

lemma parse_octets_itoa: "\<forall>b \<in> set bs. b < 256 \<Longrightarrow> parse_octets (map itoa bs) = Some bs"
  by (induction bs) (auto simp: parse_octet_itoa)

lemma dotted_value:
  fixes n :: nat
  shows "(((n div 16777216) * 256 + n div 65536 mod 256) * 256 + n div 256 mod 256) * 256
           + n mod 256 = n"
proof -
  have "n div 65536 = n div 256 div 256" "n div 16777216 = n div 256 div 256 div 256"
    by (simp_all add: div_mult2_eq [symmetric])
  then show ?thesis by (simp add: div_mult_mod_eq)
qed

lemma v4_bytes_value: "word_of_nat (bytes_value (v4_bytes w)) = w"
proof -
  have "bytes_value (v4_bytes w) = unat w"
    using dotted_value [of "unat w"]
    by (simp add: bytes_value_def v4_bytes_def Let_def algebra_simps)
  then show ?thesis by simp
qed

lemma v4_fields_string: "parse_ipv4_fields (v4_string w) = Some (v4_bytes w)"
proof -
  have "length (v4_bytes w) = 4" by (simp add: v4_bytes_def Let_def)
  then show ?thesis
    by (simp add: parse_ipv4_fields_def Let_def v4_string_split parse_octets_itoa v4_bytes_bound)
qed

lemma find_append: "find P (u @ v) = (case find P u of None \<Rightarrow> find P v | r \<Rightarrow> r)"
  by (induction u) (auto split: option.splits)

lemma find_punct_v4:
  "find (\<lambda>c. c = CHR ''.'' \<or> c = CHR '':'' \<or> c = CHR ''%'') (v4_string w) = Some CHR ''.''"
proof -
  have *: "find (\<lambda>c. c = CHR ''.'' \<or> c = CHR '':'' \<or> c = CHR ''%'') (itoa n) = None" for n
    by (auto simp: find_None_iff is_digit_def byte_def dest!: itoa_only_digits)
  show ?thesis
    by (simp add: v4_string_def v4_bytes_def Let_def find_append *)
qed

text \<open>Printing an IPv4 address and parsing the text gives the address back.\<close>

lemma parse_addr_v4_string: "parse_addr (v4_string w) = Some (V4 w)"
  by (simp add: parse_addr_def find_punct_v4 v4_fields_string v4_bytes_value)

text \<open>And so does a prefix.\<close>

lemma parse_prefix_v4_string:
  assumes "pfx_addr p = V4 w" "pfx_bits p \<le> 32"
  shows "parse_prefix (prefix_string p) = Some p"
proof -
  let ?n = "pfx_bits p"
  have "CHR ''/'' \<notin> set (itoa ?n)"
    using itoa_digits [of ?n] by (auto simp: is_digit_def byte_def)
  then have "last_index_byte CHR ''/'' (prefix_string p) = Some (length (addr_string (V4 w)))"
    by (simp add: prefix_string_def assms(1) last_index_byte_append)
  moreover have "\<not> (1 < length (itoa ?n) \<and> hd (itoa ?n) = CHR ''0'')"
    using itoa_no_leading_zero [of ?n] by (auto simp: itoa_def format_uint.simps [of 10 0])
  moreover have "list_all is_digit (itoa ?n)" using itoa_digits by (simp add: list_all_iff)
  moreover have "digits_value 10 0 (itoa ?n) = Some ?n" by (simp add: itoa_def digits_value_format)
  ultimately show ?thesis using assms
    by (cases p) (auto simp: parse_prefix_def Let_def prefix_string_def addr_string_def
        parse_addr_v4_string zone_of_def max_bits_def is6_def)
qed

section \<open>The text of an address\<close>

text \<open>
  What an accepted text is made of: an IPv4 address of digits and dots, an IPv6 address of
  hexadecimal digits, colons and dots, with a zone exactly if there is a percent sign.
\<close>

lemma split_on_set: "c \<in> set s \<Longrightarrow> c = d \<or> (\<exists>p \<in> set (split_on d s). c \<in> set p)"
  by (induction s) (auto split: list.splits)

lemma parse_octets_digits: "parse_octets ps = Some ns \<Longrightarrow> \<forall>p \<in> set ps. list_all is_digit p"
  by (induction ps arbitrary: ns) (auto simp: parse_octet_def split: option.splits if_splits)

lemma v4_fields_chars:
  assumes "parse_ipv4_fields s = Some ns" "c \<in> set s"
  shows "is_digit c \<or> c = CHR ''.''"
proof -
  from assms(1) obtain ms where "parse_octets (split_on CHR ''.'' s) = Some ms"
    by (auto simp: parse_ipv4_fields_def Let_def split: if_splits)
  from parse_octets_digits [OF this] split_on_set [OF assms(2), of "CHR ''.''"] show ?thesis
    by (auto simp: list_all_iff)
qed

definition v6_char :: "char \<Rightarrow> bool" where
  "v6_char c \<longleftrightarrow> hex_val c \<noteq> None \<or> c = CHR '':'' \<or> c = CHR ''.''"

lemma digit_hex: "is_digit c \<Longrightarrow> hex_val c \<noteq> None"
  by (auto simp: hex_val_def digit_val_def is_digit_def)

lemma hex_run_chars: "hex_run off acc s = Some (off', acc', s') \<Longrightarrow> \<exists>u. s = u @ s' \<and> list_all v6_char u"
proof (induction off acc s rule: hex_run.induct)
  case (2 off acc c cs)
  show ?case
  proof (cases "hex_val c")
    case None
    with 2 show ?thesis by (auto intro: exI [of _ "[]"])
  next
    case (Some d)
    with 2 obtain u where "cs = u @ s'" "list_all v6_char u" by (auto split: if_splits)
    moreover have "v6_char c" using Some by (simp add: v6_char_def)
    ultimately show ?thesis by (intro exI [of _ "c # u"]) simp
  qed
qed (auto intro: exI [of _ "[]"])

lemma v6_loop_chars: "v6_loop n s ip el = Some (ip', el', s') \<Longrightarrow> \<exists>u. s = u @ s' \<and> list_all v6_char u"
proof (induction n s ip el rule: v6_loop.induct)
  case (1 s ip el)
  then show ?case by (auto intro: exI [of _ "[]"])
next
  case (2 n s ip el)
  from "2.prems" obtain off acc s1 where h: "hex_run 0 0 s = Some (off, acc, s1)" "off \<noteq> 0"
    by (auto split: option.splits if_splits)
  from hex_run_chars [OF h(1)] obtain u where u: "s = u @ s1" "list_all v6_char u" by blast
  have colon: "list_all v6_char [CHR '':'']" "list_all v6_char [CHR '':'', CHR '':'']"
    by (simp_all add: v6_char_def)
  show ?case
  proof (cases "s1 \<noteq> [] \<and> hd s1 = CHR ''.''")
    case True
    with "2.prems" h obtain bs where "parse_ipv4_fields s = Some bs" "s' = []"
      by (auto split: option.splits if_splits)
    with v4_fields_chars [of s bs] digit_hex show ?thesis
      by (intro exI [of _ s]) (auto simp: list_all_iff v6_char_def)
  next
    case False
    show ?thesis
    proof (cases "s1 = []")
      case True
      with "2.prems" h u show ?thesis by auto
    next
      case ne: False
      with False "2.prems" h have c: "s1 = CHR '':'' # tl s1" "tl s1 \<noteq> []"
        by (auto simp: Let_def split: if_splits) (metis list.collapse)+
      then have hd1: "hd s1 = CHR '':''" by (metis list.sel(1))
      have step: "\<exists>v. s = v @ s' \<and> list_all v6_char v"
        if "\<exists>v. t = v @ s' \<and> list_all v6_char v" "s1 = w @ t" "list_all v6_char w" for t w
      proof -
        from that(1) obtain v where "t = v @ s'" "list_all v6_char v" by blast
        with that(2,3) u show ?thesis by (intro exI [of _ "u @ w @ v"]) simp
      qed
      let ?ip = "ip @ [acc div 256, acc mod 256]"
      consider (one) "hd (tl s1) \<noteq> CHR '':''" "v6_loop n (tl s1) ?ip el = Some (ip', el', s')"
        | (last) "hd (tl s1) = CHR '':''" "tl (tl s1) = []" "s' = []"
        | (two) "hd (tl s1) = CHR '':''" "tl (tl s1) \<noteq> []" "el = None"
            "v6_loop n (tl (tl s1)) ?ip (Some (length ?ip)) = Some (ip', el', s')"
        using "2.prems" h ne False c by (auto simp: Let_def split: if_splits)
      then show ?thesis
      proof cases
        case one
        have "\<exists>v. tl s1 = v @ s' \<and> list_all v6_char v"
          using "2.IH"(1) [OF h(1) refl refl h(2) False refl refl refl] one ne c(2) hd1 by simp
        from step [OF this _ colon(1)] c(1) show ?thesis by simp
      next
        case last
        with c have "s1 = [CHR '':'', CHR '':'']" by (metis list.collapse)
        with step [of "[]" s1] last(3) colon(2) show ?thesis by simp
      next
        case two
        have "\<exists>v. tl (tl s1) = v @ s' \<and> list_all v6_char v"
          using "2.IH"(2) [OF h(1) refl refl h(2) False refl refl refl] two ne c(2) hd1 by simp
        moreover have "s1 = [CHR '':'', CHR '':''] @ tl (tl s1)" using two(1) c by (metis append_Cons append_Nil list.collapse)
        ultimately show ?thesis using step [OF _ _ colon(2)] by blast
      qed
    qed
  qed
qed

lemma v6_bytes_chars:
  assumes "parse_ipv6_bytes s = Some bs"
  shows "list_all v6_char s"
proof -
  define lead where "lead = (length s \<ge> 2 \<and> s ! 0 = CHR '':'' \<and> s ! 1 = CHR '':'')"
  define t where "t = (if lead then drop 2 s else s)"
  have l: "\<exists>w. s = w @ t \<and> list_all v6_char w"
  proof (cases lead)
    case True
    then have "s = [CHR '':'', CHR '':''] @ t"
      by (cases s; cases "tl s") (auto simp: lead_def t_def)
    then show ?thesis by (intro exI [of _ "[CHR '':'', CHR '':'']"]) (simp add: v6_char_def)
  qed (auto simp: t_def)
  have "list_all v6_char t"
  proof (cases "lead \<and> t = []")
    case False
    with assms have "(case v6_loop 8 t [] (if lead then Some 0 else None) of
        None \<Rightarrow> None | Some r \<Rightarrow> v6_finish r) = Some bs"
      unfolding parse_ipv6_bytes_def Let_def lead_def t_def by metis
    then obtain r where r: "v6_loop 8 t [] (if lead then Some 0 else None) = Some r" "v6_finish r = Some bs"
      by (cases "v6_loop 8 t [] (if lead then Some 0 else None)") auto
    moreover obtain ip el u where "r = (ip, el, u)" by (cases r)
    moreover from this r(2) have "u = []" by (auto simp: v6_finish_def split: if_splits)
    ultimately show ?thesis using v6_loop_chars by fastforce
  qed simp
  with l show ?thesis by auto
qed

lemma v6_char_slash: "v6_char c \<Longrightarrow> c \<noteq> CHR ''/'' \<and> c \<noteq> CHR ''%''"
  by (auto simp: v6_char_def hex_val_def digit_val_def is_digit_def is_lower_def is_upper_def byte_def)

lemma parse_addr_text:
  assumes "parse_addr s = Some a"
  shows "(zone_of a = [] \<longleftrightarrow> CHR ''%'' \<notin> set s) \<and> (zone_of a = [] \<longrightarrow> CHR ''/'' \<notin> set s)"
proof -
  from assms consider (v4) ns where "parse_ipv4_fields s = Some ns" "zone_of a = []"
    | (v6) "parse_ipv6 s = Some a"
    by (auto simp: parse_addr_def zone_of_def split: option.splits if_splits)
  then show ?thesis
  proof cases
    case v4
    have "c \<noteq> CHR ''%'' \<and> c \<noteq> CHR ''/''" if "c \<in> set s" for c
      using v4_fields_chars [OF v4(1) that] by (auto simp: is_digit_def byte_def)
    with v4 show ?thesis by blast
  next
    case v6
    show ?thesis
    proof (cases "index_byte CHR ''%'' s")
      case None
      with v6 obtain bs where "parse_ipv6_bytes s = Some bs" "zone_of a = []"
        by (auto simp: parse_ipv6_def zone_of_def)
      with v6_bytes_chars [of s bs] v6_char_slash show ?thesis by (auto simp: list_all_iff)
    next
      case (Some i)
      then have "CHR ''%'' \<in> set s" using index_byte_None [of "CHR ''%''" s] by auto
      with v6 Some show ?thesis by (auto simp: parse_ipv6_def zone_of_def Let_def split: if_splits)
    qed
  qed
qed

text \<open>No text is both a bare address and a prefix.\<close>

lemma addr_not_prefix:
  assumes "parse_prefix s = Some p"
  shows "parse_addr s = None"
proof (rule ccontr)
  assume "parse_addr s \<noteq> None"
  then obtain a where a: "parse_addr s = Some a" by auto
  from assms obtain i b where b: "last_index_byte CHR ''/'' s = Some i" "parse_addr (take i s) = Some b"
    "zone_of b = []" "list_all is_digit (drop (Suc i) s)"
    by (auto simp: parse_prefix_def Let_def split: option.splits if_splits)
  have i: "i < length s" "s ! i = CHR ''/''" using last_index_byte_nth [OF b(1)] by auto
  then have "CHR ''/'' \<in> set s" using nth_mem by metis
  with parse_addr_text [OF a] have z: "CHR ''%'' \<in> set s" by blast
  have s: "s = take i s @ CHR ''/'' # drop (Suc i) s" using i by (metis id_take_nth_drop)
  have "CHR ''%'' \<notin> set (drop (Suc i) s)"
    using b(4) by (auto simp: list_all_iff is_digit_def byte_def)
  moreover have "CHR ''%'' \<notin> set (take i s)" using parse_addr_text [OF b(2)] b(3) by blast
  moreover have "set s = insert (CHR ''/'') (set (take i s) \<union> set (drop (Suc i) s))"
    using arg_cong [OF s, of set] by simp
  ultimately show False using z by simp
qed

end
