(* ===== verification/Ast.thy ===== *)
theory Ast
  imports Sexp NetIP
begin

text \<open>
  Protocol nodes (\<open>src/ast\<close>): \<open>Build\<close>, which turns a form into a node tree, the three-state
  reading of a property (\<open>value.go\<close>) and the property vocabulary with its parsers
  (\<open>props.go\<close>). A property is absent, dynamic (\<open>*\<close>) or concrete, and only a concrete value
  carries a \<open>T\<close>; the struct with a tag and a \<open>T\<close> of the source is the datatype \<open>pvalue\<close>.

  The lemmas: \<open>Build\<close> keeps the well-formedness of trees (\<open>node_ok\<close>: one value per key, no
  keyword as a value), undoes the printing of a tree as a form, and never panics; a property
  reads as exactly one of the three states; the numeric parsers stay in their ranges.
\<close>

section \<open>Nodes\<close>

record property =
  p_key :: string
  p_val :: sval
  p_pos :: pos

datatype node =
  Node (nname: string) (nprops: "property list") (nchildren: "node list") (npos: pos)

fun find_prop :: "property list \<Rightarrow> string \<Rightarrow> property option" where
  "find_prop [] k = None"
| "find_prop (p # ps) k = (if p_key p = k then Some p else find_prop ps k)"

text \<open>\<open>Node.Lookup\<close>.\<close>

definition lookup :: "node \<Rightarrow> string \<Rightarrow> property option" where
  "lookup n k = find_prop (nprops n) k"

lemma find_prop_None: "find_prop ps k = None \<longleftrightarrow> k \<notin> p_key ` set ps"
  by (induction ps) auto

lemma find_prop_Some: "find_prop ps k = Some p \<Longrightarrow> p \<in> set ps \<and> p_key p = k"
  by (induction ps) (auto split: if_splits)

lemma find_prop_distinct:
  "distinct (map p_key ps) \<Longrightarrow> p \<in> set ps \<Longrightarrow> find_prop ps (p_key p) = Some p"
  by (induction ps) (auto simp: image_iff)

section \<open>Build\<close>

text \<open>
  The loop of \<open>Build\<close> over the properties: it consumes keyword and value pairs, and hands back
  the items it stops at.
\<close>

fun build_props :: "string \<Rightarrow> property list \<Rightarrow> sval list \<Rightarrow> (property list \<times> sval list) res" where
  "build_props name acc [] = Inr (acc, [])"
| "build_props name acc [kw] =
     (if vkind kw = KKeyword then err_at (vpos kw) (BuildMsg (NoValue (vtext kw)))
      else Inr (acc, [kw]))"
| "build_props name acc (kw # val # rest) =
     (if vkind kw = KKeyword then
        (if vkind val = KKeyword then err_at (vpos kw) (BuildMsg (NoValue (vtext kw)))
         else if find_prop acc (value_key kw) \<noteq> None
         then err_at (vpos kw) (BuildMsg (Duplicate (vtext kw) name))
         else build_props name
                (acc @ [\<lparr>p_key = value_key kw, p_val = val, p_pos = vpos kw\<rparr>]) rest)
      else Inr (acc, kw # val # rest))"

lemma build_props_size:
  "build_props name acc items = Inr (ps, rest) \<Longrightarrow> size_list size rest \<le> size_list size items"
  by (induction name acc items rule: build_props.induct) (fastforce split: if_splits)+

function build :: "sval \<Rightarrow> node res" and
  build_children :: "sval list \<Rightarrow> node list \<Rightarrow> node list res" where
  "build v =
     (if vkind v \<noteq> KList then err_at (vpos v) (BuildMsg (ExpectedForm (vkind v)))
      else (case vitems v of
          [] \<Rightarrow> err_at (vpos v) (BuildMsg EmptyForm)
        | head # items \<Rightarrow>
            if vkind head \<noteq> KSymbol then err_at (vpos head) (BuildMsg (FormHead (vkind head)))
            else (case build_props (vtext head) [] items of
                Inl e \<Rightarrow> Inl e
              | Inr (props, rest) \<Rightarrow>
                  (case build_children rest [] of
                     Inl e \<Rightarrow> Inl e
                   | Inr cs \<Rightarrow> Inr (Node (vtext head) props cs (vpos v))))))"
| "build_children [] acc = Inr acc"
| "build_children (item # items) acc =
     (if vkind item = KKeyword
      then err_at (vpos item) (BuildMsg (PropAfterForm (vtext item)))
      else if vkind item \<noteq> KList
      then err_at (vpos item) (BuildMsg (ExpectedNested (vkind item)))
      else (case build item of
              Inl e \<Rightarrow> Inl e
            | Inr c \<Rightarrow> build_children items (acc @ [c])))"
  by pat_completeness auto
termination
proof (relation "measure (case_sum size (\<lambda>(items, acc). size_list size items))", goal_cases)
  case (2 v head items a props rest)
  then have "size_list size rest \<le> size_list size items" by (auto dest: build_props_size)
  with 2 show ?case by (cases v) auto
qed auto

declare build.simps [simp del]

text \<open>What \<open>Build\<close> guarantees of a tree: keys are distinct, and no value is a keyword.\<close>

definition props_ok :: "property list \<Rightarrow> bool" where
  "props_ok ps \<longleftrightarrow> distinct (map p_key ps) \<and> list_all (\<lambda>p. vkind (p_val p) \<noteq> KKeyword) ps"

fun node_ok :: "node \<Rightarrow> bool" where
  "node_ok (Node n ps cs p) \<longleftrightarrow> props_ok ps \<and> list_all node_ok cs"

lemma build_props_ok:
  "build_props name acc items = Inr (ps, rest) \<Longrightarrow> props_ok acc \<Longrightarrow> props_ok ps"
  by (induction name acc items rule: build_props.induct)
     (auto simp: props_ok_def find_prop_None split: if_splits)

lemma build_ok:
  shows "build v = Inr n \<Longrightarrow> node_ok n"
    and "build_children items acc = Inr cs \<Longrightarrow> list_all node_ok acc \<Longrightarrow> list_all node_ok cs"
proof (induction v and items acc arbitrary: n and cs rule: build_build_children.induct)
  case (1 v)
  then obtain head items props rest cs where *: "vitems v = head # items"
    "build_props (vtext head) [] items = Inr (props, rest)" "build_children rest [] = Inr cs"
    "n = Node (vtext head) props cs (vpos v)" "vkind v = KList" "vkind head = KSymbol"
    by (auto simp: build.simps [of v] split: if_splits list.splits sum.splits)
  have "props_ok props" using build_props_ok [OF *(2)] by (simp add: props_ok_def)
  moreover have "list_all node_ok cs" using "1.IH" * by simp
  ultimately show ?case using *(4) by simp
qed (auto split: if_splits sum.splits)

lemma build_props_no_panic: "no_panic (build_props name acc items)"
  by (induction name acc items rule: build_props.induct) auto

lemma build_never_panics:
  shows "no_panic (build v)" and "no_panic (build_children items acc)"
proof (induction v and items acc rule: build_build_children.induct)
  case (1 v)
  show ?case
  proof (cases "vkind v = KList \<and> (\<exists>h. vitems v \<noteq> [] \<and> hd (vitems v) = h \<and> vkind h = KSymbol)")
    case True
    then obtain head items where v: "vkind v = KList" "vitems v = head # items" "vkind head = KSymbol"
      by (cases "vitems v") auto
    show ?thesis
    proof (cases "build_props (vtext head) [] items")
      case (Inl e)
      then show ?thesis
        using build_props_no_panic [of "vtext head" "[]" items] v by (simp add: build.simps [of v])
    next
      case (Inr a)
      obtain props rest where a: "a = (props, rest)" by (cases a)
      have "no_panic (build_children rest [])" using "1.IH" v Inr a by simp
      then show ?thesis using v Inr a by (auto simp: build.simps [of v] no_panic_def split: sum.splits)
    qed
  next
    case False
    then show ?thesis by (auto simp: build.simps [of v] split: list.splits)
  qed
next
  case (3 item items acc)
  then show ?case by (auto simp: no_panic_def split: sum.splits)
qed simp

text \<open>
  A tree printed as a form: the name, then the keys and values, then the children. Reading the
  form again gives the tree.
\<close>

definition form_head :: "string \<Rightarrow> pos \<Rightarrow> sval" where
  "form_head name p = SVal KSymbol name [] p"

definition form_props :: "property list \<Rightarrow> sval list" where
  "form_props ps = concat (map (\<lambda>q. [SVal KKeyword (CHR '':'' # p_key q) [] (p_pos q), p_val q]) ps)"

fun form_of :: "node \<Rightarrow> sval" where
  "form_of (Node n ps cs p) =
     SVal KList [] (form_head n p # form_props ps @ map form_of cs) p"

lemma form_of_kind [simp]: "vkind (form_of n) = KList"
  by (cases n) simp

lemma value_key_colon [simp]: "value_key (SVal k (CHR '':'' # t) xs p) = t"
  by (simp add: value_key_def trim_prefix_def)

lemma property_collapse [simp]:
  fixes q :: property
  shows "\<lparr>p_key = p_key q, p_val = p_val q, p_pos = p_pos q\<rparr> = q"
  by (cases q) simp

lemma build_props_form:
  assumes "props_ok (acc @ ps)" and "rest = [] \<or> vkind (hd rest) \<noteq> KKeyword"
  shows "build_props name acc (form_props ps @ rest) = Inr (acc @ ps, rest)"
  using assms
proof (induction ps arbitrary: acc)
  case Nil
  then show ?case by (cases rest; cases "tl rest") (auto simp: form_props_def neq_Nil_conv)
next
  case (Cons q ps)
  have "find_prop acc (p_key q) = None"
    using Cons.prems(1) by (auto simp: props_ok_def find_prop_None)
  moreover have "vkind (p_val q) \<noteq> KKeyword" using Cons.prems(1) by (simp add: props_ok_def)
  moreover have "build_props name (acc @ [q]) (form_props ps @ rest) = Inr ((acc @ [q]) @ ps, rest)"
    using Cons.prems by (intro Cons.IH) auto
  ultimately show ?case by (simp add: form_props_def)
qed

lemma build_children_form:
  assumes "\<And>c. c \<in> set cs \<Longrightarrow> build (form_of c) = Inr c"
  shows "build_children (map form_of cs) acc = Inr (acc @ cs)"
  using assms by (induction cs arbitrary: acc) auto

lemma build_form_of: "node_ok n \<Longrightarrow> build (form_of n) = Inr n"
proof (induction n)
  case (Node n ps cs p)
  have ps: "build_props n [] (form_props ps @ map form_of cs) = Inr (ps, map form_of cs)"
    using Node.prems build_props_form [of "[]" ps "map form_of cs" n]
    by (cases cs) auto
  have cs: "build_children (map form_of cs) [] = Inr cs"
    using Node by (intro build_children_form [of cs "[]", simplified]) (auto simp: list_all_iff)
  show ?case by (simp add: build.simps [of "SVal _ _ _ _"] form_head_def ps cs)
qed

section \<open>The three states of a property\<close>

datatype pstate = Absent | Dynamic | Concrete

fun pstate_text :: "pstate \<Rightarrow> string" where
  "pstate_text Absent = ''absent''"
| "pstate_text Dynamic = ''dynamic''"
| "pstate_text Concrete = ''concrete''"

text \<open>\<open>ast.Value[T]\<close>; the last two components are the position and the key.\<close>

datatype 'a pvalue = PAbsent pos string | PDynamic pos string | PConcrete 'a pos string

definition state_of :: "'a pvalue \<Rightarrow> pstate" where
  "state_of v = (case v of PAbsent _ _ \<Rightarrow> Absent | PDynamic _ _ \<Rightarrow> Dynamic
                         | PConcrete _ _ _ \<Rightarrow> Concrete)"

definition is_absent :: "'a pvalue \<Rightarrow> bool" where
  "is_absent v \<longleftrightarrow> state_of v = Absent"

definition is_dynamic :: "'a pvalue \<Rightarrow> bool" where
  "is_dynamic v \<longleftrightarrow> state_of v = Dynamic"

definition value_pos :: "'a pvalue \<Rightarrow> pos" where
  "value_pos v = (case v of PAbsent p _ \<Rightarrow> p | PDynamic p _ \<Rightarrow> p | PConcrete _ p _ \<Rightarrow> p)"

definition key_of :: "'a pvalue \<Rightarrow> string" where
  "key_of v = (case v of PAbsent _ k \<Rightarrow> k | PDynamic _ k \<Rightarrow> k | PConcrete _ _ k \<Rightarrow> k)"

text \<open>\<open>Value.Get\<close>: the value and whether it is concrete.\<close>

definition concrete :: "'a pvalue \<Rightarrow> 'a option" where
  "concrete v = (case v of PConcrete x _ _ \<Rightarrow> Some x | _ \<Rightarrow> None)"

definition require :: "'a pvalue \<Rightarrow> string \<Rightarrow> 'a res" where
  "require v node =
     (case v of
        PConcrete x _ _ \<Rightarrow> Inr x
      | PDynamic p k \<Rightarrow> err_at p (ValueMsg (NotConcrete node k))
      | PAbsent p k \<Rightarrow> err_at p (ValueMsg (Missing node k)))"

record 'a prop_def =
  pd_key :: string
  pd_parse :: "sval \<Rightarrow> 'a res"

text \<open>\<open>ast.Get\<close>.\<close>

definition get_prop :: "node \<Rightarrow> 'a prop_def \<Rightarrow> 'a pvalue res" where
  "get_prop n d =
     (case lookup n (pd_key d) of
        None \<Rightarrow> Inr (PAbsent (npos n) (pd_key d))
      | Some q \<Rightarrow>
          if vkind (p_val q) = KStar then Inr (PDynamic (vpos (p_val q)) (pd_key d))
          else (case wrap_err (\<lambda>e. ErrAt (vpos (p_val q)) (PropMsg (nname n) (pd_key d) e))
                       (pd_parse d (p_val q)) of
                  Inl e \<Rightarrow> Inl e
                | Inr t \<Rightarrow> Inr (PConcrete t (vpos (p_val q)) (pd_key d))))"

lemma concrete_iff: "concrete v = Some x \<longleftrightarrow> (\<exists>p k. v = PConcrete x p k)"
  by (cases v) (auto simp: concrete_def)

lemma require_Inr [res_simps]: "require v node = Inr x \<longleftrightarrow> concrete v = Some x"
  by (cases v) (auto simp: concrete_def require_def)

text \<open>Which state a reading has is decided by the property, its value and its parser alone.\<close>

lemma get_prop_absent:
  "get_prop n d = Inr (PAbsent p k) \<longleftrightarrow> lookup n (pd_key d) = None \<and> p = npos n \<and> k = pd_key d"
  by (auto simp: get_prop_def split: option.splits sum.splits)

lemma get_prop_dynamic:
  "get_prop n d = Inr (PDynamic p k) \<longleftrightarrow>
     (\<exists>q. lookup n (pd_key d) = Some q \<and> vkind (p_val q) = KStar \<and> p = vpos (p_val q)
        \<and> k = pd_key d)"
  by (auto simp: get_prop_def split: option.splits sum.splits)

lemma get_prop_concrete:
  "get_prop n d = Inr (PConcrete x p k) \<longleftrightarrow>
     (\<exists>q. lookup n (pd_key d) = Some q \<and> vkind (p_val q) \<noteq> KStar
        \<and> pd_parse d (p_val q) = Inr x \<and> p = vpos (p_val q) \<and> k = pd_key d)"
  by (auto simp: get_prop_def wrap_err_eq_Inr split: option.splits sum.splits)

lemma require_no_panic: "no_panic (require v node)"
  by (cases v) (simp_all add: require_def)

lemma get_prop_no_panic:
  assumes "\<And>v. no_panic (pd_parse d v)"
  shows "no_panic (get_prop n d)"
proof (cases "lookup n (pd_key d)")
  case None
  then show ?thesis by (simp add: get_prop_def)
next
  case (Some q)
  have "no_panic (wrap_err (\<lambda>e. ErrAt (vpos (p_val q)) (PropMsg (nname n) (pd_key d) e))
          (pd_parse d (p_val q)))"
    by (rule no_panic_wrap) (simp_all add: assms)
  with Some show ?thesis by (auto simp: get_prop_def no_panic_def split: sum.splits)
qed

section \<open>The property vocabulary\<close>

definition texty :: "sval \<Rightarrow> bool" where
  "texty v \<longleftrightarrow> vkind v = KString \<or> vkind v = KSymbol"

definition parse_addr_value :: "sval \<Rightarrow> addr res" where
  "parse_addr_value v =
     (if \<not> texty v then err_plain (ValueMsg (WantAddr (vkind v)))
      else case parse_addr (vtext v) of
             None \<Rightarrow> err_plain (ValueMsg (BadAddr (vtext v)))
           | Some a \<Rightarrow> Inr a)"

definition parse_prefix_value :: "sval \<Rightarrow> ip_prefix res" where
  "parse_prefix_value v =
     (if \<not> texty v then err_plain (ValueMsg (WantPrefix (vkind v)))
      else if \<not> contains (vtext v) ''/'' then err_plain (ValueMsg (NeedsLength (vtext v)))
      else case parse_prefix (vtext v) of
             None \<Rightarrow> err_plain (ValueMsg (BadPrefix (vtext v)))
           | Some p \<Rightarrow> Inr p)"

definition parse_text :: "sval \<Rightarrow> string res" where
  "parse_text v =
     (if \<not> texty v then err_plain (ValueMsg (WantName (vkind v))) else Inr (vtext v))"

text \<open>\<open>parseUnsigned[T]\<close>: \<open>T\<close> is the word type, \<open>bits\<close> the size asked of \<open>ParseUint\<close>.\<close>

definition parse_unsigned :: "nat \<Rightarrow> sval \<Rightarrow> ('w::len word) res" where
  "parse_unsigned bits v =
     (if vkind v \<noteq> KNumber then err_plain (ValueMsg (WantNumber (vkind v)))
      else (let hex = (prefix ''0x'' (vtext v) \<or> prefix ''0X'' (vtext v));
                text = (if hex then drop 2 (vtext v) else vtext v)
            in case parse_uint (if hex then 16 else 10) bits text of
                 None \<Rightarrow> err_plain (ValueMsg (NoFit (vtext v) bits))
               | Some u \<Rightarrow> Inr (word_of_nat u)))"

definition parse_u16 :: "sval \<Rightarrow> (16 word) res" where
  "parse_u16 v = parse_unsigned 16 v"

definition parse_u32 :: "sval \<Rightarrow> (32 word) res" where
  "parse_u32 v = parse_unsigned 32 v"

definition parse_vlan_id :: "sval \<Rightarrow> (16 word) res" where
  "parse_vlan_id v =
     (case parse_u16 v of
        Inl e \<Rightarrow> Inl e
      | Inr n \<Rightarrow> if n = 0 \<or> n > 4094 then err_plain (ValueMsg (VlanRange (unat n))) else Inr n)"

definition parse_vni :: "sval \<Rightarrow> (32 word) res" where
  "parse_vni v =
     (case parse_u32 v of
        Inl e \<Rightarrow> Inl e
      | Inr n \<Rightarrow> if n > 0xFFFFFF then err_plain (ValueMsg (VniRange (unat n))) else Inr n)"

definition Src :: "addr prop_def" where
  "Src = \<lparr>pd_key = ''src'', pd_parse = parse_addr_value\<rparr>"

definition Dst :: "addr prop_def" where
  "Dst = \<lparr>pd_key = ''dst'', pd_parse = parse_addr_value\<rparr>"

definition SrcPrefix :: "ip_prefix prop_def" where
  "SrcPrefix = \<lparr>pd_key = ''src'', pd_parse = parse_prefix_value\<rparr>"

definition DstPrefix :: "ip_prefix prop_def" where
  "DstPrefix = \<lparr>pd_key = ''dst'', pd_parse = parse_prefix_value\<rparr>"

definition SrcPort :: "(16 word) prop_def" where
  "SrcPort = \<lparr>pd_key = ''src-port'', pd_parse = parse_u16\<rparr>"

definition DstPort :: "(16 word) prop_def" where
  "DstPort = \<lparr>pd_key = ''dst-port'', pd_parse = parse_u16\<rparr>"

definition VNI :: "(32 word) prop_def" where
  "VNI = \<lparr>pd_key = ''vni'', pd_parse = parse_vni\<rparr>"

definition Key :: "(32 word) prop_def" where
  "Key = \<lparr>pd_key = ''key'', pd_parse = parse_u32\<rparr>"

definition Sequence :: "(32 word) prop_def" where
  "Sequence = \<lparr>pd_key = ''sequence'', pd_parse = parse_u32\<rparr>"

definition SPI :: "(32 word) prop_def" where
  "SPI = \<lparr>pd_key = ''spi'', pd_parse = parse_u32\<rparr>"

definition VLANID :: "(16 word) prop_def" where
  "VLANID = \<lparr>pd_key = ''id'', pd_parse = parse_vlan_id\<rparr>"

definition Peer :: "string prop_def" where
  "Peer = \<lparr>pd_key = ''peer'', pd_parse = parse_text\<rparr>"

definition Protocol :: "string prop_def" where
  "Protocol = \<lparr>pd_key = ''protocol'', pd_parse = parse_text\<rparr>"

definition Mode :: "string prop_def" where
  "Mode = \<lparr>pd_key = ''mode'', pd_parse = parse_text\<rparr>"

definition Name :: "string prop_def" where
  "Name = \<lparr>pd_key = ''name'', pd_parse = parse_text\<rparr>"

lemmas vocabulary_defs =
  Src_def Dst_def SrcPrefix_def SrcPort_def DstPort_def VNI_def Key_def VLANID_def Peer_def

lemma parse_unsigned_no_panic: "no_panic (parse_unsigned bits v)"
  by (auto simp: parse_unsigned_def Let_def split: option.splits)

lemma parsers_no_panic:
  "no_panic (parse_addr_value v)" "no_panic (parse_prefix_value v)" "no_panic (parse_text v)"
  "no_panic (parse_u16 v)" "no_panic (parse_u32 v)" "no_panic (parse_vlan_id v)"
  "no_panic (parse_vni v)"
proof -
  show "no_panic (parse_addr_value v)" "no_panic (parse_prefix_value v)" "no_panic (parse_text v)"
    by (auto simp: parse_addr_value_def parse_prefix_value_def parse_text_def split: option.splits)
  show u: "no_panic (parse_u16 v)" "no_panic (parse_u32 v)"
    by (simp_all add: parse_u16_def parse_u32_def parse_unsigned_no_panic)
  show "no_panic (parse_vlan_id v)"
    using u(1) by (cases "parse_u16 v") (simp_all add: parse_vlan_id_def)
  show "no_panic (parse_vni v)"
    using u(2) by (cases "parse_u32 v") (simp_all add: parse_vni_def)
qed

lemma vocabulary_no_panic:
  "no_panic (get_prop n Src)" "no_panic (get_prop n Dst)" "no_panic (get_prop n SrcPrefix)"
  "no_panic (get_prop n SrcPort)" "no_panic (get_prop n DstPort)" "no_panic (get_prop n VNI)"
  "no_panic (get_prop n Key)" "no_panic (get_prop n VLANID)" "no_panic (get_prop n Peer)"
  by (rule get_prop_no_panic, simp add: vocabulary_defs parsers_no_panic)+

text \<open>The conversion to the word type loses nothing, and the ranges are as documented.\<close>

lemma parse_unsigned_value:
  assumes "parse_unsigned bits v = Inr (w :: 'w::len word)" and "bits \<le> LENGTH('w)"
  shows "unat w < 2 ^ bits \<and>
    (\<exists>b t. parse_uint b bits t = Some (unat w) \<and> (t = vtext v \<or> t = drop 2 (vtext v)))"
proof -
  from assms(1) obtain b t u where u: "parse_uint b bits t = Some u" "w = word_of_nat u"
    "t = vtext v \<or> t = drop 2 (vtext v)"
    by (auto simp: parse_unsigned_def Let_def split: if_splits option.splits)
  then have "u < 2 ^ bits" by (blast dest: parse_uint_bound)
  also have "(2::nat) ^ bits \<le> 2 ^ LENGTH('w)" using assms(2) by (rule power_increasing) simp
  finally have "unat w = u" using u(2) by (simp add: unat_of_nat take_bit_nat_eq_self)
  with u(1,3) \<open>u < 2 ^ bits\<close> show ?thesis by auto
qed

lemma parse_vni_range: "parse_vni v = Inr n \<Longrightarrow> unat n < 2 ^ 24"
  by (auto simp: parse_vni_def word_le_nat_alt not_less split: sum.splits if_splits)

lemma parse_vlan_range: "parse_vlan_id v = Inr n \<Longrightarrow> 1 \<le> unat n \<and> unat n \<le> 4094"
  by (auto simp: parse_vlan_id_def word_le_nat_alt not_less unat_gt_0 Suc_le_eq
      split: sum.splits if_splits)

section \<open>Properties\<close>

text \<open>
  C21. \<open>Build\<close> makes only well-formed trees (one value per key, no property name as a value) and
  loses nothing of them: a tree it built, printed as a form again, builds to itself.
\<close>

theorem built_trees_round_trip:
  assumes "build v = Inr n"
  shows "node_ok n \<and> build (form_of n) = Inr n"
  using build_ok(1) [OF assms] build_form_of by blast

theorem built_trees_round_trip_witness:
  "\<exists>n. build (SVal KList [] [SVal KSymbol ''gre'' [] no_pos, SVal KKeyword '':key'' [] no_pos,
        SVal KNumber ''7'' [] no_pos] no_pos) = Inr n \<and> node_ok n \<and> build (form_of n) = Inr n"
proof -
  have "build (SVal KList [] [SVal KSymbol ''gre'' [] no_pos, SVal KKeyword '':key'' [] no_pos,
      SVal KNumber ''7'' [] no_pos] no_pos)
    = Inr (Node ''gre'' [\<lparr>p_key = ''key'', p_val = SVal KNumber ''7'' [] no_pos, p_pos = no_pos\<rparr>] [] no_pos)"
    by (simp add: build.simps [of "SVal _ _ _ _"])
  from this built_trees_round_trip [OF this] show ?thesis by blast
qed

text \<open>
  A property reads as exactly one of three states, decided by the tree alone: absent when no
  property has the key, dynamic when its value is \<open>*\<close>, and concrete when the parser accepts the
  value. \<open>Require\<close> then succeeds exactly on the concrete ones.
\<close>

theorem property_states:
  assumes "get_prop n d = Inr v"
  shows "(state_of v = Absent \<longleftrightarrow> lookup n (pd_key d) = None)
    \<and> (state_of v = Dynamic \<longleftrightarrow> (\<exists>q. lookup n (pd_key d) = Some q \<and> vkind (p_val q) = KStar))
    \<and> (state_of v = Concrete \<longleftrightarrow> (\<exists>q x. lookup n (pd_key d) = Some q \<and> vkind (p_val q) \<noteq> KStar
          \<and> pd_parse d (p_val q) = Inr x \<and> require v name = Inr x))"
proof (cases v)
  case (PAbsent p k)
  with assms show ?thesis by (auto simp: get_prop_absent state_of_def)
next
  case (PDynamic p k)
  with assms show ?thesis by (auto simp: get_prop_dynamic state_of_def)
next
  case (PConcrete x p k)
  with assms show ?thesis by (auto simp: get_prop_concrete state_of_def require_Inr concrete_def)
qed

theorem property_states_witness:
  "\<exists>v. get_prop (Node ''vxlan'' [\<lparr>p_key = ''vni'', p_val = SVal KStar ''*'' [] no_pos, p_pos = no_pos\<rparr>] [] no_pos) VNI
     = Inr v \<and> state_of v = Dynamic"
proof -
  let ?n = "Node ''vxlan'' [\<lparr>p_key = ''vni'', p_val = SVal KStar ''*'' [] no_pos, p_pos = no_pos\<rparr>] [] no_pos"
  have "get_prop ?n VNI = Inr (PDynamic no_pos ''vni'')"
    by (simp add: get_prop_def lookup_def VNI_def)
  from this property_states [OF this] show ?thesis by (simp add: lookup_def VNI_def)
qed

text \<open>
  C33. The numbers that reach a command are in the range of the field they configure: a VNI has
  24 bits, a VLAN tag is between 1 and 4094, and reading them into the 32-bit or 16-bit word type
  loses nothing.
\<close>

theorem field_ranges:
  "(get_prop n VNI = Inr v \<and> concrete v = Some w \<longrightarrow> unat w < 2 ^ 24)
   \<and> (get_prop n VLANID = Inr u \<and> concrete u = Some t \<longrightarrow> 1 \<le> unat t \<and> unat t \<le> 4094)"
  by (auto simp: concrete_iff get_prop_concrete VNI_def VLANID_def
      dest!: parse_vni_range parse_vlan_range)

theorem field_ranges_witness:
  "\<exists>v w. get_prop (Node ''vxlan'' [\<lparr>p_key = ''vni'', p_val = SVal KNumber ''0xFFFFFF'' [] no_pos, p_pos = no_pos\<rparr>] [] no_pos) VNI
      = Inr v \<and> concrete v = Some w \<and> unat w = 16777215 \<and> unat w < 2 ^ 24"
proof -
  let ?n = "Node ''vxlan'' [\<lparr>p_key = ''vni'', p_val = SVal KNumber ''0xFFFFFF'' [] no_pos, p_pos = no_pos\<rparr>] [] no_pos"
  have u: "parse_uint 16 32 ''FFFFFF'' = Some 16777215" by code_simp
  have "get_prop ?n VNI = Inr (PConcrete 0xFFFFFF no_pos ''vni'')"
    by (simp add: get_prop_def lookup_def VNI_def parse_vni_def parse_u32_def parse_unsigned_def Let_def u)
  with field_ranges [of ?n "PConcrete 0xFFFFFF no_pos ''vni''" "0xFFFFFF"] show ?thesis
    by (simp add: concrete_def)
qed

end
