(* ===== verification/Spine.thy ===== *)
theory Spine
  imports Ast
begin

text \<open>
  The encapsulation spine (\<open>src/spine/spine.go\<close>): the packet tree flattened to the list of its
  layers, outermost first. Indexing and slicing panic out of range as they do in Go (a slice
  within the capacity but past the length does not panic there; the program never asks for one,
  so the stricter bound is used and shown never to be hit).

  The lemmas: \<open>Extract\<close> succeeds exactly on the trees that do not branch, and then its layers
  are the chain of only children; the error names the first layer that branches.
\<close>

section \<open>Layers\<close>

type_synonym spine = "node list"

definition layer_at :: "spine \<Rightarrow> nat \<Rightarrow> node res" where
  "layer_at sp i = (if i < length sp then Inr (sp ! i) else panic ''index out of range'')"

definition names :: "spine \<Rightarrow> string list" where
  "names sp = map nname sp"

definition spine_text :: "spine \<Rightarrow> string" where
  "spine_text sp = join middot (names sp)"

definition slice :: "spine \<Rightarrow> nat \<Rightarrow> nat \<Rightarrow> spine res" where
  "slice sp i j =
     (if i \<le> j \<and> j \<le> length sp then Inr (take (j - i) (drop i sp))
      else panic ''slice bounds out of range'')"

lemma layer_at_in_range [simp]: "i < length sp \<Longrightarrow> layer_at sp i = Inr (sp ! i)"
  by (simp add: layer_at_def)

lemma layer_at_Inr [res_simps]: "layer_at sp i = Inr n \<longleftrightarrow> i < length sp \<and> n = sp ! i"
  by (auto simp: layer_at_def)

lemma slice_in_range [simp]:
  "i \<le> j \<Longrightarrow> j \<le> length sp \<Longrightarrow> slice sp i j = Inr (take (j - i) (drop i sp))"
  by (simp add: slice_def)

lemma slice_Inr [res_simps]:
  "slice sp i j = Inr s \<longleftrightarrow> i \<le> j \<and> j \<le> length sp \<and> s = take (j - i) (drop i sp)"
  by (auto simp: slice_def)

lemma slice_all [simp]: "i \<le> length sp \<Longrightarrow> slice sp i (length sp) = Inr (drop i sp)"
  by simp

section \<open>Extraction\<close>

text \<open>The loop of \<open>Extract\<close> with the layers collected so far.\<close>

fun extract_from :: "spine \<Rightarrow> node \<Rightarrow> spine res" where
  "extract_from layers (Node n ps cs p) =
     (case cs of
        [] \<Rightarrow> Inr (layers @ [Node n ps cs p])
      | [c] \<Rightarrow> extract_from (layers @ [Node n ps cs p]) c
      | _ # c # _ \<Rightarrow> err_at (npos c) (SpineMsg (ManyNested n (length cs))))"

definition extract_spine :: "node \<Rightarrow> spine res" where
  "extract_spine root = extract_from [] root"

definition configure_form :: string where
  "configure_form = ''configure''"

definition from_form :: "node \<Rightarrow> spine res" where
  "from_form root =
     (if nname root \<noteq> configure_form
      then err_at (npos root) (SpineMsg (WantConfigure (nname root)))
      else case nprops root of
          q # _ \<Rightarrow> err_at (p_pos q) (SpineMsg ConfigureProps)
        | [] \<Rightarrow>
            (case nchildren root of
               [c] \<Rightarrow> extract_spine c
             | cs \<Rightarrow> err_at (npos root) (SpineMsg (ConfigureOne (length cs)))))"

text \<open>A spine as the tree walk sees it: each layer's only child is the next layer.\<close>

fun chain :: "node \<Rightarrow> spine \<Rightarrow> bool" where
  "chain n [] \<longleftrightarrow> False"
| "chain n [l] \<longleftrightarrow> l = n \<and> nchildren n = []"
| "chain n (l # m # ls) \<longleftrightarrow> l = n \<and> nchildren n = [m] \<and> chain m (m # ls)"

fun linear :: "node \<Rightarrow> bool" where
  "linear (Node n ps cs p) \<longleftrightarrow> length cs \<le> 1 \<and> list_all linear cs"

lemma chain_Cons: "chain n (l # ls) \<longleftrightarrow>
   l = n \<and> (if ls = [] then nchildren n = [] else nchildren n = [hd ls] \<and> chain (hd ls) ls)"
  by (cases ls) auto

lemma chain_nonempty: "chain n ls \<Longrightarrow> ls \<noteq> []"
  by auto

lemma chain_hd: "chain n ls \<Longrightarrow> hd ls = n"
  by (cases ls) (auto simp: chain_Cons)

lemma extract_from_Inr:
  "extract_from acc n = Inr ls \<longleftrightarrow> (\<exists>ls'. ls = acc @ ls' \<and> chain n ls')"
proof (induction acc n arbitrary: ls rule: extract_from.induct)
  case (1 acc n ps cs p)
  let ?d = "Node n ps cs p"
  consider "cs = []" | c where "cs = [c]" | c c' cs' where "cs = c # c' # cs'"
    by (cases cs; cases "tl cs") auto
  then show ?case
  proof cases
    case 1
    have "chain ?d ls' \<longleftrightarrow> ls' = [?d]" for ls'
      by (cases ls') (auto simp: chain_Cons 1)
    then show ?thesis by (auto simp: 1)
  next
    case (2 c)
    have "chain ?d ls' \<longleftrightarrow> (\<exists>r. ls' = ?d # r \<and> chain c r)" for ls'
      by (cases ls') (auto simp: chain_Cons 2 dest: chain_nonempty chain_hd)
    moreover have "extract_from acc ?d = extract_from (acc @ [?d]) c" by (simp add: 2)
    ultimately show ?thesis using "1.IH" 2 by auto
  next
    case (3 c c' cs')
    have "\<not> chain ?d ls'" for ls' by (cases ls') (auto simp: chain_Cons 3)
    then show ?thesis by (simp add: 3)
  qed
qed

lemma extract_spine_Inr: "extract_spine n = Inr ls \<longleftrightarrow> chain n ls"
  by (simp add: extract_spine_def extract_from_Inr)

lemma extract_from_no_panic: "no_panic (extract_from acc n)"
  by (induction acc n rule: extract_from.induct) (auto split: list.splits)

lemma linear_chain: "linear n \<longleftrightarrow> (\<exists>ls. chain n ls)"
proof (induction n)
  case (Node n ps cs p)
  let ?d = "Node n ps cs p"
  consider "cs = []" | c where "cs = [c]" | c c' cs' where "cs = c # c' # cs'"
    by (cases cs; cases "tl cs") auto
  then show ?case
  proof cases
    case 1
    then show ?thesis by (auto intro: exI [of _ "[?d]"])
  next
    case (2 c)
    have "(\<exists>ls. chain ?d ls) \<longleftrightarrow> (\<exists>ls. chain c ls)"
    proof
      assume "\<exists>ls. chain ?d ls"
      then obtain l ls where "chain ?d (l # ls)" by (metis chain_nonempty neq_Nil_conv)
      then show "\<exists>ls. chain c ls" by (cases ls) (auto simp: 2)
    next
      assume "\<exists>ls. chain c ls"
      then obtain ls where "chain c ls" ..
      then have "chain ?d (?d # ls)"
        by (simp add: chain_Cons 2 chain_hd) (use chain_nonempty in blast)
      then show "\<exists>ls. chain ?d ls" ..
    qed
    then show ?thesis using Node 2 by simp
  next
    case (3 c c' cs')
    have "\<not> chain ?d ls'" for ls' by (cases ls') (auto simp: chain_Cons 3)
    then show ?thesis by (simp add: 3)
  qed
qed

lemma from_form_Inr:
  "from_form n = Inr sp \<longleftrightarrow>
     nname n = configure_form \<and> nprops n = [] \<and> (\<exists>c. nchildren n = [c] \<and> chain c sp)"
  by (auto simp: from_form_def extract_spine_Inr split: list.splits)

lemma from_form_nonempty: "from_form n = Inr sp \<Longrightarrow> sp \<noteq> []"
  by (auto simp: from_form_Inr)

lemma from_form_no_panic: "no_panic (from_form n)"
  by (auto simp: from_form_def extract_spine_def extract_from_no_panic split: list.splits)

section \<open>Properties\<close>

text \<open>
  C34. \<open>FromForm\<close> accepts exactly the trees that are one \<open>configure\<close> form without properties around
  one packet, no layer of which carries more than one nested form; the spine is then the chain of
  only children, outermost first, and never empty. It never panics.
\<close>

theorem from_form_accepts:
  "((\<exists>sp. from_form n = Inr sp)
      \<longleftrightarrow> nname n = configure_form \<and> nprops n = [] \<and> (\<exists>c. nchildren n = [c] \<and> linear c))
   \<and> (from_form n = Inr sp \<longleftrightarrow> nname n = configure_form \<and> nprops n = []
      \<and> (\<exists>c. nchildren n = [c] \<and> chain c sp))
   \<and> no_panic (from_form n)"
  by (auto simp: from_form_Inr linear_chain from_form_no_panic)

end
