(* ===== verification/Command.thy ===== *)
theory Command
  imports GoText
begin

text \<open>
  Emitted configuration (\<open>src/command/command.go\<close>): commands as argument vectors with the reason
  for each, the quoting of an argument, and the two renderings of a script.

  The abstract side, which is no code of the repository, is the reader of the script, a POSIX shell:
  \<open>sh_words\<close> splits a command line into words the way the shell's token recognition and quote removal
  do, and gives \<open>None\<close> as soon as the line holds anything the shell would not take literally (an
  expansion, an operator, a pattern, an unclosed quote, a reserved word in the place of the command).
  \<open>sh_eval\<close> also performs the one substitution the tool emits, \<open>$(cat path)\<close> in double quotes. A line
  that \<open>String\<close> renders reads back as its argument vector, unless an argument was left to command
  substitution or the command is called like a reserved word.
\<close>

section \<open>Commands and scripts\<close>

record command =
  argv :: "string list"
  why :: string

type_synonym script = "command list"

text \<open>\<open>command.New\<close>.\<close>

definition new_command :: "string \<Rightarrow> string list \<Rightarrow> command" where
  "new_command w args = \<lparr>argv = args, why = w\<rparr>"

definition safe_char :: "char \<Rightarrow> bool" where
  "safe_char c \<longleftrightarrow> is_lower c \<or> is_upper c \<or> is_digit c
     \<or> c = CHR ''.'' \<or> c = CHR ''/'' \<or> c = CHR '':'' \<or> c = CHR ''-'' \<or> c = CHR ''_''"

definition safe :: "string \<Rightarrow> bool" where
  "safe s \<longleftrightarrow> s \<noteq> [] \<and> list_all safe_char s"

text \<open>The four bytes that stand for a single quote inside single quotes.\<close>

definition quoted_squote :: string where
  "quoted_squote = [char_squote, char_backslash, char_squote, char_squote]"

definition quote_arg :: "string \<Rightarrow> string" where
  "quote_arg s =
     (if safe s then s
      else if contains s ''$('' \<and> \<not> contains s [char_dquote]
      then [char_dquote] @ s @ [char_dquote]
      else [char_squote] @ replace_byte char_squote quoted_squote s @ [char_squote])"

text \<open>\<open>Command.String\<close>, \<open>Script.Shell\<close> and \<open>Script.Plain\<close>.\<close>

definition command_text :: "command \<Rightarrow> string" where
  "command_text c = join '' '' (map quote_arg (argv c))"

definition shell_entry :: "command \<Rightarrow> string" where
  "shell_entry c =
     (if why c \<noteq> [] then ''# '' @ why c @ [char_nl] else []) @ command_text c @ [char_nl]"

fun shell_from :: "nat \<Rightarrow> script \<Rightarrow> string" where
  "shell_from i [] = []"
| "shell_from i (c # cs) =
     (if i > 0 then [char_nl] else []) @ shell_entry c @ shell_from (Suc i) cs"

definition shell_text :: "script \<Rightarrow> string" where
  "shell_text s = shell_from 0 s"

definition plain_text :: "script \<Rightarrow> string" where
  "plain_text s = join [char_nl] (map command_text s)"

section \<open>How a shell reads a line\<close>

definition sh_special :: string where
  "sh_special = ''|&;<>()$*?[#~=%{}!`'' @ [char_backslash, char_dquote, char_squote, char_nl, char_cr]"

definition sh_plain :: "char \<Rightarrow> bool" where
  "sh_plain c \<longleftrightarrow> c \<notin> set sh_special \<and> 33 \<le> byte c"

definition sh_blank :: "char \<Rightarrow> bool" where
  "sh_blank c \<longleftrightarrow> c = CHR '' '' \<or> c = char_tab"

datatype sh_mode = Unquoted | Single | Double

definition word_add :: "string option \<Rightarrow> string \<Rightarrow> string option" where
  "word_add w s = Some (case w of None \<Rightarrow> s | Some t \<Rightarrow> t @ s)"

definition word_end :: "string option \<Rightarrow> string list" where
  "word_end w = (case w of None \<Rightarrow> [] | Some t \<Rightarrow> [t])"

text \<open>
  The parameter \<open>sub\<close> says what the shell puts in place of a substitution: from the text after the
  dollar sign, the output and the number of bytes it replaces.
\<close>

function sh_scan :: "(string \<Rightarrow> (string \<times> nat) option) \<Rightarrow> sh_mode \<Rightarrow> string option \<Rightarrow> string
    \<Rightarrow> string list option" where
  "sh_scan sub Unquoted w [] = Some (word_end w)"
| "sh_scan sub Single w [] = None"
| "sh_scan sub Double w [] = None"
| "sh_scan sub Unquoted w (c # cs) =
     (if sh_blank c then map_option (\<lambda>ws. word_end w @ ws) (sh_scan sub Unquoted None cs)
      else if c = char_squote then sh_scan sub Single (word_add w []) cs
      else if c = char_dquote then sh_scan sub Double (word_add w []) cs
      else if c = char_backslash then
        (case cs of [] \<Rightarrow> None
         | d # ds \<Rightarrow> if d = char_nl then None else sh_scan sub Unquoted (word_add w [d]) ds)
      else if sh_plain c then sh_scan sub Unquoted (word_add w [c]) cs
      else None)"
| "sh_scan sub Single w (c # cs) =
     (if c = char_squote then sh_scan sub Unquoted w cs else sh_scan sub Single (word_add w [c]) cs)"
| "sh_scan sub Double w (c # cs) =
     (if c = char_dquote then sh_scan sub Unquoted w cs
      else if c = CHR ''$'' then
        (case sub cs of None \<Rightarrow> None
         | Some (out, n) \<Rightarrow> sh_scan sub Double (word_add w out) (drop n cs))
      else if c = CHR ''`'' then None
      else if c = char_backslash then
        (case cs of [] \<Rightarrow> None
         | d # ds \<Rightarrow> if d = CHR ''$'' \<or> d = CHR ''`'' \<or> d = char_dquote \<or> d = char_backslash
                     then sh_scan sub Double (word_add w [d]) ds
                     else if d = char_nl then None
                     else sh_scan sub Double (word_add w [c]) cs)
      else sh_scan sub Double (word_add w [c]) cs)"
  by pat_completeness auto

termination
  by (relation "measure (\<lambda>(sub, m, w, s). length s)") (auto simp: less_Suc_eq_le)

text \<open>A line that begins with a reserved word is not a simple command, so it has no words of its own.\<close>

definition sh_reserved :: "string list" where
  "sh_reserved =
     [''if'', ''then'', ''else'', ''elif'', ''fi'', ''do'', ''done'', ''case'', ''esac'', ''while'', ''until'',
      ''for'', ''in'', ''function'', ''select'', ''time'', ''coproc'']"

definition sh_line :: "(string \<Rightarrow> (string \<times> nat) option) \<Rightarrow> string \<Rightarrow> string list option" where
  "sh_line sub line =
     (if takeWhile (\<lambda>c. \<not> sh_blank c) (dropWhile sh_blank line) \<in> set sh_reserved then None
      else sh_scan sub Unquoted None line)"

definition sh_words :: "string \<Rightarrow> string list option" where
  "sh_words line = sh_line (\<lambda>_. None) line"

text \<open>
  The one substitution a script is meant to make: \<open>$(cat FILE)\<close> is the contents of the file, without
  the newlines at their end (\<open>cat\<close> takes a path that begins with a dash for an option). \<open>sh_eval\<close> reads a line on a machine with the given files.
\<close>

definition cat_sub :: "(string \<Rightarrow> string option) \<Rightarrow> string \<Rightarrow> (string \<times> nat) option" where
  "cat_sub files s =
     (if prefix ''(cat '' s
      then (let path = takeWhile safe_char (drop 5 s)
            in if \<not> prefix ''-'' path \<and> prefix '')'' (drop (5 + length path) s)
               then map_option (\<lambda>k. (trim_right char_nl k, 6 + length path)) (files path) else None)
      else None)"

definition sh_eval :: "(string \<Rightarrow> string option) \<Rightarrow> string \<Rightarrow> string list option" where
  "sh_eval files line = sh_line (cat_sub files) line"

text \<open>
  The arguments that \<open>quote\<close> renders as literals: all but those with a command substitution and
  no double quote in them.
\<close>

definition literal_arg :: "string \<Rightarrow> bool" where
  "literal_arg s \<longleftrightarrow> safe s \<or> \<not> contains s ''$('' \<or> contains s [char_dquote]"

lemma word_add_simps [simp]:
  "word_add None s = Some s" "word_add (Some t) s = Some (t @ s)"
  by (simp_all add: word_add_def)

lemma word_end_simps [simp]: "word_end None = []" "word_end (Some t) = [t]"
  by (simp_all add: word_end_def)

lemma safe_char_plain:
  assumes "safe_char c"
  shows "sh_plain c \<and> \<not> sh_blank c \<and> c \<noteq> char_squote \<and> c \<noteq> char_dquote \<and> c \<noteq> char_backslash"
  using assms
  by (auto simp: safe_char_def sh_plain_def sh_special_def sh_blank_def is_lower_def is_upper_def
      is_digit_def byte_def)

lemma scan_safe:
  "list_all safe_char s \<Longrightarrow> sh_scan sub Unquoted (Some w) (s @ rest) = sh_scan sub Unquoted (Some (w @ s)) rest"
  by (induction s arbitrary: w) (auto simp: safe_char_plain)

lemma scan_safe_word:
  assumes "safe s"
  shows "sh_scan sub Unquoted None (s @ rest) = sh_scan sub Unquoted (Some s) rest"
proof -
  from assms obtain c cs where s: "s = c # cs" "safe_char c" "list_all safe_char cs"
    by (cases s) (auto simp: safe_def)
  then show ?thesis using scan_safe [of cs sub "[c]" rest] by (simp add: safe_char_plain)
qed

lemma scan_single:
  "sh_scan sub Single (Some w) (replace_byte char_squote quoted_squote s @ char_squote # rest) =
     sh_scan sub Unquoted (Some (w @ s)) rest"
  by (induction s arbitrary: w) (auto simp: quoted_squote_def sh_blank_def)

lemma scan_quote_arg:
  assumes "literal_arg s"
  shows "sh_scan sub Unquoted None (quote_arg s @ rest) = sh_scan sub Unquoted (Some s) rest"
proof (cases "safe s")
  case True
  then show ?thesis by (simp add: quote_arg_def scan_safe_word)
next
  case False
  with assms have "quote_arg s = [char_squote] @ replace_byte char_squote quoted_squote s @ [char_squote]"
    by (simp add: quote_arg_def literal_arg_def)
  then show ?thesis using scan_single [of sub "[]" s rest] by (simp add: sh_blank_def)
qed

lemma scan_join:
  "list_all literal_arg args \<Longrightarrow> sh_scan sub Unquoted None (join '' '' (map quote_arg args)) = Some args"
proof (induction args rule: induct_list012)
  case (2 a)
  then show ?case using scan_quote_arg [of a sub "[]"] by simp
next
  case (3 a b args)
  then show ?case
    using scan_quote_arg [of a sub "'' '' @ join '' '' (quote_arg b # map quote_arg args)"]
    by (simp add: sh_blank_def)
qed simp

text \<open>A rendered line begins with a reserved word only when the command itself does.\<close>

definition no_keyword :: "string list \<Rightarrow> bool" where
  "no_keyword args \<longleftrightarrow> (case args of [] \<Rightarrow> True | a # _ \<Rightarrow> a \<notin> set sh_reserved)"

lemma safe_no_blank: "list_all safe_char a \<Longrightarrow> \<forall>c \<in> set a. \<not> sh_blank c"
  by (auto simp: list_all_iff dest: safe_char_plain)

lemma takeWhile_word:
  "\<forall>c \<in> set a. \<not> sh_blank c \<Longrightarrow> rest = [] \<or> sh_blank (hd rest)
     \<Longrightarrow> takeWhile (\<lambda>c. \<not> sh_blank c) (a @ rest) = a"
  by (induction a) (cases rest; auto)+

lemma line_scan:
  assumes "no_keyword (argv c)"
  shows "sh_line sub (command_text c) = sh_scan sub Unquoted None (command_text c)"
proof (cases "argv c")
  case Nil
  then show ?thesis by (simp add: sh_line_def command_text_def sh_reserved_def)
next
  case (Cons a args)
  obtain rest where rest: "command_text c = quote_arg a @ rest" "rest = [] \<or> sh_blank (hd rest)"
    using Cons by (cases args) (simp_all add: command_text_def sh_blank_def)
  have "takeWhile (\<lambda>d. \<not> sh_blank d) (dropWhile sh_blank (command_text c)) \<notin> set sh_reserved"
  proof (cases "safe a")
    case True
    then obtain d ds where a: "a = d # ds" "list_all safe_char a" by (cases a) (auto simp: safe_def)
    then have "dropWhile sh_blank (a @ rest) = a @ rest" using safe_no_blank [OF a(2)] by simp
    with takeWhile_word [OF safe_no_blank [OF a(2)] rest(2)] rest(1) assms Cons True show ?thesis
      by (simp add: quote_arg_def no_keyword_def)
  next
    case False
    then have "quote_arg a \<noteq> []" "hd (quote_arg a) = char_squote \<or> hd (quote_arg a) = char_dquote"
      by (simp_all add: quote_arg_def)
    then obtain q t where "quote_arg a = q # t" "q = char_squote \<or> q = char_dquote"
      by (cases "quote_arg a") auto
    with rest(1) show ?thesis by (auto simp: sh_blank_def sh_reserved_def)
  qed
  then show ?thesis by (simp add: sh_line_def)
qed

lemma command_text_reads:
  "list_all literal_arg (argv c) \<Longrightarrow> no_keyword (argv c) \<Longrightarrow> sh_words (command_text c) = Some (argv c)"
  by (simp add: sh_words_def line_scan) (simp add: command_text_def scan_join)

lemma line_None: "sh_scan sub Unquoted None line = None \<Longrightarrow> sh_line sub line = None"
  by (simp add: sh_line_def)

text \<open>A safe argument is rendered as it is, so a line of safe arguments is their join.\<close>

lemma quote_safe: "safe s \<Longrightarrow> quote_arg s = s"
  by (simp add: quote_arg_def)

lemma safe_literal: "safe s \<Longrightarrow> literal_arg s"
  by (simp add: literal_arg_def)

text \<open>An argument that is not literal reaches the shell with its substitution live.\<close>

lemma live_argument:
  assumes "\<not> literal_arg s"
  shows "quote_arg s = [char_dquote] @ s @ [char_dquote]"
  using assms by (auto simp: quote_arg_def literal_arg_def)

lemma scan_double_live:
  "CHR ''$'' \<in> set s \<Longrightarrow> char_backslash \<notin> set s \<Longrightarrow> char_dquote \<notin> set s \<Longrightarrow>
     sh_scan (\<lambda>_. None) Double w (s @ rest) = None"
  by (induction s arbitrary: w) auto

lemma live_argument_expands:
  assumes "\<not> literal_arg s" and "char_backslash \<notin> set s"
  shows "sh_scan (\<lambda>_. None) Unquoted None (quote_arg s @ rest) = None"
proof -
  have "contains s ''$(''" "char_dquote \<notin> set s"
    using assms(1) by (auto simp: literal_arg_def contains_single)
  moreover have "CHR ''$'' \<in> set s" using contains_set [OF calculation(1)] by simp
  ultimately show ?thesis
    using assms live_argument [OF assms(1)] scan_double_live [of s "Some []"]
    by (simp add: sh_blank_def)
qed

text \<open>A line with one argument that the shell reads as another word.\<close>

lemma scan_line:
  assumes "list_all literal_arg pre" "list_all literal_arg post"
    and a: "\<And>rest. sh_scan sub Unquoted None (quote_arg a @ rest) = sh_scan sub Unquoted (Some k) rest"
  shows "sh_scan sub Unquoted None (join '' '' (map quote_arg (pre @ a # post))) = Some (pre @ k # post)"
  using assms(1)
proof (induction pre)
  case Nil
  show ?case
  proof (cases post)
    case Nil
    with a [of "[]"] show ?thesis by simp
  next
    case (Cons b bs)
    with a [of "'' '' @ join '' '' (map quote_arg post)"] scan_join [OF assms(2), of sub] show ?thesis
      by (simp add: sh_blank_def)
  qed
next
  case (Cons b pre)
  with scan_quote_arg [of b sub "'' '' @ join '' '' (map quote_arg (pre @ a # post))"] show ?case
    by (cases pre) (simp_all add: sh_blank_def)
qed

lemma scan_line_None:
  assumes "list_all literal_arg pre"
    and a: "\<And>rest. sh_scan sub Unquoted None (quote_arg a @ rest) = None"
  shows "sh_scan sub Unquoted None (join '' '' (map quote_arg (pre @ a # post))) = None"
  using assms(1)
proof (induction pre)
  case Nil
  obtain rest where "join '' '' (map quote_arg (a # post)) = quote_arg a @ rest"
    by (cases post) auto
  with a [of rest] show ?case by simp
next
  case (Cons b pre)
  with scan_quote_arg [of b sub "'' '' @ join '' '' (map quote_arg (pre @ a # post))"] show ?case
    by (cases pre) (simp_all add: sh_blank_def)
qed

lemma takeWhile_safe: "list_all safe_char path \<Longrightarrow> takeWhile safe_char (path @ CHR '')'' # rest) = path"
  by (induction path) (auto simp: safe_char_def is_lower_def is_upper_def is_digit_def byte_def)

lemma cat_sub_path:
  assumes "list_all safe_char path" "\<not> prefix ''-'' path"
  shows "cat_sub files (''(cat '' @ path @ '')'' @ rest)
    = map_option (\<lambda>k. (trim_right char_nl k, 6 + length path)) (files path)"
  using takeWhile_safe [OF assms(1), of rest] assms(2) by (simp add: cat_sub_def Let_def eval_nat_numeral)

text \<open>A look-up of a file is replaced by what the file holds, as one word.\<close>

lemma scan_lookup:
  assumes "list_all safe_char path" "\<not> prefix ''-'' path"
  shows "sh_scan (cat_sub files) Unquoted None (quote_arg (''$(cat '' @ path @ '')'') @ rest)
    = (case files path of None \<Rightarrow> None
       | Some k \<Rightarrow> sh_scan (cat_sub files) Unquoted (Some (trim_right char_nl k)) rest)"
proof -
  let ?a = "''$(cat '' @ path @ '')''"
  have "\<not> safe ?a" by (simp add: safe_def safe_char_def is_lower_def is_upper_def is_digit_def byte_def)
  moreover have "contains ?a ''$(''" using contains_iff [of ?a "''$(''"]
    by (metis append_Cons append_Nil)
  moreover have "\<not> contains ?a [char_dquote]"
    using assms(1) by (auto simp: contains_single list_all_iff dest: safe_char_plain)
  ultimately have q: "quote_arg ?a = [char_dquote] @ ?a @ [char_dquote]"
    by (intro live_argument) (simp add: literal_arg_def)
  show ?thesis unfolding q
    using cat_sub_path [OF assms, of files "char_dquote # rest"]
    by (simp add: sh_blank_def eval_nat_numeral split: option.split)
qed

section \<open>Properties\<close>

text \<open>
  C17. Quoting is sound: a command line rendered by \<open>Command.String\<close> is read back by a POSIX shell
  as exactly the argument vector, provided every argument is one that \<open>quote\<close> renders as a literal
  (all but those with a command substitution and no double quote) and the command is not called
  like a reserved word of the shell.
\<close>

theorem quoted_command_reads_back:
  assumes "list_all literal_arg (argv c)" and "no_keyword (argv c)"
  shows "sh_words (command_text c) = Some (argv c)"
  using assms by (rule command_text_reads)

theorem quoted_command_reads_back_witness:
  "sh_words (command_text (new_command [] [''ip'', ''a b'', ''it'' @ [char_squote] @ ''s'', ''$HOME;'', []]))
     = Some [''ip'', ''a b'', ''it'' @ [char_squote] @ ''s'', ''$HOME;'', []]"
proof -
  let ?c = "new_command [] [''ip'', ''a b'', ''it'' @ [char_squote] @ ''s'', ''$HOME;'', []]"
  have "list_all literal_arg (argv ?c)" "no_keyword (argv ?c)"
    by code_simp+
  from quoted_command_reads_back [OF this] show ?thesis by (simp add: new_command_def)
qed

text \<open>
  The exception is real: an argument with \<open>$(\<close> and no double quote or backslash is rendered
  inside double quotes, where the shell expands it, whatever the argument was meant to be. The
  whole line is then no longer a list of literal words.
\<close>

theorem substitution_stays_live:
  assumes "contains a ''$(''" and "char_dquote \<notin> set a" and "char_backslash \<notin> set a"
  shows "quote_arg a = [char_dquote] @ a @ [char_dquote] \<and> sh_words (quote_arg a) = None"
proof -
  have "\<not> literal_arg a"
  proof
    assume "literal_arg a"
    with assms have "safe a" by (auto simp: literal_arg_def contains_single)
    then have "\<forall>c \<in> set a. safe_char c" by (simp add: safe_def list_all_iff)
    moreover have "CHR ''$'' \<in> set a" using contains_set [OF assms(1)] by simp
    ultimately have "safe_char (CHR ''$'')" by blast
    then show False by (simp add: safe_char_def is_lower_def is_upper_def is_digit_def byte_def)
  qed
  from live_argument [OF this] live_argument_expands [OF this assms(3), of "[]"]
  show ?thesis by (simp add: sh_words_def line_None)
qed

theorem substitution_stays_live_witness:
  "sh_words (quote_arg ''$(cat /k/x) $(reboot.pub)'') = None"
proof -
  have "contains ''$(cat /k/x) $(reboot.pub)'' ''$(''" by code_simp
  from substitution_stays_live [OF this] show ?thesis by (rule conjunct2) simp_all
qed

end
