(* ===== verification/Env.thy ===== *)
theory Env
  imports Diag
begin

text \<open>
  Deployment facts and interface names (\<open>src/env/env.go\<close>). The code passes a pointer to an
  \<open>Env\<close>, so the operations that write it are state computations (\<open>est\<close>) and an operation that
  fails also says which state it leaves. A map of the source reads as its zero value where a key
  is missing (\<open>mget\<close>).

  \<open>env_ok\<close> is the invariant: the names of the devices made so far are usable Linux names,
  reserved, pairwise distinct and different from the physical device. \<open>adds e d e'\<close> says that
  \<open>e'\<close> is \<open>e\<close> after one device \<open>d\<close> was made. The locale \<open>name_source\<close> is the interface the
  tiles see: an operation that reserves a name; \<open>Claim\<close> and \<open>Alloc\<close> both are one.
\<close>

section \<open>State and operations\<close>

record env =
  e_root :: string
  e_dev :: string
  e_keydir :: string
  e_created :: "string list"
  e_used :: "string \<rightharpoonup> bool"
  e_count :: "string \<rightharpoonup> nat"

type_synonym 'a lowering = "(env, goerr, 'a) est"

definition default_key_dir :: string where
  "default_key_dir = ''/etc/wireguard''"

definition max_if_name :: nat where
  "max_if_name = 15"

definition new_env :: "string \<Rightarrow> env" where
  "new_env root =
     \<lparr>e_root = root, e_dev = root, e_keydir = default_key_dir, e_created = [],
      e_used = [root \<mapsto> True], e_count = Map.empty\<rparr>"

definition is_used :: "env \<Rightarrow> string \<Rightarrow> bool" where
  "is_used e n = mget False (e_used e) n"

definition valid_name :: "string \<Rightarrow> unit res" where
  "valid_name name =
     (if name = [] then err_plain (NameMsg NameEmpty)
      else if length name > max_if_name then err_plain (NameMsg (NameLong name))
      else if contains_any name ('' /'' @ [char_tab, char_nl])
      then err_plain (NameMsg (NameIllegal name))
      else Inr ())"

text \<open>\<open>Env.Claim\<close>.\<close>

definition claim :: "string \<Rightarrow> string lowering" where
  "claim name e =
     (case valid_name name of
        Inl er \<Rightarrow> (Inl er, e)
      | Inr _ \<Rightarrow>
          if is_used e name then (err_plain (NameMsg (NameUsed name)), e)
          else (Inr name, e\<lparr>e_used := (e_used e)(name \<mapsto> True)\<rparr>))"

text \<open>
  \<open>Env.Alloc\<close>. The loop ends because the counter grows with every round and a name of more than
  15 characters is refused.
\<close>

definition bump :: "string \<Rightarrow> env \<Rightarrow> env" where
  "bump stem e = e\<lparr>e_count := (e_count e)(stem \<mapsto> mget 0 (e_count e) stem + 1)\<rparr>"

definition counted :: "string \<Rightarrow> env \<Rightarrow> nat" where
  "counted stem e = mget 0 (e_count e) stem"

lemma counted_bump [simp]: "counted p (bump p e) = Suc (counted p e)"
  by (simp add: counted_def bump_def)

lemma valid_name_length: "valid_name n = Inr u \<Longrightarrow> length n \<le> max_if_name"
  by (auto simp: valid_name_def split: if_splits)

function alloc :: "string \<Rightarrow> string lowering" where
  "alloc stem e =
     (let e1 = bump stem e; name = stem @ itoa (counted stem e1)
      in case valid_name name of
           Inl er \<Rightarrow> (Inl er, e1)
         | Inr _ \<Rightarrow>
             if \<not> is_used e1 name then (Inr name, e1\<lparr>e_used := (e_used e1)(name \<mapsto> True)\<rparr>)
             else alloc stem e1)"
  by pat_completeness auto
termination
proof (relation "measure (\<lambda>(p, e). 10 ^ max_if_name - counted p e)", goal_cases)
  case (2 p e e1 name u)
  then have "length (itoa (Suc (counted p e))) \<le> max_if_name"
    by (auto dest: valid_name_length)
  then have "Suc (counted p e) < 10 ^ max_if_name" by (rule itoa_length_bound)
  with 2 show ?case by simp
qed simp

declare alloc.simps [simp del]

definition reset :: "env \<Rightarrow> env" where
  "reset e = e\<lparr>e_dev := e_root e\<rparr>"

definition enter :: "string \<Rightarrow> env \<Rightarrow> env" where
  "enter dev e = e\<lparr>e_created := e_created e @ [dev], e_dev := dev\<rparr>"

text \<open>A computation whose error the caller wraps, and one that never panics.\<close>

definition wrapS :: "(goerr \<Rightarrow> goerr) \<Rightarrow> 'a lowering \<Rightarrow> 'a lowering" where
  "wrapS g m e = (case m e of (r, e') \<Rightarrow> (wrap_err g r, e'))"

definition safeS :: "'a lowering \<Rightarrow> bool" where
  "safeS m \<longleftrightarrow> (\<forall>e. no_panic (fst (m e)))"

lemma wrapS_Inr [est_simps]: "wrapS g m e = (Inr a, e') \<longleftrightarrow> m e = (Inr a, e')"
  by (auto simp: wrapS_def wrap_err_eq_Inr split: prod.splits)

named_theorems safe_intros "computations that never panic"

lemma safeS_bind [safe_intros]:
  "safeS m \<Longrightarrow> (\<And>a. safeS (f a)) \<Longrightarrow> safeS (bindS m f)"
  unfolding safeS_def bindS_def by (auto split: prod.split sum.split) (metis fst_conv no_panic_simps(2))

lemma safeS_prims [safe_intros]:
  "safeS (retS a)" "\<not> is_panic er \<Longrightarrow> safeS (failS er)" "no_panic r \<Longrightarrow> safeS (liftS r)"
  "safeS (getS g)" "safeS (modS h)"
  by (simp_all add: safeS_def retS_def failS_def liftS_def getS_def modS_def)

lemma safeS_wrap [safe_intros]:
  "safeS m \<Longrightarrow> (\<And>er. \<not> is_panic er \<Longrightarrow> \<not> is_panic (g er)) \<Longrightarrow> safeS (wrapS g m)"
  unfolding safeS_def wrapS_def by (auto split: prod.split intro: no_panic_wrap) (metis fst_conv no_panic_wrap)

section \<open>The invariant\<close>

definition if_name :: "string \<Rightarrow> bool" where
  "if_name n \<longleftrightarrow> n \<noteq> [] \<and> length n \<le> 15 \<and> set n \<inter> {CHR '' '', CHR ''/'', char_tab, char_nl} = {}"

definition env_ok :: "env \<Rightarrow> bool" where
  "env_ok e \<longleftrightarrow> distinct (e_root e # e_created e)
     \<and> (\<forall>d \<in> set (e_created e). if_name d \<and> is_used e d)
     \<and> is_used e (e_root e) \<and> e_dev e \<in> insert (e_root e) (set (e_created e))"

definition adds :: "env \<Rightarrow> string \<Rightarrow> env \<Rightarrow> bool" where
  "adds e d e' \<longleftrightarrow> e_root e' = e_root e \<and> e_keydir e' = e_keydir e \<and> e_dev e' = d
     \<and> e_created e' = e_created e @ [d] \<and> if_name d \<and> \<not> is_used e d
     \<and> (\<forall>n. is_used e' n \<longleftrightarrow> n = d \<or> is_used e n)"

lemma valid_name_Inr: "valid_name n = Inr u \<longleftrightarrow> if_name n"
  by (auto simp: valid_name_def if_name_def max_if_name_def contains_any_def list_ex_iff)

lemma new_env_ok: "env_ok (new_env root)"
  by (simp add: env_ok_def new_env_def is_used_def)

lemma reset_ok: "env_ok e \<Longrightarrow> env_ok (reset e)"
  by (simp add: env_ok_def reset_def is_used_def)

lemma reset_fields [simp]:
  "e_created (reset e) = e_created e" "e_root (reset e) = e_root e" "e_dev (reset e) = e_root e"
  "e_keydir (reset e) = e_keydir e"
  by (simp_all add: reset_def)

lemma adds_ok: "env_ok e \<Longrightarrow> adds e d e' \<Longrightarrow> env_ok e'"
  by (auto simp: env_ok_def adds_def)

section \<open>The interface of name sources\<close>

locale name_source =
  fixes request :: "string lowering"
  assumes request_fresh: "request e = (Inr n, e') \<Longrightarrow> \<not> is_used e n"
    and request_valid: "request e = (Inr n, e') \<Longrightarrow> if_name n"
    and request_marks: "request e = (Inr n, e') \<Longrightarrow> is_used e' m \<longleftrightarrow> m = n \<or> is_used e m"
    and request_frame: "request e = (r, e') \<Longrightarrow> e_root e' = e_root e \<and> e_dev e' = e_dev e
          \<and> e_keydir e' = e_keydir e \<and> e_created e' = e_created e"
    and request_no_panic: "request e = (r, e') \<Longrightarrow> no_panic r"
begin

text \<open>Reserving a name and entering the device makes one new device.\<close>

lemma request_enter:
  assumes "request e = (Inr n, e1)"
  shows "adds e n (enter n e1)"
  using request_fresh [OF assms] request_valid [OF assms] request_marks [OF assms]
    request_frame [OF assms]
  by (simp add: adds_def enter_def is_used_def)

lemma request_enter_ok:
  assumes "request e = (Inr n, e1)" and "env_ok e"
  shows "env_ok (enter n e1)"
  using adds_ok [OF assms(2) request_enter [OF assms(1)]] .

lemma request_safe: "safeS request"
  unfolding safeS_def using request_no_panic by (metis prod.collapse)

lemma two_requests_differ:
  assumes "request e = (Inr m, e1)" and "request e1 = (Inr n, e2)"
  shows "m \<noteq> n"
  using request_fresh [OF assms(2)] request_marks [OF assms(1)] by auto

end

interpretation claimed: name_source "claim name" for name
proof (unfold_locales, goal_cases)
  case (1 e n e')
  then show ?case by (auto simp: claim_def split: sum.splits if_splits)
next
  case (2 e n e')
  then show ?case by (auto simp: claim_def valid_name_Inr split: sum.splits if_splits)
next
  case (3 e n e' m)
  then show ?case by (auto simp: claim_def is_used_def split: sum.splits if_splits)
next
  case (4 e r e')
  then show ?case by (auto simp: claim_def split: sum.splits if_splits)
next
  case (5 e r e')
  then show ?case
    by (auto simp: claim_def valid_name_def split: sum.splits if_splits)
qed

section \<open>Alloc\<close>

lemma is_used_bump [simp]: "is_used (bump p e) n = is_used e n"
  by (simp add: is_used_def bump_def)

lemma bump_fields [simp]:
  "e_root (bump p e) = e_root e" "e_dev (bump p e) = e_dev e" "e_keydir (bump p e) = e_keydir e"
  "e_created (bump p e) = e_created e" "e_used (bump p e) = e_used e"
  by (simp_all add: bump_def)

text \<open>The state after the counter of one prefix was set.\<close>

definition set_count :: "string \<Rightarrow> nat \<Rightarrow> env \<Rightarrow> env" where
  "set_count p k e = e\<lparr>e_count := (e_count e)(p \<mapsto> k)\<rparr>"

lemma bump_set_count: "bump p e = set_count p (Suc (counted p e)) e"
  by (simp add: bump_def set_count_def counted_def)

lemma set_count_bump: "set_count p k (bump p e) = set_count p k e"
  by (simp add: bump_def set_count_def)

text \<open>
  What \<open>Alloc\<close> does: it stops at the first number above the counter whose name is refused or
  free, and the counter ends there.
\<close>

definition alloc_stop :: "string \<Rightarrow> env \<Rightarrow> nat \<Rightarrow> bool" where
  "alloc_stop p e k \<longleftrightarrow> counted p e < k
     \<and> (\<forall>j. counted p e < j \<and> j < k \<longrightarrow> if_name (p @ itoa j) \<and> is_used e (p @ itoa j))"

definition alloc_result :: "string \<Rightarrow> env \<Rightarrow> nat \<Rightarrow> string res \<times> env" where
  "alloc_result p e k =
     (let name = p @ itoa k; e1 = set_count p k e
      in case valid_name name of
           Inl er \<Rightarrow> (Inl er, e1)
         | Inr _ \<Rightarrow> (Inr name, e1\<lparr>e_used := (e_used e1)(name \<mapsto> True)\<rparr>))"

lemma alloc_eq:
  "\<exists>k. alloc_stop p e k \<and> (if_name (p @ itoa k) \<longrightarrow> \<not> is_used e (p @ itoa k))
     \<and> alloc p e = alloc_result p e k"
proof (induction p e rule: alloc.induct)
  case (1 p e)
  let ?n = "p @ itoa (Suc (counted p e))"
  have unf: "alloc p e =
     (case valid_name ?n of
        Inl er \<Rightarrow> (Inl er, bump p e)
      | Inr _ \<Rightarrow> if \<not> is_used e ?n then (Inr ?n, (bump p e)\<lparr>e_used := (e_used e)(?n \<mapsto> True)\<rparr>)
                 else alloc p (bump p e))"
    by (subst alloc.simps) (simp add: Let_def split: sum.split)
  show ?case
  proof (cases "if_name ?n \<and> is_used e ?n")
    case True
    then obtain u where u: "valid_name ?n = Inr u" using valid_name_Inr by blast
    with True "1.IH" [OF refl refl] obtain k where
      k: "alloc_stop p (bump p e) k" "if_name (p @ itoa k) \<longrightarrow> \<not> is_used e (p @ itoa k)"
         "alloc p (bump p e) = alloc_result p (bump p e) k"
      by auto
    have "alloc_stop p e k"
      unfolding alloc_stop_def
    proof (intro conjI allI impI)
      show "counted p e < k" using k(1) by (simp add: alloc_stop_def)
      fix j assume "counted p e < j \<and> j < k"
      then show "if_name (p @ itoa j)" "is_used e (p @ itoa j)"
        using True k(1) by (cases "j = Suc (counted p e)"; simp add: alloc_stop_def)+
    qed
    moreover have "alloc_result p (bump p e) k = alloc_result p e k"
      by (simp add: alloc_result_def set_count_bump)
    ultimately show ?thesis using k unf u True by auto
  next
    case False
    have "alloc p e = alloc_result p e (Suc (counted p e))"
    proof (cases "valid_name ?n")
      case (Inl er)
      then show ?thesis by (simp add: unf alloc_result_def bump_set_count)
    next
      case (Inr u)
      with False have "\<not> is_used e ?n" by (auto simp: valid_name_Inr)
      with Inr show ?thesis
        by (simp add: unf alloc_result_def bump_set_count set_count_def Let_def)
    qed
    with False show ?thesis by (intro exI [of _ "Suc (counted p e)"]) (auto simp: alloc_stop_def)
  qed
qed

lemma set_count_fields [simp]:
  "e_root (set_count p k e) = e_root e" "e_dev (set_count p k e) = e_dev e"
  "e_keydir (set_count p k e) = e_keydir e" "e_created (set_count p k e) = e_created e"
  "e_used (set_count p k e) = e_used e"
  by (simp_all add: set_count_def)

lemma valid_name_Inl: "valid_name n = Inl er \<Longrightarrow> \<not> if_name n \<and> \<not> is_panic er"
  using valid_name_Inr [of n] by (auto simp: valid_name_def split: if_splits)

lemma if_name_valid: "if_name n \<Longrightarrow> valid_name n = Inr ()"
  using valid_name_Inr [of n "()"] by simp

lemma not_if_name_valid: "\<not> if_name n \<Longrightarrow> \<exists>er. valid_name n = Inl er"
  using valid_name_Inr [of n "()"] by (cases "valid_name n") auto

lemma alloc_result_Inr:
  assumes "alloc_result p e k = (Inr n, e')"
  shows "if_name n \<and> n = p @ itoa k \<and> e' = (set_count p k e)\<lparr>e_used := (e_used e)(n \<mapsto> True)\<rparr>"
proof (cases "if_name (p @ itoa k)")
  case True
  then show ?thesis using assms by (auto simp: alloc_result_def Let_def if_name_valid)
next
  case False
  then obtain er where "valid_name (p @ itoa k) = Inl er" using not_if_name_valid by blast
  then show ?thesis using assms by (simp add: alloc_result_def Let_def)
qed

lemma alloc_result_Inl:
  assumes "alloc_result p e k = (Inl er, e')"
  shows "valid_name (p @ itoa k) = Inl er \<and> e' = set_count p k e"
  using assms by (cases "valid_name (p @ itoa k)") (auto simp: alloc_result_def Let_def)

lemma alloc_Inr:
  assumes "alloc p e = (Inr n, e')"
  shows "\<exists>k. alloc_stop p e k \<and> n = p @ itoa k \<and> if_name n \<and> \<not> is_used e n
    \<and> e' = (set_count p k e)\<lparr>e_used := (e_used e)(n \<mapsto> True)\<rparr>"
proof -
  obtain k where k: "alloc_stop p e k" "if_name (p @ itoa k) \<longrightarrow> \<not> is_used e (p @ itoa k)"
      "alloc p e = alloc_result p e k"
    using alloc_eq by blast
  from k(3) assms have "alloc_result p e k = (Inr n, e')" by simp
  from alloc_result_Inr [OF this] k(1,2) show ?thesis by auto
qed

lemma alloc_Inl:
  assumes "alloc p e = (Inl er, e')"
  shows "\<exists>k. alloc_stop p e k \<and> valid_name (p @ itoa k) = Inl er \<and> e' = set_count p k e"
proof -
  obtain k where k: "alloc_stop p e k" "alloc p e = alloc_result p e k"
    using alloc_eq by blast
  from k(2) assms have "alloc_result p e k = (Inl er, e')" by simp
  from alloc_result_Inl [OF this] k(1) show ?thesis by auto
qed

interpretation allocated: name_source "alloc stem" for stem
proof (unfold_locales, goal_cases)
  case (1 e n e')
  then show ?case by (auto dest!: alloc_Inr)
next
  case (2 e n e')
  then show ?case by (auto dest!: alloc_Inr)
next
  case (3 e n e' m)
  then show ?case by (auto dest!: alloc_Inr simp: is_used_def split: if_splits)
next
  case (4 e r e')
  then show ?case by (cases r) (auto dest!: alloc_Inr alloc_Inl)
next
  case (5 e r e')
  then show ?case by (cases r) (auto dest!: alloc_Inl valid_name_Inl)
qed

section \<open>Properties\<close>

text \<open>
  C18. \<open>Alloc\<close> returns the next free name of its prefix: the smallest number above the counter whose
  name is free (every one between is a usable name that is taken), it reserves that name and no
  other, and the counter stands at that number, so no number is tried twice.
\<close>

theorem alloc_takes_next_free:
  assumes "alloc stem e = (Inr n, e')"
  shows "\<exists>k > counted stem e. n = stem @ itoa k \<and> if_name n \<and> \<not> is_used e n
    \<and> (\<forall>j. counted stem e < j \<and> j < k \<longrightarrow> is_used e (stem @ itoa j))
    \<and> counted stem e' = k \<and> (\<forall>m. is_used e' m \<longleftrightarrow> m = n \<or> is_used e m)
    \<and> e_dev e' = e_dev e \<and> e_created e' = e_created e"
proof -
  from alloc_Inr [OF assms] obtain k where k: "alloc_stop stem e k" "n = stem @ itoa k" "if_name n"
    "\<not> is_used e n" "e' = (set_count stem k e)\<lparr>e_used := (e_used e)(n \<mapsto> True)\<rparr>" by blast
  have "counted stem e' = k" by (simp add: k(5) counted_def set_count_def)
  moreover have "is_used e' m \<longleftrightarrow> m = n \<or> is_used e m" for m
    using allocated.request_marks [OF assms] .
  ultimately show ?thesis
    using k(1-4) allocated.request_frame [OF assms]
    by (intro exI [of _ k]) (auto simp: alloc_stop_def)
qed

theorem alloc_takes_next_free_witness:
  "\<exists>e'. alloc ''gre'' ((new_env ''eth0'')\<lparr>e_used := [''eth0'' \<mapsto> True, ''gre1'' \<mapsto> True]\<rparr>) = (Inr ''gre2'', e')
     \<and> counted ''gre'' e' = 2 \<and> is_used e' ''gre1''"
proof -
  let ?e = "(new_env ''eth0'')\<lparr>e_used := [''eth0'' \<mapsto> True, ''gre1'' \<mapsto> True]\<rparr>"
  have r: "fst (alloc ''gre'' ?e) = Inr ''gre2''" "itoa 2 = ''2''" by code_simp+
  obtain e' where e': "alloc ''gre'' ?e = (Inr ''gre2'', e')" using r(1) by (metis prod.collapse)
  from alloc_takes_next_free [OF this] obtain k where
    k: "''gre2'' = ''gre'' @ itoa k" "counted ''gre'' e' = k"
      "\<forall>m. is_used e' m \<longleftrightarrow> m = ''gre2'' \<or> is_used ?e m" by blast
  from k(1) r(2) have "itoa k = itoa 2" by simp
  then have "k = 2" by (rule itoa_inject [THEN iffD1])
  with e' k show ?thesis by (simp add: is_used_def)
qed

text \<open>
  C19. Every way an \<open>Env\<close> is extended keeps its invariant: the devices made so far have usable
  Linux names, reserved, pairwise distinct and different from the physical device, and the
  current device is one of them or the physical one. \<open>Claim\<close> and \<open>Alloc\<close> followed by \<open>Enter\<close> keep
  it, \<open>Reset\<close> keeps it, and \<open>New\<close> establishes it.
\<close>

theorem env_operations_keep_names:
  "env_ok (new_env root)
   \<and> (env_ok e \<longrightarrow> env_ok (reset e))
   \<and> (env_ok e \<and> claim n e = (Inr d, e1) \<longrightarrow> env_ok (enter d e1) \<and> d = n)
   \<and> (env_ok e \<and> alloc stem e = (Inr d', e2) \<longrightarrow> env_ok (enter d' e2))"
proof -
  have "d = n" if "claim n e = (Inr d, e1)"
    using that by (auto simp: claim_def split: sum.splits if_splits)
  then show ?thesis
    using new_env_ok reset_ok claimed.request_enter_ok allocated.request_enter_ok by blast
qed

theorem env_operations_keep_names_witness:
  "\<exists>e1. claim ''vxlan7'' (new_env ''eth0'') = (Inr ''vxlan7'', e1) \<and> env_ok (enter ''vxlan7'' e1)"
proof -
  have r: "fst (claim ''vxlan7'' (new_env ''eth0'')) = Inr ''vxlan7''" by code_simp
  then obtain e1 where e1: "claim ''vxlan7'' (new_env ''eth0'') = (Inr ''vxlan7'', e1)"
    by (metis prod.collapse)
  with env_operations_keep_names [of "''eth0''" "new_env ''eth0''" "''vxlan7''" "''vxlan7''" e1]
  show ?thesis by (simp add: new_env_ok)
qed

end
