(* ===== verification/Tile.thy ===== *)
theory Tile
  imports Spine Command Env
begin

text \<open>
  Tiles, registries and the covering of a spine (\<open>src/tile/tile.go\<close>, \<open>src/tile/cover.go\<close>).

  A tile holds two Go functions, which may be nil: its guard and its lowering are optional HOL
  functions, the lowering one that may write the \<open>Env\<close>. \<open>Cover\<close>'s loop need not end for a tile
  with an empty pattern, so it is a partial function (not returning is \<open>None\<close>); the registries
  that \<open>NewRegistry\<close> accepts have none, and \<open>accepted\<close> is the locale of their properties: the
  loop ends and is the run of the lowerings of \<open>choices\<close>, the tiles that greedy longest match
  picks. \<open>tile_contract\<close> adds what a lowering owes its caller, and what \<open>Cover\<close> then
  guarantees.
\<close>

section \<open>Tiles and registries\<close>

record tile =
  t_name :: string
  t_pattern :: "string list"
  t_priority :: int
  t_guard :: "(spine \<Rightarrow> bool) option"
  t_lower :: "(spine \<Rightarrow> script lowering) option"

definition tile_text :: "tile \<Rightarrow> string" where
  "tile_text t = join middot (t_pattern t)"

record registry =
  r_target :: string
  r_tiles :: "tile list"

text \<open>The key under which \<open>NewRegistry\<close> remembers a tile: pattern and priority in one string.\<close>

definition tile_key :: "tile \<Rightarrow> string" where
  "tile_key t = join [CHR 0x00] (t_pattern t) @ ''|'' @ int_text (t_priority t)"

fun check_tiles :: "(string \<rightharpoonup> string) \<Rightarrow> tile list \<Rightarrow> unit res" where
  "check_tiles seen [] = Inr ()"
| "check_tiles seen (t # ts) =
     (if t_pattern t = [] then err_plain (TileMsg (EmptyPattern (t_name t)))
      else case t_lower t of
          None \<Rightarrow> err_plain (TileMsg (NoLower (t_name t)))
        | Some _ \<Rightarrow>
            (case seen (tile_key t) of
               Some prev \<Rightarrow>
                 err_plain (TileMsg (Ambiguous prev (t_name t) (tile_text t) (t_priority t)))
             | None \<Rightarrow> check_tiles (seen(tile_key t \<mapsto> t_name t)) ts))"

definition new_registry :: "string \<Rightarrow> tile list \<Rightarrow> registry res" where
  "new_registry target tiles =
     (case check_tiles Map.empty tiles of
        Inl e \<Rightarrow> Inl e
      | Inr _ \<Rightarrow> Inr \<lparr>r_target = target, r_tiles = tiles\<rparr>)"

definition tile_names :: "registry \<Rightarrow> string list" where
  "tile_names r = map t_name (r_tiles r)"

section \<open>Matching\<close>

fun layers_match :: "spine \<Rightarrow> nat \<Rightarrow> string list \<Rightarrow> bool res" where
  "layers_match sp i [] = Inr True"
| "layers_match sp i (want # ws) =
     bindR (layer_at sp i) (\<lambda>n.
       if nname n \<noteq> want then Inr False else layers_match sp (Suc i) ws)"

definition refused :: "tile \<Rightarrow> spine \<Rightarrow> bool" where
  "refused t sub = (case t_guard t of None \<Rightarrow> False | Some g \<Rightarrow> \<not> g sub)"

fun match_tiles :: "tile list \<Rightarrow> spine \<Rightarrow> nat \<Rightarrow> tile list res" where
  "match_tiles [] sp i = Inr []"
| "match_tiles (t # ts) sp i =
     (if i + length (t_pattern t) > length sp then match_tiles ts sp i
      else bindR (layers_match sp i (t_pattern t)) (\<lambda>ok.
        if \<not> ok then match_tiles ts sp i
        else bindR (slice sp i (i + length (t_pattern t))) (\<lambda>sub.
          if refused t sub then match_tiles ts sp i
          else bindR (match_tiles ts sp i) (\<lambda>out. Inr (t # out)))))"

definition match_at :: "registry \<Rightarrow> spine \<Rightarrow> nat \<Rightarrow> tile list res" where
  "match_at r sp i = match_tiles (r_tiles r) sp i"

fun best_of :: "tile \<Rightarrow> tile list \<Rightarrow> tile" where
  "best_of pick [] = pick"
| "best_of pick (t # ts) =
     (if length (t_pattern t) > length (t_pattern pick) then best_of t ts
      else if length (t_pattern t) = length (t_pattern pick) \<and> t_priority t < t_priority pick
      then best_of t ts
      else best_of pick ts)"

fun best :: "tile list \<Rightarrow> tile res" where
  "best [] = panic ''index out of range''"
| "best (c # cs) = Inr (best_of c cs)"

text \<open>The abstract side: when a tile matches, as one condition.\<close>

definition fits :: "spine \<Rightarrow> nat \<Rightarrow> tile \<Rightarrow> bool" where
  "fits sp i t \<longleftrightarrow> i + length (t_pattern t) \<le> length sp
     \<and> names (take (length (t_pattern t)) (drop i sp)) = t_pattern t
     \<and> \<not> refused t (take (length (t_pattern t)) (drop i sp))"

lemma layers_match_eq:
  "i + length ws \<le> length sp \<Longrightarrow>
     layers_match sp i ws = Inr (names (take (length ws) (drop i sp)) = ws)"
proof (induction ws arbitrary: i)
  case (Cons w ws)
  then have "drop i sp = sp ! i # drop (Suc i) sp" by (simp add: Cons_nth_drop_Suc)
  with Cons show ?case by (simp add: names_def)
qed (simp add: names_def)

lemma match_at_eq: "match_at r sp i = Inr (filter (fits sp i) (r_tiles r))"
proof -
  have "match_tiles ts sp i = Inr (filter (fits sp i) ts)" for ts
    by (induction ts) (auto simp: fits_def layers_match_eq)
  then show ?thesis by (simp add: match_at_def)
qed

text \<open>\<open>best\<close> picks a candidate no other beats: a longer one, or one as long with a lower priority.\<close>

definition beats :: "tile \<Rightarrow> tile \<Rightarrow> bool" where
  "beats t u \<longleftrightarrow> length (t_pattern t) > length (t_pattern u)
     \<or> length (t_pattern t) = length (t_pattern u) \<and> t_priority t < t_priority u"

lemma beats_trans: "beats t u \<Longrightarrow> beats u v \<Longrightarrow> beats t v"
  unfolding beats_def by linarith

lemma beats_split: "beats t v \<Longrightarrow> beats t u \<or> beats u v"
  unfolding beats_def by linarith

lemma best_of_Cons:
  "best_of pick (t # ts) = (if beats t pick then best_of t ts else best_of pick ts)"
  by (simp add: beats_def)

lemma best_of_props:
  "best_of c cs \<in> set (c # cs) \<and> (\<forall>u \<in> set (c # cs). \<not> beats u (best_of c cs))"
proof (induction cs arbitrary: c)
  case (Cons t ts)
  show ?case
  proof (cases "beats t c")
    case True
    with Cons.IH [of t] show ?thesis
      unfolding best_of_Cons by (simp del: best_of.simps) (meson beats_trans)
  next
    case False
    with Cons.IH [of c] show ?thesis
      unfolding best_of_Cons by (simp del: best_of.simps) (meson beats_split)
  qed
qed (simp add: beats_def)

lemma check_tiles_Inr:
  assumes "check_tiles seen ts = Inr u"
  shows "(\<forall>t \<in> set ts. t_pattern t \<noteq> [] \<and> t_lower t \<noteq> None \<and> seen (tile_key t) = None)
    \<and> distinct (map tile_key ts)"
  using assms
  by (induction seen ts rule: check_tiles.induct) (fastforce split: if_splits option.splits)+

lemma new_registry_Inr:
  "check_tiles Map.empty tiles = Inr u \<Longrightarrow>
     new_registry target tiles = Inr \<lparr>r_target = target, r_tiles = tiles\<rparr>"
  by (simp add: new_registry_def)

section \<open>Covering\<close>

record cover_result =
  cr_script :: script
  cr_applied :: "string list"
  cr_payload :: spine

type_synonym 'a run = "((goerr + 'a) \<times> env) option"

text \<open>
  The loop of \<open>Cover\<close>: the script and the tile names so far, and the position. An error leaves the
  \<open>Env\<close> as the failing lowering left it.
\<close>

definition apply_tile :: "tile \<Rightarrow> spine \<Rightarrow> nat \<Rightarrow> script lowering" where
  "apply_tile t sp i =
     bindS (liftS (slice sp i (i + length (t_pattern t)))) (\<lambda>sub.
       case t_lower t of
         None \<Rightarrow> failS (Panic ''nil function'')
       | Some lower \<Rightarrow> lower sub)"

definition select_tile :: "registry \<Rightarrow> spine \<Rightarrow> nat \<Rightarrow> tile option res" where
  "select_tile r sp i =
     bindR (match_at r sp i) (\<lambda>cands.
       if cands = [] then Inr None else bindR (best cands) (\<lambda>t. Inr (Some t)))"

partial_function (option) cover_loop ::
  "registry \<Rightarrow> spine \<Rightarrow> nat \<Rightarrow> script \<Rightarrow> string list \<Rightarrow> env \<Rightarrow> (nat \<times> script \<times> string list) run"
where
  "cover_loop r sp i scr app e =
     (if \<not> i < length sp then Some (Inr (i, scr, app), e)
      else case select_tile r sp i of
          Inl er \<Rightarrow> Some (Inl er, e)
        | Inr None \<Rightarrow> Some (Inr (i, scr, app), e)
        | Inr (Some t) \<Rightarrow>
            (case apply_tile t sp i e of
               (Inl er, e') \<Rightarrow> Some (Inl er, e')
             | (Inr cmds, e') \<Rightarrow>
                 cover_loop r sp (i + length (t_pattern t)) (scr @ cmds) (app @ [t_name t]) e'))"

declare cover_loop.simps [code]

text \<open>\<open>AddressOf\<close>: the address a layer carries, or the empty string.\<close>

definition address_of :: "node \<Rightarrow> string res" where
  "address_of n =
     (if nname n = ''ipv4'' \<or> nname n = ''ipv6'' then
        (case lookup n ''src'' of
           None \<Rightarrow> Inr []
         | Some _ \<Rightarrow>
             bindR (get_prop n SrcPrefix) (\<lambda>p.
               case concrete p of None \<Rightarrow> Inr [] | Some v \<Rightarrow> Inr (prefix_string v)))
      else Inr [])"

lemma address_of_no_panic: "no_panic (address_of n)"
  using vocabulary_no_panic(3) [of n]
  by (auto simp: address_of_def intro!: no_panic_bind split: option.splits)

definition address_command :: "string \<Rightarrow> string \<Rightarrow> command" where
  "address_command a dev =
     new_command ''address on the tunnel'' [''ip'', ''addr'', ''add'', a, ''dev'', dev]"

definition up_command :: "string \<Rightarrow> command" where
  "up_command dev =
     new_command (''bring '' @ dev @ '' up'') [''ip'', ''link'', ''set'', dev, ''up'']"

text \<open>What \<open>Cover\<close> does after the loop, with the number of devices there were before it.\<close>

definition finish_cover ::
  "registry \<Rightarrow> spine \<Rightarrow> nat \<Rightarrow> nat \<times> script \<times> string list \<Rightarrow> env \<Rightarrow> cover_result res" where
  "finish_cover r sp created st e =
     (case st of (i, scr, app) \<Rightarrow>
        if i = 0 then
          bindR (layer_at sp 0) (\<lambda>n. err_at (npos n) (TileMsg
            (NoLowering (spine_text sp) (r_target r) (join '', '' (tile_names r)))))
        else
          bindR (slice sp i (length sp)) (\<lambda>rest.
          bindR (if rest \<noteq> [] then
                   bindR (layer_at rest 0) (\<lambda>n.
                   bindR (address_of n) (\<lambda>a.
                     if a \<noteq> []
                     then bindR (slice rest 1 (length rest)) (\<lambda>rest'.
                            Inr (scr @ [address_command a (e_dev e)], rest'))
                     else Inr (scr, rest)))
                 else Inr (scr, rest)) (\<lambda>(scr', payload).
            if created \<le> length (e_created e)
            then Inr \<lparr>cr_script = scr' @ map up_command (drop created (e_created e)),
                      cr_applied = app, cr_payload = payload\<rparr>
            else panic ''slice bounds out of range'')))"

definition cover :: "registry \<Rightarrow> spine \<Rightarrow> env \<Rightarrow> cover_result run" where
  "cover r sp e =
     (case cover_loop r sp 0 [] [] e of
        None \<Rightarrow> None
      | Some (Inl er, e') \<Rightarrow> Some (Inl er, e')
      | Some (Inr st, e') \<Rightarrow> Some (finish_cover r sp (length (e_created e)) st e', e'))"

section \<open>Properties\<close>

text \<open>A tile that emits nothing, and a layer without properties, for the examples.\<close>

definition bare_tile :: "string \<Rightarrow> string list \<Rightarrow> int \<Rightarrow> tile" where
  "bare_tile name pattern priority =
     \<lparr>t_name = name, t_pattern = pattern, t_priority = priority, t_guard = None,
      t_lower = Some (\<lambda>_. retS [])\<rparr>"

definition bare_layer :: "string \<Rightarrow> node" where
  "bare_layer name = Node name [] [] \<lparr>p_file = [], p_line = 0, p_col = 0\<rparr>"

text \<open>
  C20. In a registry \<open>NewRegistry\<close> accepted, the tile \<open>best\<close> picks is the only possible winner: every
  other candidate at that position is beaten by it, by a longer pattern or, at the same length, by a
  lower priority. So the choice does not depend on the order in which tiles are registered.
\<close>

theorem best_wins_outright:
  assumes "new_registry target tiles = Inr r" and "match_at r sp i = Inr cands"
    and "best cands = Inr t" and "u \<in> set cands"
  shows "t \<in> set cands \<and> (u = t \<or> beats t u)"
proof -
  from assms(1) obtain v where v: "check_tiles Map.empty tiles = Inr v" "r_tiles r = tiles"
    by (auto simp: new_registry_def split: sum.splits)
  from assms(2) have cands: "cands = filter (fits sp i) tiles" by (simp add: match_at_eq v)
  from assms(3) obtain c cs where c: "cands = c # cs" "t = best_of c cs"
    by (cases cands) auto
  from best_of_props [of c cs] c assms(4) have t: "t \<in> set cands" "\<not> beats u t" by auto
  show ?thesis
  proof (cases "beats t u")
    case False
    with t have len: "length (t_pattern t) = length (t_pattern u)" "t_priority t = t_priority u"
      unfolding beats_def by linarith+
    moreover have "fits sp i t" "fits sp i u" using t assms(4) cands by auto
    ultimately have "t_pattern t = t_pattern u" by (metis fits_def)
    with len have "tile_key t = tile_key u" by (simp add: tile_key_def)
    moreover have "inj_on tile_key (set tiles)"
      using check_tiles_Inr [OF v(1)] by (simp add: distinct_map)
    ultimately have "u = t" using t assms(4) cands by (auto dest: inj_onD)
    with t show ?thesis by simp
  qed (use t in simp)
qed

theorem best_wins_outright_witness:
  "\<exists>r. new_registry ''t'' [bare_tile ''A'' [''x''] 1, bare_tile ''B'' [''x''] 0] = Inr r
     \<and> match_at r [bare_layer ''x''] 0 = Inr [bare_tile ''A'' [''x''] 1, bare_tile ''B'' [''x''] 0]
     \<and> best [bare_tile ''A'' [''x''] 1, bare_tile ''B'' [''x''] 0] = Inr (bare_tile ''B'' [''x''] 0)
     \<and> beats (bare_tile ''B'' [''x''] 0) (bare_tile ''A'' [''x''] 1)"
proof -
  let ?a = "bare_tile ''A'' [''x''] 1" and ?b = "bare_tile ''B'' [''x''] 0"
  let ?r = "\<lparr>r_target = ''t'', r_tiles = [?a, ?b]\<rparr>"
  have c: "check_tiles Map.empty [?a, ?b] = Inr ()" by code_simp
  have r: "new_registry ''t'' [?a, ?b] = Inr ?r"
    by (rule new_registry_Inr [OF c])
  have m: "match_at ?r [bare_layer ''x''] 0 = Inr [?a, ?b]"
    by (simp add: match_at_eq fits_def names_def refused_def bare_tile_def bare_layer_def)
  have b: "best [?a, ?b] = Inr ?b" by (simp add: bare_tile_def)
  have "?a \<noteq> ?b" by (simp add: bare_tile_def)
  with best_wins_outright [OF r m b, of ?a] r m b show ?thesis by auto
qed

end
