(* ===== verification/Devices.thy ===== *)
theory Devices
  imports Command Env
begin

text \<open>
  The abstract side of a script: what its commands do to the set of interfaces of the machine
  it is run on. Only the interface names are read from an argument vector: a command makes one, needs
  one, or brings one up, and it fails on a name that is not there or is there already. The order
  in which interfaces come up is kept, since an inner tunnel needs its underlay first.

  This is a specification, not a model of the kernel: addresses and routes are not kept, so that a
  second \<open>ip addr add\<close> of an address a device already has, which a real machine refuses, goes through.

  \<open>run_devices\<close> runs a script; \<open>None\<close> is the run that fails. \<open>builds\<close> is the contract between a
  tile and the cover: on the interfaces of the \<open>Env\<close> the tile started from, its commands run and
  leave one more.
\<close>

record machine =
  m_devs :: "string list"
  m_up :: "string list"

datatype device_op = MakeDev string "string list" | UseDev string | UpDev string | Unknown

text \<open>The device an interface is made on, given at the end of the argument vector.\<close>

definition under_dev :: "string list \<Rightarrow> string list" where
  "under_dev opts =
     (case rev opts of d # k # _ \<Rightarrow> if k = ''dev'' then [d] else [] | _ \<Rightarrow> [])"

definition device_op :: "string list \<Rightarrow> device_op" where
  "device_op args =
     (if take 4 args = [''ip'', ''link'', ''add'', ''name''] \<and> 7 \<le> length args
      then MakeDev (args ! 4) (under_dev (drop 5 args))
      else if take 4 args = [''ip'', ''link'', ''add'', ''link''] \<and> 7 \<le> length args
      then MakeDev (args ! 6) [args ! 4]
      else if take 3 args = [''ip'', ''addr'', ''add''] \<and> length args = 6
      then UseDev (args ! 5)
      else if take 3 args = [''ip'', ''link'', ''set''] \<and> length args = 5 \<and> args ! 4 = ''up''
      then UpDev (args ! 3)
      else if take 2 args = [''wg'', ''set''] \<and> 3 \<le> length args
      then UseDev (args ! 2)
      else Unknown)"

definition device_step :: "command \<Rightarrow> machine \<Rightarrow> machine option" where
  "device_step c m =
     (case device_op (argv c) of
        MakeDev d us \<Rightarrow>
          if d \<notin> set (m_devs m) \<and> set us \<subseteq> set (m_devs m)
          then Some (m\<lparr>m_devs := m_devs m @ [d]\<rparr>) else None
      | UseDev d \<Rightarrow> if d \<in> set (m_devs m) then Some m else None
      | UpDev d \<Rightarrow> if d \<in> set (m_devs m) then Some (m\<lparr>m_up := m_up m @ [d]\<rparr>) else None
      | Unknown \<Rightarrow> None)"

fun run_devices :: "script \<Rightarrow> machine \<Rightarrow> machine option" where
  "run_devices [] m = Some m"
| "run_devices (c # cs) m =
     (case device_step c m of None \<Rightarrow> None | Some m' \<Rightarrow> run_devices cs m')"

lemma run_devices_append:
  "run_devices (a @ b) m =
     (case run_devices a m of None \<Rightarrow> None | Some m' \<Rightarrow> run_devices b m')"
  by (induction a arbitrary: m) (auto split: option.splits)

text \<open>The interfaces an \<open>Env\<close> knows of, in the order they were made.\<close>

definition present :: "env \<Rightarrow> string list" where
  "present e = e_root e # e_created e"

definition builds :: "env \<Rightarrow> string \<Rightarrow> script \<Rightarrow> bool" where
  "builds e d s \<longleftrightarrow> (\<forall>up. run_devices s \<lparr>m_devs = present e, m_up = up\<rparr>
      = Some \<lparr>m_devs = present e @ [d], m_up = up\<rparr>)"

lemma present_adds: "adds e d e' \<Longrightarrow> present e' = present e @ [d]"
  by (simp add: adds_def present_def)

lemma adds_fresh: "env_ok e \<Longrightarrow> adds e d e' \<Longrightarrow> d \<notin> set (present e)"
  by (auto simp: env_ok_def adds_def present_def)

lemma dev_present: "env_ok e \<Longrightarrow> e_dev e \<in> set (present e)"
  by (simp add: env_ok_def present_def)

text \<open>The shapes of commands the tiles emit.\<close>

lemma op_add_name:
  "device_op (''ip'' # ''link'' # ''add'' # ''name'' # d # k # v # opts)
     = MakeDev d (under_dev (k # v # opts))"
  by (simp add: device_op_def)

lemma op_add_link:
  "device_op (''ip'' # ''link'' # ''add'' # ''link'' # p # ''name'' # d # opts) = MakeDev d [p]"
  by (simp add: device_op_def)

lemma op_addr: "device_op [''ip'', ''addr'', ''add'', a, ''dev'', d] = UseDev d"
  by (simp add: device_op_def)

lemma op_up: "device_op [''ip'', ''link'', ''set'', d, ''up''] = UpDev d"
  by (simp add: device_op_def)

lemma op_wg: "device_op (''wg'' # ''set'' # d # opts) = UseDev d"
  by (simp add: device_op_def)

lemmas device_ops = op_add_name op_add_link op_addr op_up op_wg

lemma under_dev_append [simp]: "under_dev (opts @ [k, d]) = (if k = ''dev'' then [d] else [])"
  by (simp add: under_dev_def)

text \<open>Bringing up interfaces that are there, in order.\<close>

lemma run_up:
  assumes "set ds \<subseteq> set (m_devs m)"
    and "\<And>d. argv (f d) = [''ip'', ''link'', ''set'', d, ''up'']"
  shows "run_devices (map f ds) m = Some (m\<lparr>m_up := m_up m @ ds\<rparr>)"
  using assms(1)
  by (induction ds arbitrary: m) (simp_all add: device_step_def assms(2) op_up)

end
