(* ===== verification/Cover.thy ===== *)
theory Cover
  imports Tile Devices
begin

text \<open>
  What covering a spine guarantees (\<open>src/tile/cover.go\<close>), in three layers of interface:

  \<^item> \<open>accepted\<close>: a registry whose tiles have patterns and lowerings, as \<open>NewRegistry\<close> checks. The
    loop of \<open>Cover\<close> ends and runs the lowerings of \<open>choices\<close>, which is greedy longest match
    without the effects;
  \<^item> \<open>unambiguous\<close>: no pattern is a prefix of another. Then greedy longest match is optimal: every
    way of tiling the spine is an initial part of the greedy one;
  \<^item> \<open>tile_contract\<close>: each lowering makes one device, with commands that run on the devices made
    so far. Then the whole script runs, and every device of the chain comes up, outermost first.
\<close>

section \<open>Greedy choice\<close>

function choices :: "registry \<Rightarrow> spine \<Rightarrow> nat \<Rightarrow> tile list" where
  "choices r sp i =
     (if \<not> i < length sp then []
      else case filter (fits sp i) (r_tiles r) of
          [] \<Rightarrow> []
        | c # cs \<Rightarrow>
            if t_pattern (best_of c cs) = [] then []
            else best_of c cs # choices r sp (i + length (t_pattern (best_of c cs))))"
  by pat_completeness auto
termination by (relation "measure (\<lambda>(r, sp, i). length sp - i)") (auto simp flip: length_greater_0_conv)

declare choices.simps [simp del]

text \<open>A tiling places tiles one after the other from a position on.\<close>

fun tiling :: "registry \<Rightarrow> spine \<Rightarrow> nat \<Rightarrow> tile list \<Rightarrow> bool" where
  "tiling r sp i [] \<longleftrightarrow> True"
| "tiling r sp i (t # ts) \<longleftrightarrow>
     t \<in> set (r_tiles r) \<and> fits sp i t \<and> tiling r sp (i + length (t_pattern t)) ts"

definition width :: "tile list \<Rightarrow> nat" where
  "width ts = sum_list (map (\<lambda>t. length (t_pattern t)) ts)"

lemma width_simps [simp]:
  "width [] = 0" "width (t # ts) = length (t_pattern t) + width ts"
  "width (ts @ us) = width ts + width us"
  by (simp_all add: width_def)

lemma tiling_width: "tiling r sp i ts \<Longrightarrow> i \<le> length sp \<Longrightarrow> i + width ts \<le> length sp"
  by (induction ts arbitrary: i) (auto simp: fits_def, force)

lemma best_of_filter:
  assumes "filter P xs = c # cs"
  shows "best_of c cs \<in> set xs \<and> P (best_of c cs) \<and> (\<forall>u \<in> set xs. P u \<longrightarrow> \<not> beats u (best_of c cs))"
proof -
  have "set (c # cs) = {x \<in> set xs. P x}" using assms by (metis set_filter)
  then show ?thesis using best_of_props [of c cs] by blast
qed

lemma choices_tiling: "tiling r sp i (choices r sp i)"
proof (induction r sp i rule: choices.induct)
  case (1 r sp i)
  show ?case
  proof (cases "filter (fits sp i) (r_tiles r)")
    case (Cons c cs)
    with 1 best_of_filter [OF Cons] show ?thesis by (simp add: choices.simps [of r sp i])
  qed (simp add: choices.simps [of r sp i])
qed

text \<open>The loop of \<open>Cover\<close> once the tiles are chosen.\<close>

fun run_tiles :: "spine \<Rightarrow> nat \<Rightarrow> script \<Rightarrow> string list \<Rightarrow> tile list \<Rightarrow> (nat \<times> script \<times> string list) lowering"
where
  "run_tiles sp i scr app [] e = (Inr (i, scr, app), e)"
| "run_tiles sp i scr app (t # ts) e =
     (case apply_tile t sp i e of
        (Inl er, e') \<Rightarrow> (Inl er, e')
      | (Inr cmds, e') \<Rightarrow>
          run_tiles sp (i + length (t_pattern t)) (scr @ cmds) (app @ [t_name t]) ts e')"

lemma run_tiles_Inr:
  "run_tiles sp i scr app ts e = (Inr (j, scr', app'), e') \<Longrightarrow>
     j = i + width ts \<and> app' = app @ map t_name ts \<and> prefix scr scr'"
proof (induction ts arbitrary: i scr app e)
  case (Cons t ts)
  then obtain cmds e1 where "run_tiles sp (i + length (t_pattern t)) (scr @ cmds) (app @ [t_name t]) ts e1
      = (Inr (j, scr', app'), e')"
    by (auto split: prod.splits sum.splits)
  from Cons.IH [OF this] show ?case by (auto dest: append_prefixD)
qed auto

section \<open>Accepted registries\<close>

locale accepted =
  fixes r :: registry
  assumes nonempty_pattern: "t \<in> set (r_tiles r) \<Longrightarrow> t_pattern t \<noteq> []"
    and has_lower: "t \<in> set (r_tiles r) \<Longrightarrow> t_lower t \<noteq> None"
begin

lemma choices_nil:
  "i < length sp \<Longrightarrow> choices r sp i = [] \<longleftrightarrow> filter (fits sp i) (r_tiles r) = []"
proof (cases "filter (fits sp i) (r_tiles r)")
  case (Cons c cs)
  from best_of_filter [OF this] show "i < length sp \<Longrightarrow> ?thesis" by (simp add: choices.simps [of r sp i] Cons nonempty_pattern)
qed (simp add: choices.simps [of r sp i])

lemma choices_Cons:
  assumes "choices r sp i = t # ts"
  shows "i < length sp \<and> t \<in> set (r_tiles r) \<and> fits sp i t \<and> select_tile r sp i = Inr (Some t)
    \<and> ts = choices r sp (i + length (t_pattern t))
    \<and> (\<forall>u \<in> set (r_tiles r). fits sp i u \<longrightarrow> \<not> beats u t)"
proof -
  have i: "i < length sp"
    using assms by (rule contrapos_pp) (simp add: choices.simps [of r sp i])
  with assms obtain c cs where c: "filter (fits sp i) (r_tiles r) = c # cs" "t = best_of c cs"
      "ts = choices r sp (i + length (t_pattern t))"
    by (auto simp: choices.simps [of r sp i] split: list.splits if_splits)
  then show ?thesis
    using i best_of_filter [OF c(1)] by (simp add: select_tile_def match_at_eq)
qed

lemma select_none: "i < length sp \<Longrightarrow> choices r sp i = [] \<Longrightarrow> select_tile r sp i = Inr None"
  by (simp add: choices_nil select_tile_def match_at_eq)

lemma cover_loop_run:
  "cover_loop r sp i scr app e = Some (run_tiles sp i scr app (choices r sp i) e)"
proof (induction "choices r sp i" arbitrary: i scr app e)
  case Nil
  then show ?case
    by (cases "i < length sp") (simp_all add: cover_loop.simps [of r sp i] select_none flip: Nil)
next
  case (Cons t ts)
  from choices_Cons [OF Cons.hyps(2) [symmetric]]
  have *: "i < length sp" "select_tile r sp i = Inr (Some t)"
      "ts = choices r sp (i + length (t_pattern t))"
    by auto
  show ?case
    unfolding Cons.hyps(2) [symmetric]
    by (simp add: cover_loop.simps [of r sp i] * Cons.hyps(1) [OF *(3)]
        split: prod.split sum.split)
qed

lemma cover_run:
  "cover r sp e = Some
     (case run_tiles sp 0 [] [] (choices r sp 0) e of
        (Inl er, e') \<Rightarrow> (Inl er, e')
      | (Inr st, e') \<Rightarrow> (finish_cover r sp (length (e_created e)) st e', e'))"
  by (simp add: cover_def cover_loop_run split: prod.split sum.split)

lemma finish_cover_Inr:
  assumes "finish_cover r sp created (i, scr, app) e = Inr res"
  shows "i \<noteq> 0 \<and> i \<le> length sp \<and> created \<le> length (e_created e) \<and> cr_applied res = app
    \<and> ((\<exists>a. i < length sp \<and> address_of (sp ! i) = Inr a \<and> a \<noteq> [] \<and> cr_payload res = drop (Suc i) sp
          \<and> cr_script res = scr @ address_command a (e_dev e) # map up_command (drop created (e_created e)))
     \<or> ((i < length sp \<longrightarrow> address_of (sp ! i) = Inr []) \<and> cr_payload res = drop i sp
          \<and> cr_script res = scr @ map up_command (drop created (e_created e))))"
  using assms
  by (auto simp: finish_cover_def bindR_eq_Inr slice_Inr layer_at_def hd_drop_conv_nth drop_Suc
      tl_drop split: if_splits)

text \<open>A covered spine: which tiles were applied, and what the script does to the machine.\<close>

lemma cover_Inr:
  assumes "cover r sp e = Some (Inr res, e')"
  obtains scr where "run_tiles sp 0 [] [] (choices r sp 0) e
      = (Inr (width (choices r sp 0), scr, map t_name (choices r sp 0)), e')"
    "finish_cover r sp (length (e_created e))
       (width (choices r sp 0), scr, map t_name (choices r sp 0)) e' = Inr res"
proof -
  from assms obtain i scr app where
    run: "run_tiles sp 0 [] [] (choices r sp 0) e = (Inr (i, scr, app), e')"
    and fin: "finish_cover r sp (length (e_created e)) (i, scr, app) e' = Inr res"
    by (auto simp: cover_run split: prod.splits sum.splits)
  with run_tiles_Inr [OF run] show ?thesis by (intro that [of scr]) auto
qed

lemma cover_choices:
  assumes "cover r sp e = Some (Inr res, e')"
  shows "cr_applied res = map t_name (choices r sp 0) \<and> choices r sp 0 \<noteq> []
    \<and> (cr_payload res = drop (width (choices r sp 0)) sp
       \<or> cr_payload res = drop (Suc (width (choices r sp 0))) sp)"
proof -
  from assms obtain scr where
    "finish_cover r sp (length (e_created e))
       (width (choices r sp 0), scr, map t_name (choices r sp 0)) e' = Inr res"
    by (rule cover_Inr)
  from finish_cover_Inr [OF this] show ?thesis by auto
qed

end

text \<open>A registry \<open>NewRegistry\<close> returns is an accepted one.\<close>

lemma new_registry_accepted:
  assumes "new_registry target tiles = Inr r"
  shows "accepted r"
proof -
  from assms have r: "check_tiles Map.empty tiles = Inr ()" "r_tiles r = tiles"
    by (auto simp: new_registry_def split: sum.splits)
  show ?thesis using check_tiles_Inr [OF r(1)] r(2) by unfold_locales auto
qed

section \<open>Unambiguous registries\<close>

locale unambiguous = accepted +
  assumes one_fits: "t \<in> set (r_tiles r) \<Longrightarrow> u \<in> set (r_tiles r)
      \<Longrightarrow> prefix (t_pattern t) (t_pattern u) \<Longrightarrow> t = u"
begin

lemma fits_same:
  assumes "t \<in> set (r_tiles r)" "u \<in> set (r_tiles r)" "fits sp i t" "fits sp i u"
  shows "t = u"
proof -
  have "prefix (t_pattern x) (names (drop i sp))" if "fits sp i x" for x
    using that by (metis fits_def names_def take_is_prefix take_map)
  with assms have "prefix (t_pattern t) (t_pattern u) \<or> prefix (t_pattern u) (t_pattern t)"
    by (meson prefix_same_cases)
  with assms one_fits show ?thesis by blast
qed

lemma greedy_optimal: "tiling r sp i ts \<Longrightarrow> prefix ts (choices r sp i)"
proof (induction ts arbitrary: i)
  case (Cons t ts)
  then have t: "t \<in> set (r_tiles r)" "fits sp i t" by auto
  with nonempty_pattern [OF t(1)] have i: "i < length sp"
    by (cases "t_pattern t") (auto simp: fits_def)
  have "choices r sp i \<noteq> []" using choices_nil [OF i] t by (auto simp: filter_empty_conv)
  then obtain u us where u: "choices r sp i = u # us" by (cases "choices r sp i") auto
  from choices_Cons [OF u] t have "u = t" using fits_same by blast
  with choices_Cons [OF u] Cons show ?case by (simp add: u)
qed simp

lemma greedy_widest: "tiling r sp i ts \<Longrightarrow> width ts \<le> width (choices r sp i)"
  by (drule greedy_optimal) (auto simp: prefix_def)

end

section \<open>The contract of a lowering\<close>

locale tile_contract = accepted +
  assumes lower_no_panic: "t \<in> set (r_tiles r) \<Longrightarrow> t_lower t = Some f \<Longrightarrow> names sub = t_pattern t
      \<Longrightarrow> f sub e = (res, e') \<Longrightarrow> no_panic res"
    and lower_builds: "t \<in> set (r_tiles r) \<Longrightarrow> t_lower t = Some f \<Longrightarrow> names sub = t_pattern t
      \<Longrightarrow> f sub e = (Inr cmds, e') \<Longrightarrow> env_ok e \<Longrightarrow> \<exists>d. adds e d e' \<and> builds e d cmds"
begin

lemma apply_tile_eq:
  assumes "t \<in> set (r_tiles r)" "fits sp i t"
  obtains f sub where "t_lower t = Some f" "names sub = t_pattern t" "apply_tile t sp i e = f sub e"
proof -
  obtain f where f: "t_lower t = Some f" using has_lower [OF assms(1)] by auto
  from assms(2) show ?thesis
    by (intro that [OF f, of "take (length (t_pattern t)) (drop i sp)"])
       (simp_all add: fits_def apply_tile_def f bindS_def liftS_def)
qed

lemma run_tiles_no_panic:
  "tiling r sp i ts \<Longrightarrow> run_tiles sp i scr app ts e = (res, e') \<Longrightarrow> no_panic res"
proof (induction ts arbitrary: i scr app e)
  case (Cons t ts)
  then have t: "t \<in> set (r_tiles r)" "fits sp i t" by auto
  from apply_tile_eq [OF t] obtain f sub
    where f: "t_lower t = Some f" "names sub = t_pattern t" "apply_tile t sp i e = f sub e" .
  show ?case
  proof (cases "f sub e")
    case (Pair rs e1)
    with lower_no_panic [OF t(1) f(1,2) Pair] Cons f(3) show ?thesis by (cases rs) auto
  qed
qed auto

lemma run_tiles_builds:
  assumes "tiling r sp i ts" "run_tiles sp i scr app ts e = (Inr (j, scr', app'), e')" "env_ok e"
  shows "\<exists>ds cmds. scr' = scr @ cmds \<and> env_ok e' \<and> length ds = length ts
    \<and> e_root e' = e_root e \<and> e_keydir e' = e_keydir e \<and> e_created e' = e_created e @ ds
    \<and> (\<forall>up. run_devices cmds \<lparr>m_devs = present e, m_up = up\<rparr>
          = Some \<lparr>m_devs = present e', m_up = up\<rparr>)"
  using assms
proof (induction ts arbitrary: i scr app e)
  case (Cons t ts)
  then have t: "t \<in> set (r_tiles r)" "fits sp i t" by auto
  from apply_tile_eq [OF t] obtain f sub
    where f: "t_lower t = Some f" "names sub = t_pattern t" "apply_tile t sp i e = f sub e" .
  from Cons.prems(2) f(3) obtain c1 e1 where c1: "f sub e = (Inr c1, e1)"
    and rest: "run_tiles sp (i + length (t_pattern t)) (scr @ c1) (app @ [t_name t]) ts e1
        = (Inr (j, scr', app'), e')"
    by (auto split: prod.splits sum.splits)
  from lower_builds [OF t(1) f(1,2) c1 Cons.prems(3)] obtain d
    where d: "adds e d e1" "builds e d c1" by blast
  have e1: "env_ok e1" using adds_ok [OF Cons.prems(3) d(1)] .
  from Cons.IH [OF _ rest e1] Cons.prems(1) obtain ds cmds where
    "scr' = (scr @ c1) @ cmds" "env_ok e'" "length ds = length ts"
    "e_root e' = e_root e1" "e_keydir e' = e_keydir e1" "e_created e' = e_created e1 @ ds"
    "\<And>up. run_devices cmds \<lparr>m_devs = present e1, m_up = up\<rparr>
        = Some \<lparr>m_devs = present e', m_up = up\<rparr>"
    by auto
  with d present_adds [OF d(1)] show ?case
    by (intro exI [of _ "d # ds"] exI [of _ "c1 @ cmds"])
       (auto simp: adds_def builds_def run_devices_append)
qed auto

lemma finish_cover_no_panic:
  assumes "sp \<noteq> []" "i \<le> length sp" "created \<le> length (e_created e)"
  shows "no_panic (finish_cover r sp created (i, scr, app) e)"
  using assms
  by (auto simp: finish_cover_def layer_at_def address_of_no_panic intro!: no_panic_bind)

lemma cover_no_panic:
  assumes "sp \<noteq> []" "env_ok e"
  shows "\<exists>res e'. cover r sp e = Some (res, e') \<and> no_panic res"
proof (cases "run_tiles sp 0 [] [] (choices r sp 0) e")
  case (Pair rs e1)
  note t = choices_tiling [of r sp 0]
  show ?thesis
  proof (cases rs)
    case (Inl er)
    with Pair run_tiles_no_panic [OF t Pair] show ?thesis by (simp add: cover_run)
  next
    case (Inr st)
    obtain i scr app where st: "st = (i, scr, app)" by (cases st)
    note run = Pair [unfolded Inr st]
    from run_tiles_builds [OF t run assms(2)] have "length (e_created e) \<le> length (e_created e1)"
      by auto
    moreover have "i \<le> length sp" using run_tiles_Inr [OF run] tiling_width [OF t] by simp
    ultimately show ?thesis
      using finish_cover_no_panic [OF assms(1)] Pair Inr st by (simp add: cover_run)
  qed
qed

lemma cover_builds:
  assumes "cover r sp e = Some (Inr res, e')" and "env_ok e"
  shows "\<exists>ds. e_root e' = e_root e \<and> e_keydir e' = e_keydir e \<and> e_created e' = e_created e @ ds
    \<and> length ds = length (cr_applied res) \<and> env_ok e'
    \<and> (\<forall>up. run_devices (cr_script res) \<lparr>m_devs = present e, m_up = up\<rparr>
          = Some \<lparr>m_devs = present e', m_up = up @ ds\<rparr>)"
proof -
  from assms(1) obtain scr where
    run: "run_tiles sp 0 [] [] (choices r sp 0) e
      = (Inr (width (choices r sp 0), scr, map t_name (choices r sp 0)), e')"
    and fin: "finish_cover r sp (length (e_created e))
       (width (choices r sp 0), scr, map t_name (choices r sp 0)) e' = Inr res"
    by (rule cover_Inr)
  from run_tiles_builds [OF choices_tiling run assms(2)] obtain ds where
    ds: "env_ok e'" "length ds = length (choices r sp 0)" "e_root e' = e_root e"
      "e_keydir e' = e_keydir e" "e_created e' = e_created e @ ds"
      "\<And>up. run_devices scr \<lparr>m_devs = present e, m_up = up\<rparr> = Some \<lparr>m_devs = present e', m_up = up\<rparr>"
    by auto
  have ups: "run_devices (map up_command ds) \<lparr>m_devs = present e', m_up = up\<rparr>
      = Some \<lparr>m_devs = present e', m_up = up @ ds\<rparr>" for up
    by (subst run_up) (auto simp: present_def ds(5) up_command_def new_command_def)
  have addr: "device_step (address_command a (e_dev e')) \<lparr>m_devs = present e', m_up = up\<rparr>
      = Some \<lparr>m_devs = present e', m_up = up\<rparr>" for a up
    using dev_present [OF ds(1)]
    by (simp add: device_step_def address_command_def new_command_def op_addr)
  have app: "cr_applied res = map t_name (choices r sp 0)"
    using cover_choices [OF assms(1)] by simp
  from finish_cover_Inr [OF fin] have "\<exists>mid. cr_script res = scr @ mid @ map up_command ds
      \<and> (mid = [] \<or> (\<exists>a. mid = [address_command a (e_dev e')]))"
    by (auto simp: ds(5))
  then have "run_devices (cr_script res) \<lparr>m_devs = present e, m_up = up\<rparr>
      = Some \<lparr>m_devs = present e', m_up = up @ ds\<rparr>" for up
    by (auto simp: run_devices_append ds(6) ups addr)
  with ds app show ?thesis by auto
qed

end

section \<open>Properties\<close>

text \<open>
  C35. On a registry \<open>NewRegistry\<close> accepted, \<open>Cover\<close> always returns: its loop moves on by at least
  one layer with every tile, whatever the lowerings do.
\<close>

theorem accepted_cover_returns:
  assumes "new_registry target tiles = Inr r"
  shows "\<exists>res e'. cover r sp e = Some (res, e')"
proof -
  obtain p where "cover r sp e = Some p"
    using accepted.cover_run [OF new_registry_accepted [OF assms]] by blast
  then show ?thesis by (cases p) simp
qed

theorem accepted_cover_returns_witness:
  "\<exists>r res e'. new_registry ''t'' [bare_tile ''A'' [''x''] 0] = Inr r
     \<and> cover r [bare_layer ''x'', bare_layer ''x'', bare_layer ''y''] (new_env ''eth0'') = Some (res, e')"
proof -
  have "check_tiles Map.empty [bare_tile ''A'' [''x''] 0] = Inr ()" by code_simp
  note r = new_registry_Inr [OF this, of "''t''"]
  from accepted_cover_returns [OF r] r show ?thesis by blast
qed

text \<open>
  Greedy longest match is not optimal for every tile set: there is an accepted registry and a
  spine that its tiles cover completely, of which greedy covers only a part, so that \<open>Cover\<close> takes
  a layer for traffic that a tile could have configured.
\<close>

theorem greedy_can_lose:
  "\<exists>r sp ts res e'. new_registry ''t'' [bare_tile ''A'' [''x''] 0, bare_tile ''AB'' [''x'', ''y''] 0,
        bare_tile ''BC'' [''y'', ''z''] 0] = Inr r
     \<and> tiling r sp 0 ts \<and> width ts = length sp
     \<and> cover r sp (new_env ''eth0'') = Some (Inr res, e')
     \<and> map nname (cr_payload res) = [''z'']"
proof -
  let ?ts = "[bare_tile ''A'' [''x''] 0, bare_tile ''AB'' [''x'', ''y''] 0, bare_tile ''BC'' [''y'', ''z''] 0]"
  let ?r = "\<lparr>r_target = ''t'', r_tiles = ?ts\<rparr>"
  let ?sp = "map bare_layer [''x'', ''y'', ''z'']"
  have c: "check_tiles Map.empty ?ts = Inr ()" by code_simp
  have r: "new_registry ''t'' ?ts = Inr ?r"
    by (rule new_registry_Inr [OF c])
  have t: "tiling ?r ?sp 0 [?ts ! 0, ?ts ! 2]"
    by (simp add: fits_def names_def refused_def bare_tile_def bare_layer_def)
  have w: "width [?ts ! 0, ?ts ! 2] = length ?sp" by (simp add: bare_tile_def)
  have "case cover ?r ?sp (new_env ''eth0'') of
      Some (Inr res, e') \<Rightarrow> map nname (cr_payload res) = [''z''] | _ \<Rightarrow> False"
    by code_simp
  then obtain res e' where res: "cover ?r ?sp (new_env ''eth0'') = Some (Inr res, e')"
    "map nname (cr_payload res) = [''z'']"
    by (auto split: option.splits prod.splits sum.splits)
  show ?thesis by (intro exI conjI) (rule r, rule t, rule w, rule res(1), rule res(2))
qed

end
