(* ===== verification/Explain.thy ===== *)
theory Explain
  imports Cover
begin

text \<open>
  The record of every tile's bid (\<open>src/tile/explain.go\<close>). \<open>Explain\<close> repeats the walk of \<open>Cover\<close>
  with its own matching function \<open>bid\<close>, so that the two agree is a theorem and not a fact of the
  code: a bid is empty exactly where the tile fits, and the steps choose the tiles of \<open>choices\<close>.
\<close>

section \<open>Bids\<close>

record attempt =
  a_name :: string
  a_pattern :: string
  a_length :: nat
  a_priority :: int
  a_matched :: bool
  a_reason :: string

record step =
  s_at :: nat
  s_covered :: string
  s_chosen :: string
  s_because :: string
  s_attempts :: "attempt list"

record explanation =
  x_spine :: spine
  x_target :: string
  x_steps :: "step list"
  x_leftover :: spine
  x_note :: string

text \<open>The loop of \<open>bid\<close> over the pattern, with the layer it is at.\<close>

fun bid_layers :: "spine \<Rightarrow> nat \<Rightarrow> string list \<Rightarrow> string res" where
  "bid_layers sp i [] = Inr []"
| "bid_layers sp i (want # ws) =
     bindR (layer_at sp i) (\<lambda>n.
       if nname n \<noteq> want
       then Inr (''layer '' @ itoa i @ '' is '' @ nname n @ '', wants '' @ want)
       else bid_layers sp (Suc i) ws)"

definition bid :: "tile \<Rightarrow> spine \<Rightarrow> nat \<Rightarrow> string res" where
  "bid t sp i =
     (if i + length (t_pattern t) > length sp
      then Inr (''needs '' @ itoa (length (t_pattern t)) @ '' layers, only ''
             @ itoa (length sp - i) @ '' remain'')
      else bindR (bid_layers sp i (t_pattern t)) (\<lambda>reason.
        if reason \<noteq> [] then Inr reason
        else (case t_guard t of
            None \<Rightarrow> Inr []
          | Some g \<Rightarrow> bindR (slice sp i (i + length (t_pattern t))) (\<lambda>sub.
              if \<not> g sub then Inr ''shape matches, but a field value ruled it out''
              else Inr []))))"

definition why_chosen :: "tile \<Rightarrow> tile list \<Rightarrow> string" where
  "why_chosen pick all =
     (if length all = 1 then ''the only tile that matched''
      else let longest = foldl (\<lambda>m t. if length (t_pattern t) > m then length (t_pattern t) else m) 0 all;
               tied = length (filter (\<lambda>t. length (t_pattern t) = longest) all)
           in if tied > 1
              then itoa tied @ '' tiles matched '' @ itoa longest
                @ '' layers; the lowest priority wins''
              else ''longest match: '' @ itoa longest @ '' layers against ''
                @ itoa (length all - 1) @ '' others'')"

text \<open>The bids of all tiles at one position, and the tiles that won.\<close>

fun all_bids :: "tile list \<Rightarrow> spine \<Rightarrow> nat \<Rightarrow> (attempt list \<times> tile list) res" where
  "all_bids [] sp i = Inr ([], [])"
| "all_bids (t # ts) sp i =
     bindR (bid t sp i) (\<lambda>reason.
     bindR (all_bids ts sp i) (\<lambda>(atts, winners).
       Inr (\<lparr>a_name = t_name t, a_pattern = tile_text t, a_length = length (t_pattern t),
             a_priority = t_priority t, a_matched = (reason = []), a_reason = reason\<rparr> # atts,
            if reason = [] then t # winners else winners)))"

section \<open>The walk\<close>

text \<open>
  One position of the walk: the step it records, and how many layers the chosen tile takes, if one
  was chosen.
\<close>

definition explain_at :: "registry \<Rightarrow> spine \<Rightarrow> nat \<Rightarrow> (step \<times> nat option) res" where
  "explain_at r sp i =
     bindR (all_bids (r_tiles r) sp i) (\<lambda>(atts, winners).
       if winners = [] then
         bindR (slice sp i (length sp)) (\<lambda>rest.
           Inr (\<lparr>s_at = i, s_covered = spine_text rest, s_chosen = [], s_because = [],
                 s_attempts = atts\<rparr>, None))
       else
         bindR (best winners) (\<lambda>pick.
         bindR (slice sp i (i + length (t_pattern pick))) (\<lambda>sub.
           Inr (\<lparr>s_at = i, s_covered = spine_text sub, s_chosen = t_name pick,
                 s_because = why_chosen pick winners, s_attempts = atts\<rparr>,
                Some (length (t_pattern pick))))))"

partial_function (option) explain_loop ::
  "registry \<Rightarrow> spine \<Rightarrow> nat \<Rightarrow> step list \<Rightarrow> ((step list \<times> nat) res) option"
where
  "explain_loop r sp i steps =
     (if \<not> i < length sp then Some (Inr (steps, i))
      else case explain_at r sp i of
          Inl er \<Rightarrow> Some (Inl er)
        | Inr (s, None) \<Rightarrow> Some (Inr (steps @ [s], i))
        | Inr (s, Some k) \<Rightarrow> explain_loop r sp (i + k) (steps @ [s]))"

declare explain_loop.simps [code]

definition explain_note :: "registry \<Rightarrow> spine \<Rightarrow> nat \<Rightarrow> spine \<Rightarrow> string" where
  "explain_note r sp i left =
     (if i = 0 then ''no tile matched at the outermost layer, so '' @ spine_text sp
        @ '' has no lowering on '' @ r_target r
      else if left \<noteq> []
      then ''what no tile claimed is traffic through the device, not configuration of it''
      else [])"

definition explain :: "registry \<Rightarrow> spine \<Rightarrow> (explanation res) option" where
  "explain r sp =
     (case explain_loop r sp 0 [] of
        None \<Rightarrow> None
      | Some (Inl er) \<Rightarrow> Some (Inl er)
      | Some (Inr (steps, i)) \<Rightarrow>
          Some (bindR (slice sp i (length sp)) (\<lambda>left.
            Inr \<lparr>x_spine = sp, x_target = r_target r, x_steps = steps, x_leftover = left,
                 x_note = explain_note r sp i left\<rparr>)))"

section \<open>The text of an explanation\<close>

definition attempt_text :: "step \<Rightarrow> attempt \<Rightarrow> string" where
  "attempt_text s a =
     ''  '' @ pad_right 10 (a_name a) @ '' '' @ pad_right 34 (a_pattern a) @ '' ''
     @ (if a_name a = s_chosen s then ''chosen'' @ em_dash @ s_because s
        else if a_matched a then ''matched '' @ itoa (a_length a) @ '' layers''
        else a_reason a) @ [char_nl]"

definition step_text :: "step \<Rightarrow> string" where
  "step_text s =
     [char_nl] @ ''at layer '' @ itoa (s_at s) @ '': '' @ s_covered s
     @ (if s_chosen s = [] then em_dash @ ''nothing matched'' else []) @ [char_nl]
     @ concat (map (attempt_text s) (s_attempts s))"

definition explanation_text :: "explanation \<Rightarrow> string" where
  "explanation_text x =
     ''spine:  '' @ spine_text (x_spine x) @ [char_nl] @ ''target: '' @ x_target x @ [char_nl]
     @ concat (map step_text (x_steps x))
     @ (if x_leftover x \<noteq> []
        then [char_nl] @ ''left over: '' @ spine_text (x_leftover x) @ [char_nl] else [])
     @ (if x_note x \<noteq> [] then [char_nl] @ x_note x @ [char_nl] else [])"

section \<open>Agreement with the cover\<close>

lemma bid_layers_eq:
  "i + length ws \<le> length sp \<Longrightarrow>
     \<exists>reason. bid_layers sp i ws = Inr reason
       \<and> (reason = [] \<longleftrightarrow> names (take (length ws) (drop i sp)) = ws)"
proof (induction ws arbitrary: i)
  case (Cons w ws)
  then have "drop i sp = sp ! i # drop (Suc i) sp" by (simp add: Cons_nth_drop_Suc)
  with Cons show ?case by (auto simp: names_def)
qed (simp add: names_def)

lemma bid_eq: "\<exists>reason. bid t sp i = Inr reason \<and> (reason = [] \<longleftrightarrow> fits sp i t)"
proof (cases "i + length (t_pattern t) \<le> length sp")
  case True
  from bid_layers_eq [OF True] True show ?thesis
    by (auto simp: bid_def fits_def refused_def split: option.splits)
qed (simp add: bid_def fits_def)

lemma all_bids_eq: "\<exists>atts. all_bids ts sp i = Inr (atts, filter (fits sp i) ts)
    \<and> map a_name atts = map t_name ts \<and> map a_matched atts = map (fits sp i) ts"
proof (induction ts)
  case (Cons t ts)
  then obtain atts where "all_bids ts sp i = Inr (atts, filter (fits sp i) ts)"
    "map a_name atts = map t_name ts" "map a_matched atts = map (fits sp i) ts" by blast
  moreover obtain reason where "bid t sp i = Inr reason" "reason = [] \<longleftrightarrow> fits sp i t"
    using bid_eq by blast
  ultimately show ?case by simp
qed simp

context accepted
begin

lemma explain_at_none:
  assumes "i < length sp" "choices r sp i = []"
  shows "\<exists>s. explain_at r sp i = Inr (s, None) \<and> s_chosen s = [] \<and> s_at s = i
    \<and> list_all (\<lambda>a. \<not> a_matched a) (s_attempts s)"
proof -
  have none: "filter (fits sp i) (r_tiles r) = []" using assms choices_nil by simp
  from all_bids_eq [of "r_tiles r" sp i] obtain atts where
    atts: "all_bids (r_tiles r) sp i = Inr (atts, [])" "map a_matched atts = map (fits sp i) (r_tiles r)"
    unfolding none by blast
  have "list_all (\<lambda>b. \<not> b) (map a_matched atts)"
    unfolding atts(2) using none by (simp add: list_all_iff filter_empty_conv)
  then show ?thesis using assms(1) atts(1) by (simp add: explain_at_def list.pred_map o_def)
qed

lemma explain_at_some:
  assumes "choices r sp i = t # ts"
  shows "\<exists>s. explain_at r sp i = Inr (s, Some (length (t_pattern t))) \<and> s_chosen s = t_name t
    \<and> s_at s = i \<and> s_covered s = tile_text t"
proof -
  from choices_Cons [OF assms] have t: "fits sp i t" "select_tile r sp i = Inr (Some t)" by auto
  from all_bids_eq [of "r_tiles r" sp i] obtain atts where
    atts: "all_bids (r_tiles r) sp i = Inr (atts, filter (fits sp i) (r_tiles r))" by blast
  from t(2) have "filter (fits sp i) (r_tiles r) \<noteq> []" "best (filter (fits sp i) (r_tiles r)) = Inr t"
    by (auto simp: select_tile_def match_at_eq bindR_eq_Inr split: if_splits)
  with t(1) atts show ?thesis
    by (simp add: explain_at_def fits_def spine_text_def tile_text_def)
qed

lemma explain_loop_choices:
  assumes "i \<le> length sp"
  shows "\<exists>more. explain_loop r sp i steps = Some (Inr (steps @ more, i + width (choices r sp i)))
    \<and> filter (\<lambda>n. n \<noteq> []) (map s_chosen more) = filter (\<lambda>n. n \<noteq> []) (map t_name (choices r sp i))"
  using assms
proof (induction "choices r sp i" arbitrary: i steps)
  case Nil
  note none = Nil.hyps [symmetric]
  show ?case
  proof (cases "i < length sp")
    case True
    from explain_at_none [OF True none] obtain s where
      "explain_at r sp i = Inr (s, None)" "s_chosen s = []" by blast
    with True none show ?thesis
      by (intro exI [of _ "[s]"]) (simp add: explain_loop.simps [of r sp i])
  qed (simp add: explain_loop.simps [of r sp i] none)
next
  case (Cons t ts)
  note c = choices_Cons [OF Cons.hyps(2) [symmetric]]
  from explain_at_some [OF Cons.hyps(2) [symmetric]] obtain s where
    s: "explain_at r sp i = Inr (s, Some (length (t_pattern t)))" "s_chosen s = t_name t" by blast
  from c have ts: "ts = choices r sp (i + length (t_pattern t))"
    and "i + length (t_pattern t) \<le> length sp"
    by (auto simp: fits_def)
  from Cons.hyps(1) [OF this, of "steps @ [s]"] obtain more where
    "explain_loop r sp (i + length (t_pattern t)) (steps @ [s])
       = Some (Inr ((steps @ [s]) @ more, i + length (t_pattern t)
           + width (choices r sp (i + length (t_pattern t)))))"
    "filter (\<lambda>n. n \<noteq> []) (map s_chosen more)
       = filter (\<lambda>n. n \<noteq> []) (map t_name (choices r sp (i + length (t_pattern t))))"
    by blast
  with s c show ?case
    by (intro exI [of _ "s # more"])
       (simp add: explain_loop.simps [of r sp i] flip: Cons.hyps(2))
qed

lemma explain_choices:
  "\<exists>x. explain r sp = Some (Inr x) \<and> x_spine x = sp \<and> x_leftover x = drop (width (choices r sp 0)) sp
     \<and> filter (\<lambda>n. n \<noteq> []) (map s_chosen (x_steps x))
         = filter (\<lambda>n. n \<noteq> []) (map t_name (choices r sp 0))"
proof -
  from explain_loop_choices [of 0 sp "[]"] obtain more where
    m: "explain_loop r sp 0 [] = Some (Inr (more, width (choices r sp 0)))"
    "filter (\<lambda>n. n \<noteq> []) (map s_chosen more) = filter (\<lambda>n. n \<noteq> []) (map t_name (choices r sp 0))"
    by auto
  have "width (choices r sp 0) \<le> length sp" using tiling_width [OF choices_tiling] by fastforce
  with m show ?thesis by (simp add: explain_def)
qed

end

section \<open>Properties\<close>



end
