(* ===== verification/Linux.thy ===== *)
theory Linux
  imports Explain
begin

text \<open>
  The iproute2 tiles (\<open>src/tiles/linux\<close>): the endpoints of a tunnel as the tree describes them,
  the six tiles with their lowerings, and the registry. A lowering reads the \<open>Env\<close> it is
  given and writes it (\<open>Alloc\<close>, \<open>Claim\<close>, \<open>Enter\<close>), in the order of the calls in the source; an
  error after \<open>Alloc\<close> leaves the name reserved.
\<close>

section \<open>Endpoints\<close>

definition u32 :: "32 word \<Rightarrow> string" where
  "u32 v = itoa (unat v)"

definition u16 :: "16 word \<Rightarrow> string" where
  "u16 v = itoa (unat v)"

record endpoint =
  ep_addr :: string
  ep_prefix :: string
  ep_dynamic :: bool
  ep_absent :: bool
  ep_pos :: pos

definition read_endpoint :: "node \<Rightarrow> string \<Rightarrow> endpoint res" where
  "read_endpoint n key =
     (case lookup n key of
        None \<Rightarrow> Inr \<lparr>ep_addr = [], ep_prefix = [], ep_dynamic = False, ep_absent = True,
                    ep_pos = npos n\<rparr>
      | Some p \<Rightarrow>
          if vkind (p_val p) = KStar
          then Inr \<lparr>ep_addr = [], ep_prefix = [], ep_dynamic = True, ep_absent = False,
                    ep_pos = vpos (p_val p)\<rparr>
          else if contains (vtext (p_val p)) ''/'' then
            bindR (wrap_err (\<lambda>er. ErrAt (vpos (p_val p)) (PropMsg (nname n) key er))
                     (parse_prefix_value (p_val p))) (\<lambda>pfx.
              Inr \<lparr>ep_addr = addr_string (pfx_addr pfx), ep_prefix = prefix_string pfx,
                   ep_dynamic = False, ep_absent = False, ep_pos = vpos (p_val p)\<rparr>)
          else
            bindR (wrap_err (\<lambda>er. ErrAt (vpos (p_val p)) (PropMsg (nname n) key er))
                     (parse_addr_value (p_val p))) (\<lambda>a.
              Inr \<lparr>ep_addr = addr_string a, ep_prefix = [],
                   ep_dynamic = False, ep_absent = False, ep_pos = vpos (p_val p)\<rparr>))"

definition ep_multicast :: "endpoint \<Rightarrow> bool" where
  "ep_multicast e =
     (if ep_addr e = [] then False
      else case parse_addr (ep_addr e) of None \<Rightarrow> False | Some a \<Rightarrow> is_multicast a)"

definition underlay_address :: "endpoint \<Rightarrow> string \<Rightarrow> script" where
  "underlay_address e dev =
     (if ep_prefix e = [] then []
      else [new_command (''the address this tunnel is built on must exist on '' @ dev)
              [''ip'', ''addr'', ''add'', ep_prefix e, ''dev'', dev]])"

definition endpoints :: "node \<Rightarrow> (string \<times> string) res" where
  "endpoints outer =
     bindR (get_prop outer Src) (\<lambda>src.
     bindR (require src (nname outer)) (\<lambda>l.
     bindR (get_prop outer Dst) (\<lambda>dst.
     if is_dynamic dst then err_at (value_pos dst) (LowerMsg (PointToPoint (nname outer)))
     else bindR (require dst (nname outer)) (\<lambda>rr.
       Inr (addr_string l, addr_string rr)))))"

definition addr_on :: "node \<Rightarrow> string \<Rightarrow> script res" where
  "addr_on n dev =
     bindR (address_of n) (\<lambda>a. if a = [] then Inr [] else Inr [address_command a dev])"

section \<open>The point-to-point tiles\<close>

definition link_add :: "string \<Rightarrow> string \<Rightarrow> string list" where
  "link_add dev typ = [''ip'', ''link'', ''add'', ''name'', dev, ''type'', typ]"

definition lower_ipip :: "spine \<Rightarrow> script lowering" where
  "lower_ipip sp =
     bindS (liftS (bindR (layer_at sp 0) endpoints)) (\<lambda>(local, remote).
     bindS (alloc ''ipip'') (\<lambda>dev.
     bindS (modS (enter dev)) (\<lambda>_.
     bindS (liftS (bindR (layer_at sp 1) (\<lambda>n. addr_on n dev))) (\<lambda>addr.
       retS ([new_command ''IPv4 inside IPv4 is an ipip device''
                (link_add dev ''ipip'' @ [''local'', local, ''remote'', remote])] @ addr)))))"

text \<open>The GRE key, as arguments; \<open>Get\<close> leaves them out for a \<open>*\<close> as for an absent key.\<close>

definition key_args :: "(32 word) pvalue \<Rightarrow> string list" where
  "key_args key = (case concrete key of None \<Rightarrow> [] | Some k \<Rightarrow> [''key'', u32 k])"

definition lower_gre :: "spine \<Rightarrow> script lowering" where
  "lower_gre sp =
     bindS (liftS (bindR (layer_at sp 0) endpoints)) (\<lambda>(local, remote).
     bindS (alloc ''gre'') (\<lambda>dev.
     bindS (liftS (bindR (layer_at sp 1) (\<lambda>n. get_prop n Key))) (\<lambda>key.
     bindS (modS (enter dev)) (\<lambda>_.
     bindS (liftS (bindR (layer_at sp 2) (\<lambda>n. addr_on n dev))) (\<lambda>addr.
       retS ([new_command ''IPv4 inside GRE is a routed gre device''
                (link_add dev ''gre'' @ [''local'', local, ''remote'', remote] @ key_args key)]
             @ addr))))))"

definition lower_gretap :: "spine \<Rightarrow> script lowering" where
  "lower_gretap sp =
     bindS (liftS (bindR (layer_at sp 0) endpoints)) (\<lambda>(local, remote).
     bindS (alloc ''gretap'') (\<lambda>dev.
     bindS (liftS (bindR (layer_at sp 1) (\<lambda>n. get_prop n Key))) (\<lambda>key.
     bindS (modS (enter dev)) (\<lambda>_.
       retS [new_command ''Ethernet inside GRE is a bridged gretap device''
               (link_add dev ''gretap'' @ [''local'', local, ''remote'', remote] @ key_args key)]))))"

section \<open>VLAN\<close>

definition lower_vlan :: "spine \<Rightarrow> script lowering" where
  "lower_vlan sp =
     bindS (liftS (layer_at sp 1)) (\<lambda>tag.
     bindS (liftS (get_prop tag VLANID)) (\<lambda>vid.
     if is_dynamic vid then failS (ErrAt (value_pos vid) (LowerMsg VlanStar))
     else bindS (liftS (require vid ''vlan'')) (\<lambda>n.
     bindS (getS e_dev) (\<lambda>parent.
     bindS (wrapS (\<lambda>er. ErrAt (npos tag) (WrapMsg er)) (claim (parent @ ''.'' @ u16 n))) (\<lambda>dev.
     bindS (getS e_dev) (\<lambda>parent.
     bindS (modS (enter dev)) (\<lambda>_.
       retS [new_command ''an 802.1Q tag inside Ethernet is a tagged interface on its parent''
               [''ip'', ''link'', ''add'', ''link'', parent, ''name'', dev, ''type'', ''vlan'',
                ''id'', u16 n]])))))))"

section \<open>VXLAN\<close>

text \<open>What \<open>lowerVXLAN\<close> reads and checks before it takes a name.\<close>

record vxlan_facts =
  vx_vni :: "(32 word) pvalue"
  vx_port :: "16 word"
  vx_local :: endpoint
  vx_remote :: endpoint

definition read_vxlan :: "node \<Rightarrow> node \<Rightarrow> node \<Rightarrow> vxlan_facts res" where
  "read_vxlan outer transport tunnel =
     bindR (get_prop tunnel VNI) (\<lambda>vni.
     if is_absent vni then err_at (npos tunnel) (LowerMsg VniMissing) else
     bindR (get_prop transport DstPort) (\<lambda>port.
     case port of
       PDynamic p _ \<Rightarrow> err_at p (LowerMsg PortStar)
     | PAbsent _ _ \<Rightarrow> err_at (npos transport) (LowerMsg PortMissing)
     | PConcrete p _ _ \<Rightarrow>
         bindR (read_endpoint outer ''src'') (\<lambda>local.
         if ep_absent local then err_at (npos outer) (LowerMsg (SrcMissing (nname outer))) else
         bindR (read_endpoint outer ''dst'') (\<lambda>remote.
         if ep_absent remote then err_at (npos outer) (LowerMsg (DstMissing (nname outer))) else
         Inr \<lparr>vx_vni = vni, vx_port = p, vx_local = local, vx_remote = remote\<rparr>))))"

definition vxlan_name :: "(32 word) pvalue \<Rightarrow> string lowering" where
  "vxlan_name vni =
     (case concrete vni of
        Some n \<Rightarrow> claim (''vxlan'' @ itoa (unat n))
      | None \<Rightarrow> alloc ''vxlan'')"

text \<open>The options and the explanation that each of the three fields adds.\<close>

definition vni_args :: "(32 word) pvalue \<Rightarrow> string list" where
  "vni_args vni = (case concrete vni of Some n \<Rightarrow> [''id'', u32 n] | None \<Rightarrow> [''external''])"

definition local_args :: "endpoint \<Rightarrow> string list" where
  "local_args ep = (if \<not> ep_dynamic ep then [''local'', ep_addr ep] else [])"

definition remote_args :: "endpoint \<Rightarrow> string list" where
  "remote_args ep =
     (if \<not> ep_dynamic ep
      then if ep_multicast ep then [''group'', ep_addr ep] else [''remote'', ep_addr ep]
      else [])"

definition vxlan_why :: "vxlan_facts \<Rightarrow> string" where
  "vxlan_why f =
     ''Ethernet inside VXLAN is a vxlan device''
     @ (case concrete (vx_vni f) of Some _ \<Rightarrow> []
        | None \<Rightarrow> ''; :vni '' @ sq ''*'' @ '' means one device for every VNI, driven by route metadata'')
     @ (if \<not> ep_dynamic (vx_local f) then []
        else ''; :src '' @ sq ''*'' @ '' leaves the source address to the underlay device'')
     @ (if \<not> ep_dynamic (vx_remote f)
        then if ep_multicast (vx_remote f)
             then ''; a multicast outer destination becomes a group rather than a remote'' else []
        else ''; :dst '' @ sq ''*'' @ '' means peers are learned rather than configured'')"

definition vxlan_argv :: "vxlan_facts \<Rightarrow> string \<Rightarrow> string \<Rightarrow> string list" where
  "vxlan_argv f dev parent =
     link_add dev ''vxlan'' @ vni_args (vx_vni f) @ local_args (vx_local f)
     @ remote_args (vx_remote f) @ [''dstport'', u16 (vx_port f), ''dev'', parent]"

definition lower_vxlan :: "spine \<Rightarrow> script lowering" where
  "lower_vxlan sp =
     bindS (liftS (layer_at sp 0)) (\<lambda>outer.
     bindS (liftS (layer_at sp 1)) (\<lambda>transport.
     bindS (liftS (layer_at sp 2)) (\<lambda>tunnel.
     bindS (liftS (read_vxlan outer transport tunnel)) (\<lambda>f.
     bindS (wrapS (\<lambda>er. ErrAt (npos tunnel) (WrapMsg er)) (vxlan_name (vx_vni f))) (\<lambda>dev.
     bindS (getS e_dev) (\<lambda>parent.
     bindS (modS (enter dev)) (\<lambda>_.
       retS (underlay_address (vx_local f) parent
             @ [new_command (vxlan_why f) (vxlan_argv f dev parent)]))))))))"

section \<open>WireGuard\<close>

definition join_host_port :: "string \<Rightarrow> 16 word \<Rightarrow> string" where
  "join_host_port a port =
     (if (case parse_addr a of Some x \<Rightarrow> is6 x | None \<Rightarrow> False)
      then ''['' @ a @ '']:'' @ u16 port
      else a @ '':'' @ u16 port)"

record wg_facts =
  wg_peer :: string
  wg_port :: "16 word"
  wg_endpoint :: endpoint
  wg_remote_port :: "16 word"
  wg_overlay :: ip_prefix

definition read_wireguard :: "node \<Rightarrow> node \<Rightarrow> node \<Rightarrow> node \<Rightarrow> wg_facts res" where
  "read_wireguard outer transport tunnel inner =
     bindR (get_prop tunnel Peer) (\<lambda>peer.
     bindR (wrap_err (\<lambda>_. ErrAt (npos tunnel) (LowerMsg PeerMissing))
              (require peer ''wireguard'')) (\<lambda>peer_name.
     bindR (get_prop transport SrcPort) (\<lambda>listen.
     bindR (wrap_err (\<lambda>_. ErrAt (npos transport) (LowerMsg ListenMissing))
              (require listen ''udp'')) (\<lambda>port.
     bindR (read_endpoint outer ''dst'') (\<lambda>endp.
     bindR (get_prop transport DstPort) (\<lambda>ep_port.
     bindR (get_prop inner SrcPrefix) (\<lambda>pfx.
     bindR (wrap_err (\<lambda>_. ErrAt (npos inner) (LowerMsg (InnerMissing (nname inner))))
              (require pfx (nname inner))) (\<lambda>overlay.
       Inr \<lparr>wg_peer = peer_name, wg_port = port, wg_endpoint = endp,
            wg_remote_port = (case concrete ep_port of Some q \<Rightarrow> q | None \<Rightarrow> port),
            wg_overlay = overlay\<rparr>))))))))"

definition peer_command :: "wg_facts \<Rightarrow> string \<Rightarrow> string \<Rightarrow> command" where
  "peer_command f key_dir dev =
     (let args = [''wg'', ''set'', dev, ''peer'',
                  ''$(cat '' @ key_dir @ ''/'' @ wg_peer f @ ''.pub)''];
          allowed = [''allowed-ips'', prefix_string (masked (wg_overlay f))]
      in if ep_dynamic (wg_endpoint f) \<or> ep_absent (wg_endpoint f)
         then new_command ''no endpoint: this peer is learned from its first handshake''
                (args @ allowed)
         else new_command (''the peer'' @ [char_squote] @ ''s endpoint on the underlay'')
                (args @ [''endpoint'', join_host_port (ep_addr (wg_endpoint f)) (wg_remote_port f)]
                 @ allowed))"

definition lower_wireguard :: "spine \<Rightarrow> script lowering" where
  "lower_wireguard sp =
     bindS (liftS (layer_at sp 0)) (\<lambda>outer.
     bindS (liftS (layer_at sp 1)) (\<lambda>transport.
     bindS (liftS (layer_at sp 2)) (\<lambda>tunnel.
     bindS (liftS (layer_at sp 3)) (\<lambda>inner.
     bindS (liftS (read_wireguard outer transport tunnel inner)) (\<lambda>f.
     bindS (wrapS (\<lambda>er. ErrAt (npos tunnel) (WrapMsg er)) (alloc ''wg'')) (\<lambda>dev.
     bindS (getS e_keydir) (\<lambda>key_dir.
     bindS (modS (enter dev)) (\<lambda>_.
     bindS (liftS (addr_on inner dev)) (\<lambda>addr.
       retS ([new_command ''IP inside WireGuard is a wireguard device'' (link_add dev ''wireguard''),
              new_command ''key material is machine state, not packet structure''
                [''wg'', ''set'', dev, ''listen-port'', u16 (wg_port f), ''private-key'',
                 key_dir @ ''/'' @ dev @ ''.key''],
              peer_command f key_dir dev] @ addr))))))))))"

section \<open>The tiles\<close>

definition plain_tile :: "string \<Rightarrow> string list \<Rightarrow> (spine \<Rightarrow> script lowering) \<Rightarrow> tile" where
  "plain_tile name pattern lower =
     \<lparr>t_name = name, t_pattern = pattern, t_priority = 0, t_guard = None, t_lower = Some lower\<rparr>"

definition IPIP :: tile where
  "IPIP = plain_tile ''IPIP'' [''ipv4'', ''ipv4''] lower_ipip"

definition GRE :: tile where
  "GRE = plain_tile ''GRE'' [''ipv4'', ''gre'', ''ipv4''] lower_gre"

definition GRETAP :: tile where
  "GRETAP = plain_tile ''GRETAP'' [''ipv4'', ''gre'', ''ethernet''] lower_gretap"

definition VLAN :: tile where
  "VLAN = plain_tile ''VLAN'' [''ethernet'', ''vlan''] lower_vlan"

definition VXLAN :: tile where
  "VXLAN = plain_tile ''VXLAN'' [''ipv4'', ''udp'', ''vxlan'', ''ethernet''] lower_vxlan"

definition WireGuard :: tile where
  "WireGuard = plain_tile ''WireGuard'' [''ipv4'', ''udp'', ''wireguard'', ''ipv4''] lower_wireguard"

definition target_name :: string where
  "target_name = ''linux-iproute2''"

definition linux_registry :: "registry res" where
  "linux_registry = new_registry target_name [IPIP, GRE, GRETAP, VXLAN, VLAN, WireGuard]"

section \<open>Each lowering keeps its contract\<close>

lemma names_Cons [simp]: "names (n # sp) = nname n # names sp"
  by (simp add: names_def)

lemma names_Nil [simp]: "names [] = []"
  by (simp add: names_def)

lemma names_eq_Nil [simp]: "names sp = [] \<longleftrightarrow> sp = []"
  by (simp add: names_def)

lemma names_eq_Cons: "names sp = w # ws \<longleftrightarrow> (\<exists>n rest. sp = n # rest \<and> nname n = w \<and> names rest = ws)"
  by (auto simp: names_def map_eq_Cons_conv)

lemma layer_at_simps [simp]:
  "layer_at (n # sp) 0 = Inr n" "layer_at (n # sp) (Suc i) = layer_at sp i"
  "layer_at (n # sp) (numeral k) = layer_at sp (pred_numeral k)"
  by (simp_all add: layer_at_def numeral_eq_Suc)

lemma read_endpoint_no_panic: "no_panic (read_endpoint n key)"
  unfolding read_endpoint_def
  by (auto simp: parsers_no_panic intro!: no_panic_bind no_panic_wrap split: option.split)

lemma endpoints_no_panic: "no_panic (endpoints n)"
  unfolding endpoints_def
  by (intro no_panic_bind vocabulary_no_panic require_no_panic)
     (auto intro!: no_panic_bind vocabulary_no_panic require_no_panic)

lemma addr_on_no_panic: "no_panic (addr_on n dev)"
  unfolding addr_on_def by (auto intro!: no_panic_bind address_of_no_panic)

lemma read_vxlan_no_panic: "no_panic (read_vxlan a b c)"
  unfolding read_vxlan_def
  by (auto intro!: no_panic_bind vocabulary_no_panic read_endpoint_no_panic split: pvalue.split)

lemma read_wireguard_no_panic: "no_panic (read_wireguard a b c d)"
  unfolding read_wireguard_def
  by (intro no_panic_bind vocabulary_no_panic read_endpoint_no_panic no_panic_wrap require_no_panic)
     auto

lemmas lowering_no_panic = endpoints_no_panic addr_on_no_panic read_vxlan_no_panic
  read_wireguard_no_panic vocabulary_no_panic require_no_panic

lemmas name_safe = claimed.request_safe allocated.request_safe

lemma vxlan_name_safe: "safeS (vxlan_name vni)"
  by (simp add: vxlan_name_def name_safe split: option.split)

lemma lower_ipip_safe: "names sp = t_pattern IPIP \<Longrightarrow> safeS (lower_ipip sp)"
  by (auto simp: IPIP_def plain_tile_def names_eq_Cons lower_ipip_def lowering_no_panic name_safe
      intro!: safe_intros)

lemma lower_gre_safe: "names sp = t_pattern GRE \<Longrightarrow> safeS (lower_gre sp)"
  by (auto simp: GRE_def plain_tile_def names_eq_Cons lower_gre_def lowering_no_panic name_safe
      intro!: safe_intros)

lemma lower_gretap_safe: "names sp = t_pattern GRETAP \<Longrightarrow> safeS (lower_gretap sp)"
  by (auto simp: GRETAP_def plain_tile_def names_eq_Cons lower_gretap_def lowering_no_panic name_safe
      intro!: safe_intros)

lemma lower_vlan_safe: "names sp = t_pattern VLAN \<Longrightarrow> safeS (lower_vlan sp)"
  by (auto simp: VLAN_def plain_tile_def names_eq_Cons lower_vlan_def lowering_no_panic name_safe
      intro!: safe_intros)

lemma lower_vxlan_safe: "names sp = t_pattern VXLAN \<Longrightarrow> safeS (lower_vxlan sp)"
  by (auto simp: VXLAN_def plain_tile_def names_eq_Cons lower_vxlan_def lowering_no_panic vxlan_name_safe
      intro!: safe_intros)

lemma lower_wireguard_safe: "names sp = t_pattern WireGuard \<Longrightarrow> safeS (lower_wireguard sp)"
  by (auto simp: WireGuard_def plain_tile_def names_eq_Cons lower_wireguard_def lowering_no_panic name_safe
      intro!: safe_intros)

text \<open>The commands that make one device and use it.\<close>

lemma builds_intro:
  assumes "env_ok e" "adds e d e'"
    and "device_op (argv c) = MakeDev d us" "set us \<subseteq> set (present e)"
    and "\<And>c'. c' \<in> set pre \<Longrightarrow> \<exists>u \<in> set (present e). device_op (argv c') = UseDev u"
    and "\<And>c'. c' \<in> set post \<Longrightarrow> device_op (argv c') = UseDev d"
  shows "builds e d (pre @ [c] @ post)"
proof -
  have pre: "run_devices pre \<lparr>m_devs = present e, m_up = up\<rparr> = Some \<lparr>m_devs = present e, m_up = up\<rparr>" for up
    using assms(5) by (induction pre) (fastforce simp: device_step_def)+
  have post: "run_devices post \<lparr>m_devs = ds @ [d], m_up = up\<rparr> = Some \<lparr>m_devs = ds @ [d], m_up = up\<rparr>"
    for ds up
    using assms(6) by (induction post) (auto simp: device_step_def)
  show ?thesis
    using adds_fresh [OF assms(1,2)] assms(3,4)
    by (simp add: builds_def run_devices_append pre post device_step_def)
qed

lemma addr_on_commands:
  "addr_on n dev = Inr cs \<Longrightarrow> c \<in> set cs \<Longrightarrow> device_op (argv c) = UseDev dev"
  by (auto simp: addr_on_def bindR_eq_Inr address_command_def new_command_def op_addr split: if_splits)

lemma argv_new_command [simp]: "argv (new_command w args) = args"
  by (simp add: new_command_def)

lemma op_link_add [simp]:
  "device_op (link_add dev typ @ opts) = MakeDev dev (under_dev (''type'' # typ # opts))"
  by (simp add: link_add_def device_op_def)

lemma alloc_adds: "alloc stem e = (Inr d, e1) \<Longrightarrow> adds e d (enter d e1)"
  by (rule allocated.request_enter)

lemma claim_adds: "claim n e = (Inr d, e1) \<Longrightarrow> adds e d (enter d e1)"
  by (rule claimed.request_enter)

lemma lower_ipip_builds:
  assumes "lower_ipip sp e = (Inr cmds, e')" "env_ok e"
  shows "\<exists>d. adds e d e' \<and> builds e d cmds"
proof -
  from assms(1) obtain loc rem d e1 addr n where
    d: "alloc ''ipip'' e = (Inr d, e1)" "e' = enter d e1" "addr_on n d = Inr addr"
      "cmds = [] @ [new_command ''IPv4 inside IPv4 is an ipip device''
          (link_add d ''ipip'' @ [''local'', loc, ''remote'', rem])] @ addr"
    by (auto simp: lower_ipip_def est_simps res_simps)
  have "builds e d cmds" unfolding d(4)
    by (rule builds_intro [OF assms(2) alloc_adds [OF d(1)]])
       (auto simp: under_dev_def addr_on_commands [OF d(3)])
  with d alloc_adds show ?thesis by blast
qed

lemma lower_gre_builds:
  assumes "lower_gre sp e = (Inr cmds, e')" "env_ok e"
  shows "\<exists>d. adds e d e' \<and> builds e d cmds"
proof -
  from assms(1) obtain loc rem d e1 addr n key where
    d: "alloc ''gre'' e = (Inr d, e1)" "e' = enter d e1" "addr_on n d = Inr addr"
      "cmds = [] @ [new_command ''IPv4 inside GRE is a routed gre device''
          (link_add d ''gre'' @ [''local'', loc, ''remote'', rem] @ key_args key)] @ addr"
    by (auto simp: lower_gre_def est_simps res_simps)
  have "builds e d cmds" unfolding d(4)
    by (rule builds_intro [OF assms(2) alloc_adds [OF d(1)]])
       (auto simp: under_dev_def key_args_def addr_on_commands [OF d(3)] split: option.splits)
  with d alloc_adds show ?thesis by blast
qed

lemma lower_gretap_builds:
  assumes "lower_gretap sp e = (Inr cmds, e')" "env_ok e"
  shows "\<exists>d. adds e d e' \<and> builds e d cmds"
proof -
  from assms(1) obtain loc rem d e1 key where
    d: "alloc ''gretap'' e = (Inr d, e1)" "e' = enter d e1"
      "cmds = [] @ [new_command ''Ethernet inside GRE is a bridged gretap device''
          (link_add d ''gretap'' @ [''local'', loc, ''remote'', rem] @ key_args key)] @ []"
    by (auto simp: lower_gretap_def est_simps res_simps)
  have "builds e d cmds" unfolding d(3)
    by (rule builds_intro [OF assms(2) alloc_adds [OF d(1)]])
       (auto simp: under_dev_def key_args_def split: option.splits)
  with d alloc_adds show ?thesis by blast
qed

lemma claim_frame: "claim n e = (Inr d, e1) \<Longrightarrow> d = n \<and> e_dev e1 = e_dev e"
  using claimed.request_frame [of n e "Inr d" e1]
  by (auto simp: claim_def split: sum.splits if_splits)

lemma lower_vlan_builds:
  assumes "lower_vlan sp e = (Inr cmds, e')" "env_ok e"
  shows "\<exists>d. adds e d e' \<and> builds e d cmds"
proof -
  from assms(1) obtain d e1 n k where
    d: "claim n e = (Inr d, e1)" "e' = enter d e1"
      "cmds = [] @ [new_command ''an 802.1Q tag inside Ethernet is a tagged interface on its parent''
               [''ip'', ''link'', ''add'', ''link'', e_dev e1, ''name'', d, ''type'', ''vlan'',
                ''id'', k]] @ []"
    by (auto simp: lower_vlan_def est_simps res_simps split: if_splits)
  have "builds e d cmds" unfolding d(3)
    by (rule builds_intro [OF assms(2) claim_adds [OF d(1)], where us = "[e_dev e1]"])
       (use dev_present [OF assms(2)] claim_frame [OF d(1)] in \<open>auto simp: op_add_link\<close>)
  with d claim_adds show ?thesis by blast
qed

lemma vxlan_name_adds:
  "vxlan_name vni e = (Inr d, e1) \<Longrightarrow> adds e d (enter d e1) \<and> e_dev e1 = e_dev e"
  by (auto simp: vxlan_name_def claim_adds alloc_adds claim_frame split: option.splits
      dest: allocated.request_frame)

lemma lower_vxlan_builds:
  assumes "lower_vxlan sp e = (Inr cmds, e')" "env_ok e"
  shows "\<exists>d. adds e d e' \<and> builds e d cmds"
proof -
  from assms(1) obtain d e1 f where
    d: "vxlan_name (vx_vni f) e = (Inr d, e1)" "e' = enter d e1"
      "cmds = underlay_address (vx_local f) (e_dev e1)
          @ [new_command (vxlan_why f) (vxlan_argv f d (e_dev e1))] @ []"
    by (auto simp: lower_vxlan_def est_simps res_simps)
  note n = vxlan_name_adds [OF d(1)]
  have "builds e d cmds" unfolding d(3)
  proof (rule builds_intro [OF assms(2) conjunct1 [OF n], where us = "[e_dev e1]"])
    show "device_op (argv (new_command (vxlan_why f) (vxlan_argv f d (e_dev e1))))
        = MakeDev d [e_dev e1]"
      by (simp add: vxlan_argv_def under_dev_def)
  qed (use dev_present [OF assms(2)] n in \<open>auto simp: underlay_address_def op_addr split: if_splits\<close>)
  with d n show ?thesis by blast
qed

lemma lower_wireguard_builds:
  assumes "lower_wireguard sp e = (Inr cmds, e')" "env_ok e"
  shows "\<exists>d. adds e d e' \<and> builds e d cmds"
proof -
  from assms(1) obtain d e1 addr n k key f where
    d: "alloc ''wg'' e = (Inr d, e1)" "e' = enter d e1" "addr_on n d = Inr addr"
      "cmds = [] @ [new_command ''IP inside WireGuard is a wireguard device'' (link_add d ''wireguard'')]
          @ ([new_command ''key material is machine state, not packet structure''
                [''wg'', ''set'', d, ''listen-port'', k, ''private-key'', key],
              peer_command f (e_keydir e1) d] @ addr)"
    by (auto simp: lower_wireguard_def est_simps res_simps)
  have peer: "device_op (argv (peer_command f kd d)) = UseDev d" for kd
    by (simp add: peer_command_def Let_def op_wg)
  have "builds e d cmds" unfolding d(4)
  proof (rule builds_intro [OF assms(2) alloc_adds [OF d(1)], where us = "[]"])
    show "device_op (argv (new_command ''IP inside WireGuard is a wireguard device''
        (link_add d ''wireguard''))) = MakeDev d []"
      using op_link_add [of d "''wireguard''" "[]"] by (simp add: under_dev_def)
  qed (use addr_on_commands [OF d(3)] peer in \<open>auto simp: op_wg\<close>)
  with d alloc_adds show ?thesis by blast
qed

section \<open>The registry\<close>

text \<open>\<open>Registry()\<close> succeeds, with the six tiles.\<close>

definition linux :: registry where
  "linux = \<lparr>r_target = target_name, r_tiles = [IPIP, GRE, GRETAP, VXLAN, VLAN, WireGuard]\<rparr>"

lemmas tile_defs = IPIP_def GRE_def GRETAP_def VXLAN_def VLAN_def WireGuard_def plain_tile_def

lemma linux_tiles_checked: "check_tiles Map.empty [IPIP, GRE, GRETAP, VXLAN, VLAN, WireGuard] = Inr ()"
  by code_simp

lemma linux_registry_eq: "linux_registry = Inr linux"
  by (simp add: linux_registry_def new_registry_def linux_def linux_tiles_checked
      del: check_tiles.simps)

definition apart :: "tile \<Rightarrow> tile \<Rightarrow> bool" where
  "apart t u \<longleftrightarrow> \<not> prefix (t_pattern t) (t_pattern u) \<and> \<not> prefix (t_pattern u) (t_pattern t)"

lemma apart_tiles:
  "sorted_wrt apart ts \<Longrightarrow> t \<in> set ts \<Longrightarrow> u \<in> set ts \<Longrightarrow> prefix (t_pattern t) (t_pattern u)
     \<Longrightarrow> t = u"
  by (induction ts) (auto simp: apart_def)

lemma linux_apart: "sorted_wrt apart (r_tiles linux)"
  by code_simp

interpretation linux: unambiguous linux
proof (unfold_locales, goal_cases)
  case (1 t)
  then show ?case by (auto simp: linux_def tile_defs)
next
  case (2 t)
  then show ?case by (auto simp: linux_def tile_defs)
next
  case (3 t u)
  then show ?case using apart_tiles [OF linux_apart] by blast
qed

interpretation linux: tile_contract linux
proof (unfold_locales, goal_cases)
  case (1 t f sub e res e')
  then have "safeS (f sub)"
    using lower_ipip_safe lower_gre_safe lower_gretap_safe lower_vlan_safe lower_vxlan_safe
      lower_wireguard_safe
    by (auto simp: linux_def tile_defs)
  with 1 show ?case by (metis fst_conv safeS_def)
next
  case (2 t f sub e cmds e')
  then show ?case
    using lower_ipip_builds lower_gre_builds lower_gretap_builds lower_vlan_builds
      lower_vxlan_builds lower_wireguard_builds
    by (auto simp: linux_def tile_defs)
qed

section \<open>Properties\<close>

text \<open>
  How the options of \<open>ip link add\<close> read: \<open>external\<close> stands alone, every other one has a value.
\<close>

fun link_options :: "string list \<Rightarrow> (string \<times> string) list" where
  "link_options [] = []"
| "link_options (k # rest) =
     (if k = ''external'' then (k, []) # link_options rest
      else case rest of [] \<Rightarrow> [(k, [])] | v # rest' \<Rightarrow> (k, v) # link_options rest')"

text \<open>The value of an option of the last command of a script.\<close>

definition link_option :: "script \<Rightarrow> string \<Rightarrow> string option" where
  "link_option s k = map_of (link_options (drop 7 (argv (last s)))) k"

lemma vxlan_options:
  "link_options (vni_args vni @ local_args s @ remote_args d @ [''dstport'', p, ''dev'', parent])
     = (case concrete vni of Some n \<Rightarrow> [(''id'', u32 n)] | None \<Rightarrow> [(''external'', [])])
       @ (if ep_dynamic s then [] else [(''local'', ep_addr s)])
       @ (if ep_dynamic d then [] else [(if ep_multicast d then ''group'' else ''remote'', ep_addr d)])
       @ [(''dstport'', p), (''dev'', parent)]"
  by (auto simp: vni_args_def local_args_def remote_args_def split: option.split)

lemma lower_vxlan_Inr:
  assumes "lower_vxlan sp e = (Inr cmds, e')"
  obtains outer transport tunnel f dev e1 where
    "layer_at sp 0 = Inr outer" "layer_at sp 1 = Inr transport" "layer_at sp 2 = Inr tunnel"
    "read_vxlan outer transport tunnel = Inr f" "vxlan_name (vx_vni f) e = (Inr dev, e1)"
    "e' = enter dev e1" "e_dev e1 = e_dev e"
    "cmds = underlay_address (vx_local f) (e_dev e) @ [new_command (vxlan_why f) (vxlan_argv f dev (e_dev e))]"
proof -
  from assms obtain outer transport tunnel f dev e1 where *:
    "layer_at sp 0 = Inr outer" "layer_at sp 1 = Inr transport" "layer_at sp 2 = Inr tunnel"
    "read_vxlan outer transport tunnel = Inr f" "vxlan_name (vx_vni f) e = (Inr dev, e1)"
    "e' = enter dev e1"
    "cmds = underlay_address (vx_local f) (e_dev e1) @ [new_command (vxlan_why f) (vxlan_argv f dev (e_dev e1))]"
    by (auto simp: lower_vxlan_def est_simps)
  moreover have "e_dev e1 = e_dev e" using vxlan_name_adds [OF *(5)] by simp
  ultimately show thesis using that by simp
qed

lemma read_vxlan_Inr:
  assumes "read_vxlan outer transport tunnel = Inr f"
  shows "get_prop tunnel VNI = Inr (vx_vni f) \<and> \<not> is_absent (vx_vni f)
    \<and> (\<exists>p k. get_prop transport DstPort = Inr (PConcrete (vx_port f) p k))
    \<and> read_endpoint outer ''src'' = Inr (vx_local f) \<and> \<not> ep_absent (vx_local f)
    \<and> read_endpoint outer ''dst'' = Inr (vx_remote f) \<and> \<not> ep_absent (vx_remote f)"
proof -
  from assms obtain vni port where vni: "get_prop tunnel VNI = Inr vni"
    and port: "get_prop transport DstPort = Inr port"
    by (auto simp: read_vxlan_def bindR_eq_Inr split: if_splits)
  with assms obtain p q k where "port = PConcrete p q k"
    by (cases port) (auto simp: read_vxlan_def split: if_splits)
  with vni port assms show ?thesis
    by (auto simp: read_vxlan_def bindR_eq_Inr split: if_splits)
qed

lemma read_endpoint_absent: "read_endpoint n k = Inr ep \<Longrightarrow> ep_absent ep \<longleftrightarrow> lookup n k = None"
  by (auto simp: read_endpoint_def bindR_eq_Inr split: option.splits if_splits)

text \<open>The options of the device, by the three states of the fields.\<close>

lemma vxlan_link:
  assumes "lower_vxlan sp e = (Inr cmds, e')"
  obtains outer transport tunnel f where
    "layer_at sp 0 = Inr outer" "layer_at sp 1 = Inr transport" "layer_at sp 2 = Inr tunnel"
    "read_vxlan outer transport tunnel = Inr f"
    "link_option cmds ''id'' = map_option u32 (concrete (vx_vni f))"
    "link_option cmds ''external'' \<noteq> None \<longleftrightarrow> is_dynamic (vx_vni f)"
    "link_option cmds ''local''
      = (if ep_dynamic (vx_local f) then None else Some (ep_addr (vx_local f)))"
    "link_option cmds ''group'' = (if \<not> ep_dynamic (vx_remote f) \<and> ep_multicast (vx_remote f)
          then Some (ep_addr (vx_remote f)) else None)"
    "link_option cmds ''remote'' = (if \<not> ep_dynamic (vx_remote f) \<and> \<not> ep_multicast (vx_remote f)
          then Some (ep_addr (vx_remote f)) else None)"
    "link_option cmds ''dstport'' = Some (u16 (vx_port f))"
    "link_option cmds ''dev'' = Some (e_dev e)"
proof -
  from assms obtain outer transport tunnel f dev e1 where *:
    "layer_at sp 0 = Inr outer" "layer_at sp 1 = Inr transport" "layer_at sp 2 = Inr tunnel"
    "read_vxlan outer transport tunnel = Inr f"
    "cmds = underlay_address (vx_local f) (e_dev e) @ [new_command (vxlan_why f) (vxlan_argv f dev (e_dev e))]"
    by (rule lower_vxlan_Inr)
  note f = read_vxlan_Inr [OF *(4)]
  have opts: "link_option cmds k = map_of
       ((case concrete (vx_vni f) of Some n \<Rightarrow> [(''id'', u32 n)] | None \<Rightarrow> [(''external'', [])])
       @ (if ep_dynamic (vx_local f) then [] else [(''local'', ep_addr (vx_local f))])
       @ (if ep_dynamic (vx_remote f) then []
          else [(if ep_multicast (vx_remote f) then ''group'' else ''remote'', ep_addr (vx_remote f))])
       @ [(''dstport'', u16 (vx_port f)), (''dev'', e_dev e)]) k" for k
    by (simp add: link_option_def *(5) vxlan_argv_def link_add_def flip: vxlan_options)
  have dyn: "is_dynamic (vx_vni f) \<longleftrightarrow> concrete (vx_vni f) = None"
    using f by (cases "vx_vni f") (auto simp: is_dynamic_def is_absent_def state_of_def concrete_def)
  have modes: "link_option cmds ''id'' = map_option u32 (concrete (vx_vni f))"
    "link_option cmds ''external'' \<noteq> None \<longleftrightarrow> is_dynamic (vx_vni f)"
    "link_option cmds ''local'' = (if ep_dynamic (vx_local f) then None else Some (ep_addr (vx_local f)))"
    "link_option cmds ''group'' = (if \<not> ep_dynamic (vx_remote f) \<and> ep_multicast (vx_remote f)
          then Some (ep_addr (vx_remote f)) else None)"
    "link_option cmds ''remote'' = (if \<not> ep_dynamic (vx_remote f) \<and> \<not> ep_multicast (vx_remote f)
          then Some (ep_addr (vx_remote f)) else None)"
    "link_option cmds ''dstport'' = Some (u16 (vx_port f))"
    "link_option cmds ''dev'' = Some (e_dev e)"
    by (cases "concrete (vx_vni f)"; cases "ep_dynamic (vx_local f)"; cases "ep_dynamic (vx_remote f)";
        cases "ep_multicast (vx_remote f)"; simp add: opts dyn)+
  from *(1-4) modes show thesis by (rule that)
qed

text \<open>
  C4. Each field of a VXLAN stack selects one mode of the device, and none may be left out: a stack that
  lowers has a \<open>:vni\<close>, a \<open>:src\<close>, a \<open>:dst\<close> and a concrete \<open>:dst-port\<close>. A concrete \<open>:vni\<close> gives an
  \<open>id\<close> and a \<open>*\<close> gives \<open>external\<close>, never both; a concrete \<open>:src\<close> gives \<open>local\<close> and a \<open>*\<close> leaves it out;
  a concrete \<open>:dst\<close> gives \<open>group\<close> when it is multicast and \<open>remote\<close> otherwise, and a \<open>*\<close> gives
  neither; the port is always explicit and the device is always put on the current one.
\<close>

theorem vxlan_modes:
  assumes "lower_vxlan sp e = (Inr cmds, e')"
  shows "\<exists>outer transport tunnel vni port s d.
    layer_at sp 0 = Inr outer \<and> layer_at sp 1 = Inr transport \<and> layer_at sp 2 = Inr tunnel
    \<and> get_prop tunnel VNI = Inr vni \<and> \<not> is_absent vni
    \<and> (\<exists>p k. get_prop transport DstPort = Inr (PConcrete port p k))
    \<and> lookup tunnel ''vni'' \<noteq> None \<and> lookup outer ''src'' \<noteq> None \<and> lookup outer ''dst'' \<noteq> None
    \<and> read_endpoint outer ''src'' = Inr s \<and> read_endpoint outer ''dst'' = Inr d
    \<and> \<not> ep_absent s \<and> \<not> ep_absent d
    \<and> link_option cmds ''id'' = map_option u32 (concrete vni)
    \<and> (link_option cmds ''external'' \<noteq> None \<longleftrightarrow> is_dynamic vni)
    \<and> link_option cmds ''local'' = (if ep_dynamic s then None else Some (ep_addr s))
    \<and> link_option cmds ''group''
        = (if \<not> ep_dynamic d \<and> ep_multicast d then Some (ep_addr d) else None)
    \<and> link_option cmds ''remote''
        = (if \<not> ep_dynamic d \<and> \<not> ep_multicast d then Some (ep_addr d) else None)
    \<and> link_option cmds ''dstport'' = Some (u16 port) \<and> link_option cmds ''dev'' = Some (e_dev e)"
proof -
  from assms obtain outer transport tunnel f where
    *: "layer_at sp 0 = Inr outer" "layer_at sp 1 = Inr transport" "layer_at sp 2 = Inr tunnel"
      "read_vxlan outer transport tunnel = Inr f"
    and modes: "link_option cmds ''id'' = map_option u32 (concrete (vx_vni f))"
      "link_option cmds ''external'' \<noteq> None \<longleftrightarrow> is_dynamic (vx_vni f)"
      "link_option cmds ''local''
        = (if ep_dynamic (vx_local f) then None else Some (ep_addr (vx_local f)))"
      "link_option cmds ''group'' = (if \<not> ep_dynamic (vx_remote f) \<and> ep_multicast (vx_remote f)
            then Some (ep_addr (vx_remote f)) else None)"
      "link_option cmds ''remote'' = (if \<not> ep_dynamic (vx_remote f) \<and> \<not> ep_multicast (vx_remote f)
            then Some (ep_addr (vx_remote f)) else None)"
      "link_option cmds ''dstport'' = Some (u16 (vx_port f))"
      "link_option cmds ''dev'' = Some (e_dev e)"
    by (rule vxlan_link)
  note f = read_vxlan_Inr [OF *(4)]
  from f obtain p k where fs: "get_prop tunnel VNI = Inr (vx_vni f)" "\<not> is_absent (vx_vni f)"
    "get_prop transport DstPort = Inr (PConcrete (vx_port f) p k)"
    "read_endpoint outer ''src'' = Inr (vx_local f)" "read_endpoint outer ''dst'' = Inr (vx_remote f)"
    "\<not> ep_absent (vx_local f)" "\<not> ep_absent (vx_remote f)"
    by blast
  have "lookup tunnel ''vni'' \<noteq> None"
  proof
    assume "lookup tunnel ''vni'' = None"
    with fs(1) have eq: "PAbsent (npos tunnel) ''vni'' = vx_vni f" by (simp add: get_prop_def VNI_def)
    from fs(2) show False unfolding eq [symmetric] by (simp add: is_absent_def state_of_def)
  qed
  note given = this fs(6) [unfolded read_endpoint_absent [OF fs(4)]] fs(7) [unfolded read_endpoint_absent [OF fs(5)]]
  show ?thesis by (intro exI conjI) (fact *(1-3) fs given modes)+
qed

end
