(* ===== verification/Mirror.thy ===== *)
theory Mirror
  imports Spine
begin

text \<open>
  The far end of a tunnel (\<open>src/mirror/mirror.go\<close>). The code clones the tree and then writes the
  properties of its layers through pointers; the layers are the single-child chain below the
  packet, so a write to every layer is \<open>map_chain\<close>, a write to the \<open>k\<close>-th one is \<open>on_layer k\<close>, and
  the pointers themselves are positions in the chain.
\<close>

section \<open>The chain of layers\<close>

fun clone :: "node \<Rightarrow> node" where
  "clone (Node n ps cs p) = Node n ps (map clone cs) p"

fun spine_of :: "node \<Rightarrow> node list" where
  "spine_of (Node n ps cs p) =
     Node n ps cs p # (case cs of [c] \<Rightarrow> spine_of c | _ \<Rightarrow> [])"

fun map_chain :: "(node \<Rightarrow> property list) \<Rightarrow> node \<Rightarrow> node" where
  "map_chain g (Node n ps cs p) =
     Node n (g (Node n ps cs p)) (case cs of [c] \<Rightarrow> [map_chain g c] | _ \<Rightarrow> cs) p"

fun on_layer :: "nat \<Rightarrow> (node \<Rightarrow> property list) \<Rightarrow> node \<Rightarrow> node" where
  "on_layer 0 g (Node n ps cs p) = Node n (g (Node n ps cs p)) cs p"
| "on_layer (Suc k) g (Node n ps cs p) =
     Node n ps (case cs of [c] \<Rightarrow> [on_layer k g c] | _ \<Rightarrow> cs) p"

section \<open>Exchanging the two ends of a layer\<close>

definition split_prefix :: "sval \<Rightarrow> string \<times> string" where
  "split_prefix v =
     (if vkind v = KStar then ([], [])
      else case index_byte (CHR ''/'') (vtext v) of
             Some i \<Rightarrow> (take i (vtext v), drop (i + 1) (vtext v))
           | None \<Rightarrow> (vtext v, []))"

definition rebuild :: "sval \<Rightarrow> string \<Rightarrow> string \<Rightarrow> sval" where
  "rebuild orig addr len =
     (if vkind orig = KStar \<or> addr = [] then orig
      else SVal KString (if len \<noteq> [] then addr @ ''/'' @ len else addr) [] (vpos orig))"

definition new_src :: "sval \<Rightarrow> sval \<Rightarrow> sval" where
  "new_src s d = rebuild d (fst (split_prefix d)) (snd (split_prefix s))"

definition new_dst :: "sval \<Rightarrow> sval \<Rightarrow> sval" where
  "new_dst s d = rebuild s (fst (split_prefix s)) (snd (split_prefix d))"

definition exchange :: "sval \<Rightarrow> sval \<Rightarrow> property \<Rightarrow> property" where
  "exchange s d q =
     (if p_key q = ''src'' then q\<lparr>p_val := new_src s d\<rparr>
      else if p_key q = ''dst'' then q\<lparr>p_val := new_dst s d\<rparr>
      else q)"

definition two_ended :: "node \<Rightarrow> bool" where
  "two_ended n \<longleftrightarrow> lookup n ''src'' \<noteq> None \<and> lookup n ''dst'' \<noteq> None"

definition swap_endpoints :: "node \<Rightarrow> property list" where
  "swap_endpoints n =
     (case (lookup n ''src'', lookup n ''dst'') of
        (Some s, Some d) \<Rightarrow> map (exchange (p_val s) (p_val d)) (nprops n)
      | _ \<Rightarrow> nprops n)"

section \<open>Setting and dropping a property\<close>

fun set_prop :: "pos \<Rightarrow> string \<Rightarrow> string \<Rightarrow> property list \<Rightarrow> property list" where
  "set_prop p key text [] = [\<lparr>p_key = key, p_val = SVal KString text [] p, p_pos = p\<rparr>]"
| "set_prop p key text (q # qs) =
     (if p_key q = key
      then q\<lparr>p_val := SVal KString text [] (vpos (p_val q))\<rparr> # qs
      else q # set_prop p key text qs)"

definition remove_prop :: "string \<Rightarrow> property list \<Rightarrow> property list" where
  "remove_prop key ps = filter (\<lambda>q. p_key q \<noteq> key) ps"

text \<open>The deepest layer that carries an address, as its position in the chain.\<close>

definition addressed :: "node \<Rightarrow> bool" where
  "addressed n \<longleftrightarrow> (nname n = ''ipv4'' \<or> nname n = ''ipv6'')
     \<and> (case lookup n ''src'' of
          None \<Rightarrow> False
        | Some p \<Rightarrow> (case parse_prefix_value (p_val p) of Inl _ \<Rightarrow> False | Inr _ \<Rightarrow> True))"

fun innermost_from :: "nat \<Rightarrow> node list \<Rightarrow> nat option" where
  "innermost_from 0 layers = None"
| "innermost_from (Suc i) layers =
     (if addressed (layers ! i) then Some i else innermost_from i layers)"

definition innermost_addressed :: "node list \<Rightarrow> nat option" where
  "innermost_addressed layers = innermost_from (length layers) layers"

section \<open>Peer\<close>

record mirror_result =
  m_tree :: node
  m_supplied :: "string list"
  m_missing :: "string list"

definition same_keys :: "string list" where
  "same_keys = [''vni'', ''key'', ''spi'']"

definition swapped_notes :: "node list \<Rightarrow> string list" where
  "swapped_notes layers =
     map (\<lambda>n. '':src and :dst exchanged on '' @ in_form (nname n)) (filter two_ended layers)"

definition same_notes :: "node list \<Rightarrow> string list" where
  "same_notes layers =
     concat (map (\<lambda>n. concat (map (\<lambda>key.
       if lookup n key \<noteq> None
       then ['':'' @ key @ '' on '' @ in_form (nname n) @ '' is the same at both ends'']
       else []) same_keys)) layers)"

definition key_notes :: "(nat \<Rightarrow> bool) \<Rightarrow> node list \<Rightarrow> string list" where
  "key_notes q layers =
     concat (map (\<lambda>n.
       if nname n \<noteq> ''wireguard'' then []
       else [''key material on '' @ in_form (nname n) @ '': each end holds its own private key and needs the other''
               @ [char_squote] @ ''s public key, which no reading of this tree can supply'']
         @ (case lookup n ''peer'' of
              None \<Rightarrow> []
            | Some p \<Rightarrow> ['':peer '' @ quote_go q (vtext (p_val p)) @ '' names this end''
                @ [char_squote] @ ''s view of the far end; the far end needs a name for this one'']))
       layers)"

text \<open>The packet inside a \<open>configure\<close> wrapper, and the tree with its packet replaced.\<close>

definition packet_of :: "node \<Rightarrow> node" where
  "packet_of tree =
     (case nchildren tree of
        [c] \<Rightarrow> if nname tree = ''configure'' then c else tree
      | _ \<Rightarrow> tree)"

definition with_packet :: "node \<Rightarrow> node \<Rightarrow> node" where
  "with_packet tree packet =
     (case nchildren tree of
        [c] \<Rightarrow> if nname tree = ''configure''
               then Node (nname tree) (nprops tree) [packet] (npos tree) else packet
      | _ \<Rightarrow> packet)"

definition finish_inner :: "string \<Rightarrow> node \<Rightarrow> node \<times> string list \<times> string list" where
  "finish_inner inner_addr packet =
     (let layers = spine_of packet in
      case innermost_addressed layers of
        None \<Rightarrow> (packet, [], [])
      | Some k \<Rightarrow>
          (let name = nname (layers ! k) in
           if inner_addr \<noteq> []
           then (on_layer k (\<lambda>n. set_prop (npos n) ''src'' inner_addr (nprops n)) packet,
                 [''inner address on '' @ in_form name @ '' set to '' @ inner_addr], [])
           else (on_layer k (\<lambda>n. remove_prop ''src'' (nprops n)) packet, [],
                 [''inner address on '' @ in_form name @ '': both ends share the prefix and ''
                   @ ''differ in the host part, which this tree does not contain''])))"

definition check_inner :: "string \<Rightarrow> unit res" where
  "check_inner inner_addr =
     (if inner_addr = [] then Inr ()
      else bindR (wrap_err (\<lambda>er. ErrPlain (PeerInnerMsg er))
                    (parse_prefix_value (SVal KString inner_addr [] no_pos))) (\<lambda>_. Inr ()))"

definition peer :: "(nat \<Rightarrow> bool) \<Rightarrow> node \<Rightarrow> string \<Rightarrow> mirror_result res" where
  "peer q root inner_addr =
     bindR (check_inner inner_addr) (\<lambda>_.
     let tree = clone root;
         packet = packet_of tree;
         layers = spine_of packet
     in if layers = [] then err_plain (CmdMsg Nothing)
        else if filter two_ended layers = []
        then bindR (layer_at layers 0) (\<lambda>n. err_at (npos n) (CmdMsg (OneEnded (nname n))))
        else let packet1 = map_chain swap_endpoints packet;
                 (packet2, supplied, missing) = finish_inner inner_addr packet1
             in Inr \<lparr>m_tree = with_packet tree packet2,
                     m_supplied = swapped_notes layers @ same_notes (spine_of packet1) @ supplied,
                     m_missing = key_notes q (spine_of packet1) @ missing\<rparr>)"

section \<open>What the mirror keeps\<close>

text \<open>
  A tree without the two endpoint properties of its layers: everything the mirror must not touch.
\<close>

fun skeleton :: "node \<Rightarrow> node" where
  "skeleton (Node n ps cs p) =
     Node n (filter (\<lambda>q. p_key q \<noteq> ''src'' \<and> p_key q \<noteq> ''dst'') ps) (map skeleton cs) p"

definition keeps_rest :: "(node \<Rightarrow> property list) \<Rightarrow> bool" where
  "keeps_rest g \<longleftrightarrow> (\<forall>n. filter (\<lambda>q. p_key q \<noteq> ''src'' \<and> p_key q \<noteq> ''dst'') (g n)
      = filter (\<lambda>q. p_key q \<noteq> ''src'' \<and> p_key q \<noteq> ''dst'') (nprops n))"

lemma clone_same [simp]: "clone n = n"
  by (induction n) (simp add: map_idI)

lemma skeleton_map_chain: "keeps_rest g \<Longrightarrow> skeleton (map_chain g n) = skeleton n"
  by (induction g n rule: map_chain.induct) (auto simp: keeps_rest_def split: list.split)

lemma skeleton_on_layer: "keeps_rest g \<Longrightarrow> skeleton (on_layer k g n) = skeleton n"
  by (induction k g n rule: on_layer.induct) (auto simp: keeps_rest_def split: list.split)

lemma exchange_key [simp]: "p_key (exchange s d q) = p_key q"
  by (simp add: exchange_def)

lemma filter_exchange:
  "filter (\<lambda>q. p_key q \<noteq> ''src'' \<and> p_key q \<noteq> ''dst'') (map (exchange s d) ps)
     = filter (\<lambda>q. p_key q \<noteq> ''src'' \<and> p_key q \<noteq> ''dst'') ps"
  by (induction ps) (auto simp: exchange_def)

lemma swap_keeps_rest: "keeps_rest swap_endpoints"
  by (auto simp: keeps_rest_def swap_endpoints_def filter_exchange split: option.split)

lemma set_src_keeps_rest: "keeps_rest (\<lambda>n. set_prop (npos n) ''src'' t (nprops n))"
proof -
  have "filter (\<lambda>q. p_key q \<noteq> ''src'' \<and> p_key q \<noteq> ''dst'') (set_prop p ''src'' t ps)
      = filter (\<lambda>q. p_key q \<noteq> ''src'' \<and> p_key q \<noteq> ''dst'') ps" for p ps
    by (induction p "''src''" t ps rule: set_prop.induct) auto
  then show ?thesis by (simp add: keeps_rest_def)
qed

lemma remove_src_keeps_rest: "keeps_rest (\<lambda>n. remove_prop ''src'' (nprops n))"
  by (auto simp: keeps_rest_def remove_prop_def intro!: filter_cong)

lemma finish_inner_skeleton: "finish_inner inner n = (n', sps, mis) \<Longrightarrow> skeleton n' = skeleton n"
  by (auto simp: finish_inner_def Let_def skeleton_on_layer set_src_keeps_rest
      remove_src_keeps_rest split: option.splits if_splits)

lemma with_packet_skeleton:
  "skeleton n = skeleton (packet_of tree) \<Longrightarrow> skeleton (with_packet tree n) = skeleton tree"
  by (cases tree) (auto simp: with_packet_def packet_of_def split: list.splits if_splits)

lemma peer_Inr:
  assumes "peer q root inner = Inr res"
  obtains packet2 sps mis where
    "finish_inner inner (map_chain swap_endpoints (packet_of root)) = (packet2, sps, mis)"
    "m_tree res = with_packet root packet2"
    "m_missing res = key_notes q (spine_of (map_chain swap_endpoints (packet_of root))) @ mis"
    "filter two_ended (spine_of (packet_of root)) \<noteq> []"
  using assms by (auto simp: peer_def Let_def bindR_eq_Inr split: if_splits prod.splits)

section \<open>Exchanging ends\<close>

text \<open>One layer with its ends exchanged.\<close>

definition swapped :: "node \<Rightarrow> node" where
  "swapped n = Node (nname n) (swap_endpoints n) (nchildren n) (npos n)"

lemma swapped_sel [simp]:
  "nname (swapped n) = nname n" "nprops (swapped n) = swap_endpoints n"
  "nchildren (swapped n) = nchildren n" "npos (swapped n) = npos n"
  by (simp_all add: swapped_def)

lemma find_prop_map: "find_prop (map (exchange s d) ps) k = map_option (exchange s d) (find_prop ps k)"
  by (induction ps) auto

lemma lookup_swapped:
  assumes "lookup n ''src'' = Some s" "lookup n ''dst'' = Some d"
  shows "lookup (swapped n) ''src'' = Some (s\<lparr>p_val := new_src (p_val s) (p_val d)\<rparr>)"
    and "lookup (swapped n) ''dst'' = Some (d\<lparr>p_val := new_dst (p_val s) (p_val d)\<rparr>)"
  using assms find_prop_Some [of "nprops n" "''src''" s] find_prop_Some [of "nprops n" "''dst''" d]
  by (simp_all add: lookup_def swap_endpoints_def find_prop_map exchange_def)

text \<open>The address part and the length part of a value that has both in order.\<close>

definition addr_part :: "sval \<Rightarrow> string" where
  "addr_part v = fst (split_prefix v)"

definition len_part :: "sval \<Rightarrow> string" where
  "len_part v = snd (split_prefix v)"

definition plain_end :: "sval \<Rightarrow> bool" where
  "plain_end v \<longleftrightarrow> vkind v = KString \<and> vitems v = [] \<and> addr_part v \<noteq> []
     \<and> (CHR ''/'' \<in> set (vtext v) \<longrightarrow> len_part v \<noteq> [])"

lemma plain_end_text:
  assumes "plain_end v"
  shows "vtext v = (if len_part v = [] then addr_part v else addr_part v @ ''/'' @ len_part v)
    \<and> CHR ''/'' \<notin> set (addr_part v)"
proof (cases "index_byte (CHR ''/'') (vtext v)")
  case None
  then have "CHR ''/'' \<notin> set (vtext v)" by (simp add: index_byte_None)
  with None assms show ?thesis
    by (auto simp: plain_end_def addr_part_def len_part_def split_prefix_def)
next
  case (Some i)
  then have "CHR ''/'' \<in> set (vtext v)" using index_byte_None [of "CHR ''/''" "vtext v"] by auto
  with index_byte_Some [OF Some] assms Some show ?thesis
    by (auto simp: plain_end_def addr_part_def len_part_def split_prefix_def)
qed

lemma split_rebuilt:
  assumes "a \<noteq> []" "CHR ''/'' \<notin> set a" "vkind v \<noteq> KStar"
  shows "split_prefix (rebuild v a l) = (a, l)"
  using assms
  by (auto simp: rebuild_def split_prefix_def index_byte_append index_byte_None [THEN iffD2])

lemma rebuild_same: "plain_end v \<Longrightarrow> vpos w = vpos v \<Longrightarrow> vkind w \<noteq> KStar
    \<Longrightarrow> rebuild w (addr_part v) (len_part v) = v"
  using plain_end_text [of v] by (cases v) (auto simp: rebuild_def plain_end_def)

lemma rebuild_pos [simp]: "vpos (rebuild w a l) = vpos w"
  by (simp add: rebuild_def)

lemma rebuild_kind: "a \<noteq> [] \<Longrightarrow> vkind w \<noteq> KStar \<Longrightarrow> vkind (rebuild w a l) = KString"
  by (simp add: rebuild_def)

lemma exchanged_parts:
  assumes "plain_end s" "plain_end d"
  shows "split_prefix (new_src s d) = (addr_part d, len_part s)"
    and "split_prefix (new_dst s d) = (addr_part s, len_part d)"
    and "new_src (new_src s d) (new_dst s d) = s"
    and "new_dst (new_src s d) (new_dst s d) = d"
proof -
  have k: "vkind s \<noteq> KStar" "vkind d \<noteq> KStar" "addr_part s \<noteq> []" "addr_part d \<noteq> []"
    using assms by (auto simp: plain_end_def)
  note t = plain_end_text [OF assms(1)] plain_end_text [OF assms(2)]
  show s: "split_prefix (new_src s d) = (addr_part d, len_part s)"
    and d: "split_prefix (new_dst s d) = (addr_part s, len_part d)"
    using split_rebuilt k t by (simp_all add: new_src_def new_dst_def addr_part_def len_part_def)
  have kinds: "vkind (new_src s d) \<noteq> KStar" "vkind (new_dst s d) \<noteq> KStar"
    using k by (simp_all add: new_src_def new_dst_def rebuild_kind addr_part_def)
  have "vpos (new_dst s d) = vpos s" "vpos (new_src s d) = vpos d"
    by (simp_all add: new_src_def new_dst_def)
  with kinds show "new_src (new_src s d) (new_dst s d) = s" "new_dst (new_src s d) (new_dst s d) = d"
    using rebuild_same assms s d by (simp_all add: new_src_def [of "new_src s d"] new_dst_def [of "new_src s d"])
qed

text \<open>
  Two ends that can be exchanged back: each is in order or a \<open>*\<close>, and the one across from a \<open>*\<close> has
  no length, since a length stays with its field and a \<open>*\<close> cannot hold one.
\<close>

definition swappable :: "sval \<Rightarrow> sval \<Rightarrow> bool" where
  "swappable s d \<longleftrightarrow> (vkind s = KStar \<or> plain_end s) \<and> (vkind d = KStar \<or> plain_end d)
     \<and> (vkind s = KStar \<longrightarrow> len_part d = []) \<and> (vkind d = KStar \<longrightarrow> len_part s = [])"

lemma rebuild_star: "vkind w = KStar \<Longrightarrow> rebuild w a l = w"
  by (simp add: rebuild_def)

lemma star_parts: "vkind w = KStar \<Longrightarrow> split_prefix w = ([], [])"
  by (simp add: split_prefix_def)

lemma swappable_back:
  assumes "swappable s d"
  shows "new_src (new_src s d) (new_dst s d) = s \<and> new_dst (new_src s d) (new_dst s d) = d"
proof -
  have self: "rebuild v (fst (split_prefix v)) [] = v" if "plain_end v" "len_part v = []" for v
    using rebuild_same [OF that(1) refl] that by (auto simp: plain_end_def addr_part_def len_part_def)
  consider (plain) "plain_end s" "plain_end d" | (star_d) "plain_end s" "vkind d = KStar" "len_part s = []"
    | (star_s) "vkind s = KStar" "plain_end d" "len_part d = []" | (stars) "vkind s = KStar" "vkind d = KStar"
    using assms by (auto simp: swappable_def)
  then show ?thesis
  proof cases
    case plain
    with exchanged_parts(3,4) show ?thesis by blast
  next
    case star_d
    with self [of s] show ?thesis
      by (simp add: new_src_def new_dst_def rebuild_star star_parts)
  next
    case star_s
    with self [of d] show ?thesis
      by (simp add: new_src_def new_dst_def rebuild_star star_parts)
  next
    case stars
    then show ?thesis by (simp add: new_src_def new_dst_def rebuild_star)
  qed
qed

lemma swap_twice:
  assumes "node_ok n" "lookup n ''src'' = Some s" "lookup n ''dst'' = Some d"
    and "swappable (p_val s) (p_val d)"
  shows "swap_endpoints (swapped n) = nprops n"
proof -
  have dist: "distinct (map p_key (nprops n))" using assms(1) by (cases n) (simp add: props_ok_def)
  have "exchange (new_src (p_val s) (p_val d)) (new_dst (p_val s) (p_val d))
      (exchange (p_val s) (p_val d) q) = q" if "q \<in> set (nprops n)" for q
    using find_prop_distinct [OF dist that] assms(2,3) swappable_back [OF assms(4)]
    by (auto simp: exchange_def lookup_def)
  moreover have "swap_endpoints n = map (exchange (p_val s) (p_val d)) (nprops n)"
    using assms(2,3) by (simp add: swap_endpoints_def)
  ultimately show ?thesis
    using lookup_swapped [OF assms(2,3)] by (simp add: swap_endpoints_def [of "swapped n"] map_idI)
qed

section \<open>Properties\<close>

text \<open>
  C15. Everything but the ends is the same at both ends: the far end's tree has the same shape, the
  same layers and, on every layer, the same properties other than \<open>:src\<close> and \<open>:dst\<close> (so every
  VNI, key and port) as the near end's, wrapper included.
\<close>

theorem mirror_keeps_the_rest:
  assumes "peer q root inner = Inr res"
  shows "skeleton (m_tree res) = skeleton root"
proof -
  from assms obtain packet2 sps mis where
    "finish_inner inner (map_chain swap_endpoints (packet_of root)) = (packet2, sps, mis)"
    "m_tree res = with_packet root packet2"
    by (rule peer_Inr)
  then show ?thesis
    using finish_inner_skeleton skeleton_map_chain [OF swap_keeps_rest] with_packet_skeleton by metis
qed

text \<open>
  C24. Exchanging the ends of a layer moves the addresses and leaves the lengths, when both ends are
  plain strings, with or without a length: the new \<open>:src\<close> is
  the old \<open>:dst\<close>'s address with the old \<open>:src\<close>'s length, and the other way round; every other
  property stays, and doing it twice gives the layer back exactly.
\<close>

theorem swap_is_an_exchange:
  assumes "node_ok n" and "lookup n ''src'' = Some s" and "lookup n ''dst'' = Some d"
    and "plain_end (p_val s)" and "plain_end (p_val d)"
  shows "\<exists>s' d'. lookup (swapped n) ''src'' = Some s' \<and> lookup (swapped n) ''dst'' = Some d'
    \<and> addr_part (p_val s') = addr_part (p_val d) \<and> len_part (p_val s') = len_part (p_val s)
    \<and> addr_part (p_val d') = addr_part (p_val s) \<and> len_part (p_val d') = len_part (p_val d)
    \<and> swapped (swapped n) = n"
proof -
  have "swapped (swapped n) = n"
    using swap_twice [OF assms(1-3)] assms(4,5) by (cases n) (simp add: swapped_def swappable_def plain_end_def)
  then show ?thesis
    using lookup_swapped [OF assms(2,3)] exchanged_parts [OF assms(4,5)]
    by (simp add: addr_part_def len_part_def)
qed

end
