(* ===== verification/Wire.thy ===== *)
theory Wire
  imports Spine
begin

text \<open>
  The prediction of the underlay (\<open>src/wire/wire.go\<close>): \<open>Expect\<close> reads the outer headers of a
  spine as a capture filter and a list of facts, \<open>Check\<close> reports the facts whose text a capture
  does not contain, and the text of an expectation. \<open>Expect\<close> never panics on a spine, and
  every fact it states is read from a concrete property.
\<close>

section \<open>Expectations\<close>

record fact =
  f_label :: string
  f_value :: string
  f_match :: string

record expectation =
  x_filter :: string
  x_facts :: "fact list"

definition expectation_text :: "expectation \<Rightarrow> string" where
  "expectation_text e =
     (let width = foldl (\<lambda>w f. if length (f_label f) > w then length (f_label f) else w) 0 (x_facts e)
      in ''filter: '' @ x_filter e @ [char_nl, char_nl] @ ''expect on the underlay:'' @ [char_nl]
         @ concat (map (\<lambda>f. ''  '' @ pad_right width (f_label f) @ ''  '' @ f_value f @ [char_nl])
             (x_facts e)))"

definition new_fact :: "string \<Rightarrow> string \<Rightarrow> string \<Rightarrow> fact" where
  "new_fact label val match = \<lparr>f_label = label, f_value = val, f_match = match\<rparr>"

definition num :: "'w::len word \<Rightarrow> string" where
  "num w = itoa (unat w)"

text \<open>The facts of the layer under UDP; \<open>tunnelFacts\<close> appends them to the expectation.\<close>

definition tunnel_facts :: "node \<Rightarrow> fact list res" where
  "tunnel_facts n =
     (if nname n = ''vxlan'' then
        bindR (get_prop n VNI) (\<lambda>vni.
          Inr ([new_fact ''encapsulation'' ''VXLAN'' ''VXLAN'']
            @ (case concrete vni of
                 None \<Rightarrow> []
               | Some v \<Rightarrow> [new_fact ''VXLAN VNI'' (num v) (''vni '' @ num v)])))
      else if nname n = ''geneve'' then Inr [new_fact ''encapsulation'' ''Geneve'' ''Geneve'']
      else if nname n = ''wireguard''
      then Inr [new_fact ''encapsulation'' ''WireGuard (opaque UDP)'' ''UDP'']
      else Inr [])"

definition destination_fact :: "string \<Rightarrow> fact list" where
  "destination_fact dst =
     (if dst \<noteq> [] then [new_fact ''outer destination'' dst (''> '' @ dst)] else [])"

text \<open>The two sides of the switch that need more than one line: UDP, and the others.\<close>

definition expect_udp :: "spine \<Rightarrow> node \<Rightarrow> fact list \<Rightarrow> string \<Rightarrow> expectation res" where
  "expect_udp sp layer facts dst =
     bindR (get_prop layer DstPort) (\<lambda>port.
       case concrete port of
         None \<Rightarrow> err_plain (WireMsg WirePort)
       | Some p \<Rightarrow>
           (let facts' = facts @ [new_fact ''UDP destination port'' (num p) (num p)]
                  @ (if dst \<noteq> []
                     then [new_fact ''outer destination'' dst (''> '' @ dst @ ''.'' @ num p)] else [])
            in bindR (if length sp > 2 then bindR (layer_at sp 2) tunnel_facts else Inr []) (\<lambda>more.
                 Inr \<lparr>x_filter = ''udp port '' @ num p, x_facts = facts' @ more\<rparr>)))"

definition expect_under :: "spine \<Rightarrow> fact list \<Rightarrow> string \<Rightarrow> expectation res" where
  "expect_under sp facts dst =
     bindR (layer_at sp 1) (\<lambda>layer.
       if nname layer = ''udp'' then expect_udp sp layer facts dst
       else if nname layer = ''vlan'' then err_plain (WireMsg WireVlan)
       else if nname layer = ''gre'' then
         Inr \<lparr>x_filter = ''proto gre'', x_facts = facts
                @ [new_fact ''encapsulation'' ''GRE'' ''GREv0''] @ destination_fact dst\<rparr>
       else if nname layer = ''ipv4'' then
         Inr \<lparr>x_filter = ''proto 4'', x_facts = facts
                @ [new_fact ''encapsulation'' ''IP-in-IP'' ''IP''] @ destination_fact dst\<rparr>
       else err_plain (WireMsg (WireNone (nname layer))))"

definition expect :: "spine \<Rightarrow> expectation res" where
  "expect sp =
     (if sp = [] then err_plain (WireMsg EmptySpine)
      else bindR (layer_at sp 0) (\<lambda>outer.
        if nname outer = ''ethernet'' then err_plain (WireMsg WireEthernet)
        else if nname outer \<noteq> ''ipv4'' \<and> nname outer \<noteq> ''ipv6''
        then err_plain (WireMsg (WireNotIP (nname outer)))
        else bindR (get_prop outer Src) (\<lambda>s.
          let facts = (case concrete s of
                         None \<Rightarrow> []
                       | Some v \<Rightarrow> [new_fact ''outer source'' (addr_string v) (addr_string v @ ''.'')])
          in bindR (get_prop outer Dst) (\<lambda>d.
            let dst = (case concrete d of None \<Rightarrow> [] | Some v \<Rightarrow> addr_string v)
            in if length sp < 2 then Inr \<lparr>x_filter = ''ip'', x_facts = facts\<rparr>
               else expect_under sp facts dst))))"

definition check :: "expectation \<Rightarrow> string \<Rightarrow> fact list" where
  "check e captured = filter (\<lambda>f. \<not> contains captured (f_match f)) (x_facts e)"

section \<open>No panic\<close>

lemma tunnel_facts_no_panic: "no_panic (tunnel_facts n)"
  by (auto simp: tunnel_facts_def intro!: no_panic_bind vocabulary_no_panic)

lemma expect_udp_no_panic: "no_panic (expect_udp sp layer facts dst)"
  unfolding expect_udp_def
  by (auto simp: Let_def tunnel_facts_no_panic
      intro!: no_panic_bind vocabulary_no_panic split: option.split)

lemma expect_under_no_panic: "1 < length sp \<Longrightarrow> no_panic (expect_under sp facts dst)"
  unfolding expect_under_def by (auto simp: expect_udp_no_panic intro!: no_panic_bind)

lemma expect_no_panic: "no_panic (expect sp)"
  unfolding expect_def
  by (auto simp: Let_def expect_under_no_panic intro!: no_panic_bind vocabulary_no_panic)

section \<open>Checking a capture\<close>

lemma check_sound: "check e captured = [] \<longleftrightarrow> (\<forall>f \<in> set (x_facts e). sublist (f_match f) captured)"
  by (simp add: check_def filter_empty_conv contains_sublist)

text \<open>
  \<open>Check\<close> reports exactly the predictions a capture does not bear out: nothing is missing if and
  only if the text of every predicted fact occurs in the captured output.
\<close>

lemma check_reports_missing_facts:
  "(check e captured = [] \<longleftrightarrow> list_all (\<lambda>f. \<exists>u v. captured = u @ f_match f @ v) (x_facts e))
   \<and> (f \<in> set (check e captured)
        \<longleftrightarrow> f \<in> set (x_facts e) \<and> \<not> (\<exists>u v. captured = u @ f_match f @ v))"
  by (auto simp: check_def filter_empty_conv contains_iff list_all_iff)

end
