(* ===== verification/Flags.thy ===== *)
theory Flags
  imports GoText
begin

text \<open>
  Command-line flags, as Go's \<open>flag\<close> package parses them for the two commands that take any
  (\<open>src/cmd/pktc/main.go\<close> calls \<open>FlagSet.Parse\<close> with \<open>ExitOnError\<close>). A flag set maps a name to its
  current value, and says which flags are boolean. Parsing gives the values and the arguments
  that are left, or the message after which the program exits (\<open>None\<close> for a request for help).
\<close>

section \<open>Flag sets\<close>

datatype flag_value = StrFlag string | BoolFlag bool

type_synonym flag_set = "string \<rightharpoonup> flag_value"

datatype flag_outcome = Parsed flag_set "string list" | HelpAsked | BadFlag string

definition parse_bool :: "string \<Rightarrow> bool option" where
  "parse_bool s =
     (if s \<in> set [''1'', ''t'', ''T'', ''true'', ''TRUE'', ''True''] then Some True
      else if s \<in> set [''0'', ''f'', ''F'', ''false'', ''FALSE'', ''False''] then Some False
      else None)"

text \<open>A flag's text after the dashes, split at the first \<open>=\<close> behind its first character.\<close>

definition split_flag :: "string \<Rightarrow> string \<times> string option" where
  "split_flag body =
     (case index_byte (CHR ''='') (tl body) of
        None \<Rightarrow> (body, None)
      | Some i \<Rightarrow> (take (i + 1) body, Some (drop (i + 2) body)))"

text \<open>What one flag does with its value and the arguments behind it.\<close>

definition set_flag ::
  "(nat \<Rightarrow> bool) \<Rightarrow> flag_set \<Rightarrow> string \<Rightarrow> string option \<Rightarrow> string list
     \<Rightarrow> string + (flag_set \<times> string list) option"
where
  "set_flag q fs name val rest =
     (case fs name of
        None \<Rightarrow> if name = ''help'' \<or> name = ''h'' then Inr None
                else Inl (''flag provided but not defined: -'' @ name)
      | Some (BoolFlag _) \<Rightarrow>
          (case val of
             None \<Rightarrow> Inr (Some (fs(name \<mapsto> BoolFlag True), rest))
           | Some v \<Rightarrow>
               (case parse_bool v of
                  Some b \<Rightarrow> Inr (Some (fs(name \<mapsto> BoolFlag b), rest))
                | None \<Rightarrow> Inl (''invalid boolean value '' @ quote_go q v @ '' for -'' @ name
                            @ '': parse error'')))
      | Some (StrFlag _) \<Rightarrow>
          (case val of
             Some v \<Rightarrow> Inr (Some (fs(name \<mapsto> StrFlag v), rest))
           | None \<Rightarrow>
               (case rest of
                  v # rest' \<Rightarrow> Inr (Some (fs(name \<mapsto> StrFlag v), rest'))
                | [] \<Rightarrow> Inl (''flag needs an argument: -'' @ name))))"

lemma set_flag_shrinks:
  "set_flag q fs name val rest = Inr (Some (fs', rest')) \<Longrightarrow> length rest' \<le> length rest"
  by (auto simp: set_flag_def split: option.splits flag_value.splits list.splits if_splits)

function parse_flags :: "(nat \<Rightarrow> bool) \<Rightarrow> flag_set \<Rightarrow> string list \<Rightarrow> flag_outcome" where
  "parse_flags q fs [] = Parsed fs []"
| "parse_flags q fs (s # rest) =
     (if length s < 2 \<or> hd s \<noteq> CHR ''-'' then Parsed fs (s # rest)
      else if s = ''--'' then Parsed fs rest
      else
        (let body = (if s ! 1 = CHR ''-'' then drop 2 s else drop 1 s)
         in if body = [] \<or> hd body = CHR ''-'' \<or> hd body = CHR ''=''
            then BadFlag (''bad flag syntax: '' @ s)
            else (case set_flag q fs (fst (split_flag body)) (snd (split_flag body)) rest of
                    Inl m \<Rightarrow> BadFlag m
                  | Inr None \<Rightarrow> HelpAsked
                  | Inr (Some (fs', rest')) \<Rightarrow> parse_flags q fs' rest')))"
  by pat_completeness auto
termination
proof (relation "measure (\<lambda>(q, fs, args). length args)", goal_cases)
  case (2 q fs s rest body a p fs' rest')
  then have "length rest' \<le> length rest" by (auto dest: set_flag_shrinks)
  then show ?case by simp
qed simp

declare parse_flags.simps [simp del]

definition str_flag :: "flag_set \<Rightarrow> string \<Rightarrow> string" where
  "str_flag fs name = (case fs name of Some (StrFlag v) \<Rightarrow> v | _ \<Rightarrow> [])"

definition bool_flag :: "flag_set \<Rightarrow> string \<Rightarrow> bool" where
  "bool_flag fs name = (case fs name of Some (BoolFlag b) \<Rightarrow> b | _ \<Rightarrow> False)"

text \<open>Parsing keeps the set of flags, and what is left is an end part of the arguments.\<close>

lemma set_flag_dom:
  "set_flag q fs name val rest = Inr (Some (fs', rest')) \<Longrightarrow> dom fs' = dom fs \<and> suffix rest' rest"
  by (auto simp: set_flag_def suffix_def split: option.splits flag_value.splits list.splits if_splits)

lemma parse_flags_Parsed:
  "parse_flags q fs args = Parsed fs' rest \<Longrightarrow> dom fs' = dom fs \<and> suffix rest args"
proof (induction "length args" arbitrary: fs args rule: less_induct)
  case less
  show ?case
  proof (cases args)
    case Nil
    with less.prems show ?thesis by (simp add: parse_flags.simps)
  next
    case (Cons s more)
    from less.prems consider "fs' = fs \<and> suffix rest args"
      | name val fs1 rest1 where "set_flag q fs name val more = Inr (Some (fs1, rest1))"
          "parse_flags q fs1 rest1 = Parsed fs' rest"
      by (auto simp: Cons parse_flags.simps(2) Let_def suffix_ConsI
          split: if_splits sum.splits option.splits)
    then show ?thesis
    proof cases
      case (2 name val fs1 rest1)
      from set_flag_dom [OF 2(1)] have s1: "dom fs1 = dom fs" "suffix rest1 more" by auto
      then have "length rest1 < length args" using suffix_length_le [OF s1(2)] by (simp add: Cons)
      from less.hyps [OF this 2(2)] s1 show ?thesis
        by (metis Cons suffix_ConsI suffix_order.trans)
    qed simp
  qed
qed

section \<open>The spellings of a flag\<close>

definition flag_name :: "string \<Rightarrow> bool" where
  "flag_name name \<longleftrightarrow> name \<noteq> [] \<and> hd name \<noteq> CHR ''-'' \<and> CHR ''='' \<notin> set name"

lemma split_flag_plain: "flag_name name \<Longrightarrow> split_flag name = (name, None)"
  by (cases name) (auto simp: flag_name_def split_flag_def index_byte_None [THEN iffD2])

lemma split_flag_value: "flag_name name \<Longrightarrow> split_flag (name @ ''='' @ v) = (name, Some v)"
  by (cases name) (auto simp: flag_name_def split_flag_def index_byte_append)

text \<open>
  The three ways to give a flag its value are the same: \<open>-name value\<close>, \<open>--name value\<close> and
  \<open>-name=value\<close> all set it and go on with the arguments behind it.
\<close>

lemma flag_spellings_agree:
  assumes "fs name = Some (StrFlag w)" and "flag_name name"
  shows "parse_flags q fs ((''-'' @ name) # v # rest) = parse_flags q (fs(name \<mapsto> StrFlag v)) rest
    \<and> parse_flags q fs ((''--'' @ name) # v # rest) = parse_flags q (fs(name \<mapsto> StrFlag v)) rest
    \<and> parse_flags q fs ((''-'' @ name @ ''='' @ v) # rest) = parse_flags q (fs(name \<mapsto> StrFlag v)) rest"
proof -
  from assms(2) obtain c cs where c: "name = c # cs" "c \<noteq> CHR ''-''" "c \<noteq> CHR ''=''"
    by (cases name) (auto simp: flag_name_def)
  note plain = split_flag_plain [OF assms(2), unfolded c(1)]
    and valued = split_flag_value [OF assms(2), unfolded c(1), simplified]
  show ?thesis using c assms(1)
    by (simp add: parse_flags.simps(2) Let_def plain valued set_flag_def)
qed

end
