(* ===== verification/Pktc.thy ===== *)
theory Pktc
  imports Linux Mirror Wire Flags
begin

text \<open>
  The command line (\<open>src/cmd/pktc/main.go\<close>): the shared front end, the five commands and \<open>main\<close>.
  A command returns what it wrote on standard output and how it ended; \<open>os.ReadFile\<close> is the
  parameter \<open>files\<close>, and the code points that \<open>%q\<close> prints as they are the parameter \<open>q\<close>. A
  command that covers a spine is a partial function, like \<open>Cover\<close>; on this registry it always
  returns.
\<close>

section \<open>The front end\<close>

type_synonym file_system = "string \<Rightarrow> string res"

fun build_all :: "sval list \<Rightarrow> node list res" where
  "build_all [] = Inr []"
| "build_all (f # fs) = bindR (build f) (\<lambda>n. bindR (build_all fs) (\<lambda>ns. Inr (n # ns)))"

definition read_trees :: "file_system \<Rightarrow> string \<Rightarrow> node list res" where
  "read_trees files path =
     bindR (files path) (\<lambda>source.
     bindR (Sexp.read path source) (\<lambda>forms.
       if forms = [] then err_plain (CmdMsg (NoForms path)) else build_all forms))"

definition node_at :: "node list \<Rightarrow> nat \<Rightarrow> node res" where
  "node_at ns i = (if i < length ns then Inr (ns ! i) else panic ''index out of range'')"

definition read_tree :: "file_system \<Rightarrow> string \<Rightarrow> node res" where
  "read_tree files path =
     bindR (read_trees files path) (\<lambda>trees.
       if length trees \<noteq> 1
       then bindR (node_at trees 1) (\<lambda>n. err_at (npos n) (CmdMsg (OneForm path (length trees))))
       else node_at trees 0)"

definition read_spine :: "file_system \<Rightarrow> string \<Rightarrow> spine res" where
  "read_spine files path = bindR (read_tree files path) from_form"

section \<open>Rendering one tree\<close>

definition render_text :: "string \<Rightarrow> spine \<Rightarrow> bool \<Rightarrow> cover_result \<Rightarrow> string" where
  "render_text heading sp quiet res =
     (if quiet then plain_text (cr_script res) @ [char_nl]
      else ''#!/bin/sh'' @ [char_nl]
        @ (if heading \<noteq> [] then ''# '' @ heading @ [char_nl] else [])
        @ ''# '' @ spine_text sp @ [char_nl]
        @ ''# tiles: '' @ join arrow (cr_applied res) @ [char_nl, char_nl]
        @ shell_text (cr_script res)
        @ (if cr_payload res \<noteq> []
           then [char_nl] @ ''# '' @ spine_text (cr_payload res)
             @ '' below the tunnel is traffic, not configuration'' @ [char_nl]
           else []))"

definition render :: "string \<Rightarrow> node \<Rightarrow> bool \<Rightarrow> env \<Rightarrow> string run" where
  "render heading root quiet e =
     (case from_form root of
        Inl er \<Rightarrow> Some (Inl er, reset e)
      | Inr sp \<Rightarrow>
          (case linux_registry of
             Inl er \<Rightarrow> Some (Inl er, reset e)
           | Inr reg \<Rightarrow>
               (case cover reg sp (reset e) of
                  None \<Rightarrow> None
                | Some (Inl er, e') \<Rightarrow> Some (Inl er, e')
                | Some (Inr res, e') \<Rightarrow> Some (Inr (render_text heading sp quiet res), e'))))"

section \<open>The commands\<close>

text \<open>How a command ends: with no error, with one, or by leaving the program.\<close>

datatype ending = Fine | Failed goerr | Exit nat string

type_synonym command_run = "string \<times> ending"

definition usage_text :: string where
  "usage_text = join [char_nl]
     [''pktc'' @ em_dash @ ''describe the packet, derive the configuration'',
      [],
      ''usage:'',
      ''  pktc parse <file>              print the encapsulation spine'',
      ''  pktc lower [flags] <file>      print the commands that produce it'',
      ''  pktc mirror [flags] <file>     print both ends of the tunnel'',
      ''  pktc expect <file>             print what the underlay should carry'',
      ''  pktc explain <file>            print which tiles bid and why one won'',
      [],
      ''lower flags:'',
      ''  -underlay <dev>   physical device the outermost tunnel attaches to (default eth0)'',
      ''  -quiet            omit explanatory comments'',
      ''  -key-dir <dir>    where a script looks for key material (default /etc/wireguard)'',
      [],
      ''mirror flags:'',
      ''  -underlay <dev>       underlay on the near end (default eth0)'',
      ''  -peer-underlay <dev>  underlay on the far end (defaults to -underlay)'',
      ''  -peer-inner <cidr>    the far end'' @ [char_squote] @ ''s inner address; without it the peer'',
      ''                        script omits the address and says so'',
      [],
      ''pktc prints configuration; it never applies it.'',
      []]"

text \<open>The arguments behind the flags, or the exit that \<open>ExitOnError\<close> and the count check make.\<close>

definition one_arg :: "flag_outcome \<Rightarrow> (flag_set \<times> string) + ending" where
  "one_arg r =
     (case r of
        HelpAsked \<Rightarrow> Inr (Exit 0 usage_text)
      | BadFlag m \<Rightarrow> Inr (Exit 2 (m @ [char_nl] @ usage_text))
      | Parsed fs rest \<Rightarrow>
          (case rest of
             [a] \<Rightarrow> Inl (fs, a)
           | _ \<Rightarrow> Inr (Exit 2 usage_text)))"

definition lower_flags :: flag_set where
  "lower_flags = [''underlay'' \<mapsto> StrFlag ''eth0'', ''quiet'' \<mapsto> BoolFlag False,
     ''key-dir'' \<mapsto> StrFlag default_key_dir]"

definition mirror_flags :: flag_set where
  "mirror_flags = [''underlay'' \<mapsto> StrFlag ''eth0'', ''peer-underlay'' \<mapsto> StrFlag [],
     ''peer-inner'' \<mapsto> StrFlag []]"

text \<open>
  The loop of \<open>cmdLower\<close>: \<open>i\<close> rules of \<open>count\<close> are done. What was printed stays printed when a
  later rule fails.
\<close>

definition rule_heading :: "nat \<Rightarrow> nat \<Rightarrow> string" where
  "rule_heading i count =
     (if count > 1 then ''rule '' @ itoa (i + 1) @ '' of '' @ itoa count else [])"

fun lower_rules :: "bool \<Rightarrow> nat \<Rightarrow> nat \<Rightarrow> node list \<Rightarrow> env \<Rightarrow> (command_run \<times> env) option" where
  "lower_rules quiet count i [] e = Some (([], Fine), e)"
| "lower_rules quiet count i (root # roots) e =
     (let sep = (if i > 0 \<and> \<not> quiet then [char_nl] else []) in
      case render (rule_heading i count) root quiet e of
        None \<Rightarrow> None
      | Some (Inl er, e') \<Rightarrow> Some ((sep, Failed er), e')
      | Some (Inr out, e') \<Rightarrow>
          (case lower_rules quiet count (i + 1) roots e' of
             None \<Rightarrow> None
           | Some ((text2, fin), e'') \<Rightarrow> Some ((sep @ out @ text2, fin), e'')))"

definition lower_trees :: "string \<Rightarrow> string \<Rightarrow> bool \<Rightarrow> node list \<Rightarrow> (command_run \<times> env) option" where
  "lower_trees underlay key_dir quiet trees =
     lower_rules quiet (length trees) 0 trees ((new_env underlay)\<lparr>e_keydir := key_dir\<rparr>)"

definition cmd_lower :: "(nat \<Rightarrow> bool) \<Rightarrow> file_system \<Rightarrow> string list \<Rightarrow> command_run option" where
  "cmd_lower q files args =
     (case one_arg (parse_flags q lower_flags args) of
        Inr fin \<Rightarrow> Some ([], fin)
      | Inl (fs, path) \<Rightarrow>
          (case read_trees files path of
             Inl er \<Rightarrow> Some ([], Failed er)
           | Inr trees \<Rightarrow>
               map_option fst (lower_trees (str_flag fs ''underlay'') (str_flag fs ''key-dir'')
                 (bool_flag fs ''quiet'') trees)))"

definition rule_line :: string where
  "rule_line = ''# '' @ replicate 68 (CHR ''-'') @ [char_nl]"

definition mirror_report :: "mirror_result \<Rightarrow> string" where
  "mirror_report res =
     [char_nl] @ rule_line
     @ concat (map (\<lambda>s. ''# derived: '' @ s @ [char_nl]) (m_supplied res))
     @ concat (map (\<lambda>m. ''# NOT DERIVED: '' @ m @ [char_nl]) (m_missing res))
     @ rule_line @ [char_nl]"

definition mirror_tree ::
  "(nat \<Rightarrow> bool) \<Rightarrow> string \<Rightarrow> string \<Rightarrow> string \<Rightarrow> node \<Rightarrow> command_run option"
where
  "mirror_tree q underlay peer_underlay inner root =
     (case render ''near end'' root False (new_env underlay) of
        None \<Rightarrow> None
      | Some (Inl er, _) \<Rightarrow> Some ([], Failed er)
      | Some (Inr near, _) \<Rightarrow>
          (case peer q root inner of
             Inl er \<Rightarrow> Some (near, Failed er)
           | Inr res \<Rightarrow>
               (case render ''far end'' (m_tree res) False (new_env peer_underlay) of
                  None \<Rightarrow> None
                | Some (Inl er, _) \<Rightarrow> Some (near @ mirror_report res, Failed er)
                | Some (Inr far, _) \<Rightarrow>
                    Some (near @ mirror_report res @ far
                      @ (if m_missing res \<noteq> []
                         then [char_nl] @ ''# the far end is incomplete; supply -peer-inner to finish it''
                           @ [char_nl]
                         else []), Fine))))"

definition cmd_mirror :: "(nat \<Rightarrow> bool) \<Rightarrow> file_system \<Rightarrow> string list \<Rightarrow> command_run option" where
  "cmd_mirror q files args =
     (case one_arg (parse_flags q mirror_flags args) of
        Inr fin \<Rightarrow> Some ([], fin)
      | Inl (fs, path) \<Rightarrow>
          (let underlay = str_flag fs ''underlay'';
               peer_underlay = (if str_flag fs ''peer-underlay'' = [] then underlay
                                else str_flag fs ''peer-underlay'')
           in case read_tree files path of
                Inl er \<Rightarrow> Some ([], Failed er)
              | Inr root \<Rightarrow>
                  mirror_tree q underlay peer_underlay (str_flag fs ''peer-inner'') root))"

definition describe :: "node \<Rightarrow> string" where
  "describe n = join ''  '' (map (\<lambda>p. '':'' @ p_key p @ '' '' @ vtext (p_val p)) (nprops n))"

definition spine_table :: "spine \<Rightarrow> string" where
  "spine_table sp =
     (let width = foldl (\<lambda>w n. if length (nname n) > w then length (nname n) else w) 0 sp
      in concat (map (\<lambda>n.
           trim_right (CHR '' '') (''  '' @ pad_right width (nname n) @ ''  '' @ describe n)
             @ [char_nl]) sp))"

definition cmd_parse :: "file_system \<Rightarrow> string list \<Rightarrow> command_run" where
  "cmd_parse files args =
     (case args of
        [path] \<Rightarrow>
          (case read_spine files path of
             Inl er \<Rightarrow> ([], Failed er)
           | Inr sp \<Rightarrow>
               (''spine: '' @ spine_text sp @ [char_nl, char_nl] @ spine_table sp, Fine))
      | _ \<Rightarrow> ([], Exit 2 usage_text))"

definition cmd_expect :: "file_system \<Rightarrow> string list \<Rightarrow> command_run" where
  "cmd_expect files args =
     (case args of
        [path] \<Rightarrow>
          (case bindR (read_spine files path) expect of
             Inl er \<Rightarrow> ([], Failed er)
           | Inr x \<Rightarrow> (expectation_text x, Fine))
      | _ \<Rightarrow> ([], Exit 2 usage_text))"

fun explain_rules :: "registry \<Rightarrow> nat \<Rightarrow> nat \<Rightarrow> node list \<Rightarrow> command_run option" where
  "explain_rules reg count i [] = Some ([], Fine)"
| "explain_rules reg count i (root # roots) =
     (let head = (if i > 0 then [char_nl] else [])
            @ (if count > 1
               then ''=== rule '' @ itoa (i + 1) @ '' of '' @ itoa count @ '' ==='' @ [char_nl]
               else [])
      in case from_form root of
           Inl er \<Rightarrow> Some (head, Failed er)
         | Inr sp \<Rightarrow>
             (case explain reg sp of
                None \<Rightarrow> None
              | Some (Inl er) \<Rightarrow> Some (head, Failed er)
              | Some (Inr x) \<Rightarrow>
                  (case explain_rules reg count (i + 1) roots of
                     None \<Rightarrow> None
                   | Some (text2, fin) \<Rightarrow> Some (head @ explanation_text x @ text2, fin))))"

definition cmd_explain :: "file_system \<Rightarrow> string list \<Rightarrow> command_run option" where
  "cmd_explain files args =
     (case args of
        [path] \<Rightarrow>
          (case bindR (read_trees files path) (\<lambda>trees.
                  bindR linux_registry (\<lambda>reg. Inr (trees, reg))) of
             Inl er \<Rightarrow> Some ([], Failed er)
           | Inr (trees, reg) \<Rightarrow> explain_rules reg (length trees) 0 trees)
      | _ \<Rightarrow> Some ([], Exit 2 usage_text))"

section \<open>The program\<close>

record outcome =
  o_stdout :: string
  o_stderr :: string
  o_code :: nat

definition finish :: "(nat \<Rightarrow> bool) \<Rightarrow> command_run \<Rightarrow> outcome" where
  "finish q run =
     (case run of (out, fin) \<Rightarrow>
        (case fin of
           Fine \<Rightarrow> \<lparr>o_stdout = out, o_stderr = [], o_code = 0\<rparr>
         | Failed er \<Rightarrow>
             \<lparr>o_stdout = out, o_stderr = ''pktc: '' @ err_text q er @ [char_nl], o_code = 1\<rparr>
         | Exit k t \<Rightarrow> \<lparr>o_stdout = out, o_stderr = t, o_code = k\<rparr>))"

text \<open>\<open>main\<close> on the arguments behind the program's name.\<close>

definition main_run :: "(nat \<Rightarrow> bool) \<Rightarrow> file_system \<Rightarrow> string list \<Rightarrow> command_run option" where
  "main_run q files args =
     (case args of
        [] \<Rightarrow> Some ([], Exit 2 usage_text)
      | c # rest \<Rightarrow>
          if c = ''parse'' then Some (cmd_parse files rest)
          else if c = ''lower'' then cmd_lower q files rest
          else if c = ''mirror'' then cmd_mirror q files rest
          else if c = ''expect'' then Some (cmd_expect files rest)
          else if c = ''explain'' then cmd_explain files rest
          else if c = ''-h'' \<or> c = ''--help'' \<or> c = ''help'' then Some (usage_text, Fine)
          else Some ([], Exit 2 (''pktc: unknown command '' @ quote_go q c
                 @ [char_nl, char_nl] @ usage_text)))"

definition main :: "(nat \<Rightarrow> bool) \<Rightarrow> file_system \<Rightarrow> string list \<Rightarrow> outcome option" where
  "main q files args = map_option (finish q) (main_run q files args)"

section \<open>Rendering and lowering\<close>

lemma present_reset [simp]: "present (reset e) = present e"
  by (simp add: present_def)

lemma render_Inr:
  assumes "render heading root quiet e = Some (Inr out, e')"
  obtains sp res where "from_form root = Inr sp" "cover linux sp (reset e) = Some (Inr res, e')"
    "out = render_text heading sp quiet res"
  using assms by (auto simp: render_def linux_registry_eq split: sum.splits option.splits prod.splits)

lemma render_returns:
  assumes "env_ok e"
  shows "\<exists>r e'. render heading root quiet e = Some (r, e') \<and> no_panic r"
proof (cases "from_form root")
  case (Inl er)
  with from_form_no_panic [of root] show ?thesis by (simp add: render_def)
next
  case (Inr sp)
  from linux.cover_no_panic [OF from_form_nonempty [OF Inr] reset_ok [OF assms]]
  obtain r e' where "cover linux sp (reset e) = Some (r, e')" "no_panic r" by blast
  then show ?thesis
    by (cases r) (simp_all add: render_def linux_registry_eq Inr)
qed

lemma render_ok:
  assumes "render heading root quiet e = Some (Inr out, e')" "env_ok e"
  shows "env_ok e'"
  using assms linux.cover_builds reset_ok by (meson render_Inr)

text \<open>The text of a file's rules, with what each one was covered as.\<close>

fun file_text :: "bool \<Rightarrow> nat \<Rightarrow> nat \<Rightarrow> (spine \<times> cover_result) list \<Rightarrow> string" where
  "file_text quiet count i [] = []"
| "file_text quiet count i ((sp, res) # rs) =
     (if i > 0 \<and> \<not> quiet then [char_nl] else []) @ render_text (rule_heading i count) sp quiet res
       @ file_text quiet count (i + 1) rs"

lemma lower_rules_returns:
  "env_ok e \<Longrightarrow> \<exists>out fin e'. lower_rules quiet count i roots e = Some ((out, fin), e')
     \<and> (\<forall>er. fin = Failed er \<longrightarrow> \<not> is_panic er)"
proof (induction roots arbitrary: i e)
  case (Cons root roots)
  from render_returns [OF Cons.prems] obtain r e1
    where r: "render (rule_heading i count) root quiet e = Some (r, e1)" "no_panic r" by blast
  show ?case
  proof (cases r)
    case (Inl er)
    with r show ?thesis by (simp add: Let_def)
  next
    case (Inr out)
    from Cons.IH [OF render_ok [OF r(1) [unfolded Inr] Cons.prems], of "i + 1"] r Inr
    show ?thesis by (auto simp: Let_def)
  qed
qed simp

text \<open>A tree with its layers and what \<open>Cover\<close> made of them.\<close>

definition covered :: "node \<Rightarrow> spine \<times> cover_result \<Rightarrow> bool" where
  "covered root r \<longleftrightarrow> from_form root = Inr (fst r)
     \<and> (\<exists>e e'. env_ok e \<and> cover linux (fst r) e = Some (Inr (snd r), e'))"

lemma lower_rules_builds:
  assumes "lower_rules quiet count i roots e = Some ((out, Fine), e')" "env_ok e"
  shows "\<exists>rs ds. list_all2 covered roots rs
    \<and> out = file_text quiet count i rs
    \<and> env_ok e' \<and> e_root e' = e_root e \<and> e_created e' = e_created e @ ds
    \<and> length ds = sum_list (map (\<lambda>r. length (cr_applied (snd r))) rs)
    \<and> (\<forall>up. run_devices (concat (map (\<lambda>r. cr_script (snd r)) rs)) \<lparr>m_devs = present e, m_up = up\<rparr>
          = Some \<lparr>m_devs = present e', m_up = up @ ds\<rparr>)"
  using assms
proof (induction roots arbitrary: i e out)
  case Nil
  then show ?case by (intro exI [of _ "[]"]) auto
next
  case (Cons root roots)
  from Cons.prems(1) obtain out1 e1 out2 where
    r: "render (rule_heading i count) root quiet e = Some (Inr out1, e1)"
    and rest: "lower_rules quiet count (i + 1) roots e1 = Some ((out2, Fine), e')"
    and out: "out = (if i > 0 \<and> \<not> quiet then [char_nl] else []) @ out1 @ out2"
    by (auto simp: Let_def split: option.splits prod.splits sum.splits)
  from render_Inr [OF r] obtain sp res where
    sp: "from_form root = Inr sp" "cover linux sp (reset e) = Some (Inr res, e1)"
      "out1 = render_text (rule_heading i count) sp quiet res" .
  from linux.cover_builds [OF sp(2) reset_ok [OF Cons.prems(2)]] obtain d1 where
    d1: "env_ok e1" "e_root e1 = e_root e" "e_created e1 = e_created e @ d1"
      "length d1 = length (cr_applied res)"
      "\<And>up. run_devices (cr_script res) \<lparr>m_devs = present e, m_up = up\<rparr>
          = Some \<lparr>m_devs = present e1, m_up = up @ d1\<rparr>"
    by auto
  from Cons.IH [OF rest d1(1)] obtain rs ds where
    rs: "list_all2 covered roots rs"
      "out2 = file_text quiet count (i + 1) rs" "env_ok e'" "e_root e' = e_root e1"
      "e_created e' = e_created e1 @ ds"
      "length ds = sum_list (map (\<lambda>r. length (cr_applied (snd r))) rs)"
      "\<And>up. run_devices (concat (map (\<lambda>r. cr_script (snd r)) rs)) \<lparr>m_devs = present e1, m_up = up\<rparr>
          = Some \<lparr>m_devs = present e', m_up = up @ ds\<rparr>"
    by blast
  have "covered root (sp, res)" using sp(1,2) reset_ok [OF Cons.prems(2)] by (auto simp: covered_def)
  then show ?case
    by (intro exI [of _ "(sp, res) # rs"] exI [of _ "d1 @ ds"])
       (simp add: sp(3) rs d1 out run_devices_append)
qed

text \<open>A file whose lowering fails: the rules before the failing one were printed.\<close>

lemma lower_rules_failed:
  assumes "lower_rules quiet count i roots e = Some ((out, Failed er), e')" "env_ok e"
  shows "\<exists>k rs e1. k < length roots
    \<and> lower_rules quiet count i (take k roots) e = Some ((file_text quiet count i rs, Fine), e1)
    \<and> list_all2 (\<lambda>root r. from_form root = Inr (fst r)) (take k roots) rs
    \<and> out = file_text quiet count i rs @ (if i + k > 0 \<and> \<not> quiet then [char_nl] else [])
    \<and> \<not> is_panic er"
  using assms
proof (induction roots arbitrary: i e out)
  case (Cons root roots)
  let ?sep = "if i > 0 \<and> \<not> quiet then [char_nl] else []"
  from render_returns [OF Cons.prems(2)] obtain r e1 where
    r: "render (rule_heading i count) root quiet e = Some (r, e1)" "no_panic r" by blast
  show ?case
  proof (cases r)
    case (Inl er1)
    with Cons.prems(1) r have "out = ?sep" "er1 = er" by (simp_all add: Let_def)
    with Inl r(2) show ?thesis
      by (intro exI [of _ 0] exI [of _ "[]"] exI [of _ e]) simp
  next
    case (Inr out1)
    with Cons.prems(1) r obtain out2 where
      rest: "lower_rules quiet count (i + 1) roots e1 = Some ((out2, Failed er), e')"
      and out: "out = ?sep @ out1 @ out2"
      by (auto simp: Let_def split: option.splits)
    note r1 = r(1) [unfolded Inr]
    from render_Inr [OF r1] obtain sp res where
      sp: "from_form root = Inr sp" "out1 = render_text (rule_heading i count) sp quiet res"
      by blast
    from Cons.IH [OF rest render_ok [OF r1 Cons.prems(2)]] obtain k rs e2 where
      k: "k < length roots"
        "lower_rules quiet count (i + 1) (take k roots) e1
           = Some ((file_text quiet count (i + 1) rs, Fine), e2)"
        "list_all2 (\<lambda>root r. from_form root = Inr (fst r)) (take k roots) rs"
        "out2 = file_text quiet count (i + 1) rs
           @ (if i + 1 + k > 0 \<and> \<not> quiet then [char_nl] else [])" "\<not> is_panic er"
      by blast
    show ?thesis
      by (intro exI [of _ "Suc k"] exI [of _ "(sp, res) # rs"] exI [of _ e2] conjI)
         (use k r1 sp out in \<open>simp_all add: Let_def\<close>)
  qed
qed simp

section \<open>No panic in any command\<close>

lemma build_all_no_panic: "no_panic (build_all fs)"
  by (induction fs) (auto intro!: no_panic_bind build_never_panics)

lemma build_all_length: "build_all fs = Inr ns \<Longrightarrow> length ns = length fs"
  by (induction fs arbitrary: ns) (auto simp: bindR_eq_Inr)

definition quiet_disk :: "file_system \<Rightarrow> bool" where
  "quiet_disk files \<longleftrightarrow> (\<forall>p. no_panic (files p))"

lemma read_trees_no_panic: "quiet_disk files \<Longrightarrow> no_panic (read_trees files path)"
  unfolding read_trees_def
  by (auto simp: quiet_disk_def build_all_no_panic intro!: no_panic_bind read_never_panics)

lemma read_trees_nonempty: "read_trees files path = Inr trees \<Longrightarrow> trees \<noteq> []"
  by (auto simp: read_trees_def bindR_eq_Inr dest!: build_all_length split: if_splits)

lemma read_tree_no_panic: "quiet_disk files \<Longrightarrow> no_panic (read_tree files path)"
  unfolding read_tree_def
proof (rule no_panic_bind)
  fix trees
  assume "read_trees files path = Inr trees"
  then show "no_panic (if length trees \<noteq> 1
      then bindR (node_at trees 1) (\<lambda>n. err_at (npos n) (CmdMsg (OneForm path (length trees))))
      else node_at trees 0)"
    using read_trees_nonempty by (cases trees; cases "tl trees") (auto simp: node_at_def)
qed (rule read_trees_no_panic)

lemma read_spine_no_panic: "quiet_disk files \<Longrightarrow> no_panic (read_spine files path)"
  unfolding read_spine_def by (intro no_panic_bind read_tree_no_panic from_form_no_panic)

lemma spine_of_nonempty [simp]: "spine_of n \<noteq> []"
  by (cases n) simp

lemma peer_no_panic: "no_panic (peer q root inner)"
  unfolding peer_def
  by (auto simp: Let_def check_inner_def layer_at_def parsers_no_panic split: prod.split
      intro!: no_panic_bind no_panic_wrap)

text \<open>A run that did not crash: it returned, and did not end in a panic.\<close>

definition survives :: "command_run option \<Rightarrow> bool" where
  "survives run = (case run of
       None \<Rightarrow> False
     | Some (out, fin) \<Rightarrow> (case fin of Failed er \<Rightarrow> \<not> is_panic er | _ \<Rightarrow> True))"

lemma survives_simps [simp]:
  "\<not> survives None" "survives (Some (out, Fine))" "survives (Some (out, Exit k t))"
  "survives (Some (out, Failed er)) \<longleftrightarrow> \<not> is_panic er"
  by (simp_all add: survives_def)

lemma no_panic_Inl: "no_panic m \<Longrightarrow> m = Inl er \<Longrightarrow> \<not> is_panic er"
  by simp

lemma lower_survives: "quiet_disk files \<Longrightarrow> survives (cmd_lower q files args)"
proof (cases "one_arg (parse_flags q lower_flags args)")
  case (Inl fa)
  obtain fs path where fa: "fa = (fs, path)" by (cases fa)
  assume d: "quiet_disk files"
  show ?thesis
  proof (cases "read_trees files path")
    case (Inl er)
    with no_panic_Inl [OF read_trees_no_panic [OF d]] \<open>one_arg _ = _\<close> fa show ?thesis
      by (simp add: cmd_lower_def)
  next
    case (Inr trees)
    have "env_ok ((new_env (str_flag fs ''underlay''))\<lparr>e_keydir := str_flag fs ''key-dir''\<rparr>)"
      using new_env_ok by (simp add: env_ok_def is_used_def)
    from lower_rules_returns [OF this] obtain out fin e' where
      "lower_trees (str_flag fs ''underlay'') (str_flag fs ''key-dir'') (bool_flag fs ''quiet'') trees
         = Some ((out, fin), e')" "\<forall>er. fin = Failed er \<longrightarrow> \<not> is_panic er"
      unfolding lower_trees_def by blast
    then show ?thesis using Inr \<open>one_arg _ = _\<close> fa by (cases fin) (simp_all add: cmd_lower_def)
  qed
next
  case (Inr fin)
  then show ?thesis
    by (cases fin) (auto simp: cmd_lower_def one_arg_def split: flag_outcome.splits list.splits)
qed

lemma mirror_tree_survives: "survives (mirror_tree q underlay peer_underlay inner root)"
proof -
  from render_returns [OF new_env_ok] obtain r e1 where
    r: "render ''near end'' root False (new_env underlay) = Some (r, e1)" "no_panic r" by blast
  show ?thesis
  proof (cases "\<exists>near res. r = Inr near \<and> peer q root inner = Inr res")
    case True
    then obtain near res where near: "r = Inr near" "peer q root inner = Inr res" by blast
    from render_returns [OF new_env_ok] obtain r2 e2 where
      "render ''far end'' (m_tree res) False (new_env peer_underlay) = Some (r2, e2)" "no_panic r2"
      by blast
    with r near show ?thesis by (cases r2) (simp_all add: mirror_tree_def)
  next
    case False
    with r peer_no_panic [of q root inner] show ?thesis
      by (cases r; cases "peer q root inner") (auto simp: mirror_tree_def)
  qed
qed

lemma one_arg_survives: "one_arg r = Inr fin \<Longrightarrow> survives (Some (out, fin))"
  by (auto simp: one_arg_def split: flag_outcome.splits list.splits)

lemma mirror_survives: "quiet_disk files \<Longrightarrow> survives (cmd_mirror q files args)"
proof (cases "one_arg (parse_flags q mirror_flags args)")
  case (Inl fa)
  obtain fs path where fa: "fa = (fs, path)" by (cases fa)
  assume d: "quiet_disk files"
  from read_tree_no_panic [OF d, of path] Inl fa show ?thesis
    by (cases "read_tree files path") (simp_all add: cmd_mirror_def Let_def mirror_tree_survives)
qed (simp add: cmd_mirror_def one_arg_survives)

lemma parse_survives:
  assumes "quiet_disk files"
  shows "survives (Some (cmd_parse files args))"
proof -
  have "survives (Some (case read_spine files path of
      Inl er \<Rightarrow> ([], Failed er) | Inr sp \<Rightarrow> (f sp, Fine)))" for path f
    using read_spine_no_panic [OF assms, of path] by (cases "read_spine files path") simp_all
  then show ?thesis by (auto simp: cmd_parse_def split: list.split)
qed

lemma expect_survives:
  assumes "quiet_disk files"
  shows "survives (Some (cmd_expect files args))"
proof -
  have "survives (Some (case bindR (read_spine files path) expect of
      Inl er \<Rightarrow> ([], Failed er) | Inr x \<Rightarrow> (f x, Fine)))" for path f
  proof -
    have "no_panic (bindR (read_spine files path) expect)"
      by (intro no_panic_bind read_spine_no_panic assms expect_no_panic)
    then show ?thesis by (cases "bindR (read_spine files path) expect") simp_all
  qed
  then show ?thesis by (auto simp: cmd_expect_def split: list.split)
qed

lemma explain_rules_survives: "survives (explain_rules linux count i roots)"
proof (induction roots arbitrary: i)
  case (Cons root roots)
  show ?case
  proof (cases "from_form root")
    case (Inl er)
    with from_form_no_panic [of root] show ?thesis by (simp add: Let_def)
  next
    case (Inr sp)
    from linux.explain_choices obtain x where "explain linux sp = Some (Inr x)" by blast
    with Inr Cons.IH [of "i + 1"] show ?thesis
      by (cases i) (auto simp: Let_def survives_def split: option.splits)
  qed
qed simp

lemma explain_survives:
  assumes "quiet_disk files"
  shows "survives (cmd_explain files args)"
proof -
  have "survives (cmd_explain files [path])" for path
    using read_trees_no_panic [OF assms, of path]
    by (cases "read_trees files path")
       (simp_all add: cmd_explain_def linux_registry_eq explain_rules_survives)
  then show ?thesis
    by (cases args; cases "tl args") (auto simp: cmd_explain_def)
qed

lemma main_survives: "quiet_disk files \<Longrightarrow> survives (main_run q files args)"
  by (auto simp: main_run_def parse_survives lower_survives mirror_survives expect_survives
      explain_survives split: list.split)

end
