(* ===== verification/Samples.thy ===== *)
theory Samples
  imports Pktc
begin

text \<open>
  Small trees that the witnesses of the properties run on: the shapes of \<open>src/testdata\<close>, with
  every position set to the origin.
\<close>

definition sym_layer :: "string \<Rightarrow> (string \<times> kind \<times> string) list \<Rightarrow> node list \<Rightarrow> node" where
  "sym_layer name ps cs =
     Node name (map (\<lambda>(k, kd, t). \<lparr>p_key = k, p_val = SVal kd t [] no_pos, p_pos = no_pos\<rparr>) ps)
       cs no_pos"

definition configure :: "node \<Rightarrow> node" where
  "configure n = sym_layer ''configure'' [] [n]"

definition gre_tree :: node where
  "gre_tree = configure
     (sym_layer ''ipv4'' [(''src'', KString, ''10.0.0.1''), (''dst'', KString, ''10.0.0.2'')]
        [sym_layer ''gre'' [(''key'', KNumber, ''7'')]
          [sym_layer ''ipv4'' [(''src'', KString, ''10.1.0.1/30'')] []]])"

definition vxlan_under :: "string \<Rightarrow> string \<Rightarrow> kind \<Rightarrow> string \<Rightarrow> node list \<Rightarrow> node" where
  "vxlan_under s d vk vni inner =
     sym_layer ''ipv4'' [(''src'', KString, s), (''dst'', KString, d)]
        [sym_layer ''udp'' [(''dst-port'', KNumber, ''4789'')]
          [sym_layer ''vxlan'' [(''vni'', vk, vni)]
            [sym_layer ''ethernet'' [] inner]]]"

definition vxlan_tree :: node where
  "vxlan_tree = configure (vxlan_under ''10.0.0.1'' ''10.0.0.2'' KNumber ''100'' [])"

text \<open>A tagged interface with a tunnel on it.\<close>

definition chain_tree :: node where
  "chain_tree = configure
     (sym_layer ''ethernet'' [] [sym_layer ''vlan'' [(''id'', KNumber, ''100'')]
        [vxlan_under ''10.0.0.1/24'' ''10.0.0.2'' KStar ''*'' []]])"

definition wireguard_tree :: "string \<Rightarrow> node" where
  "wireguard_tree peer_name = configure
     (sym_layer ''ipv4'' [(''src'', KString, ''10.0.0.1''), (''dst'', KString, ''10.0.0.2'')]
        [sym_layer ''udp'' [(''src-port'', KNumber, ''51820''), (''dst-port'', KNumber, ''51821'')]
          [sym_layer ''wireguard'' [(''peer'', KString, peer_name)]
            [sym_layer ''ipv4'' [(''src'', KString, ''10.44.0.1/24'')] []]]])"

text \<open>The layers of a sample tree, which never branches.\<close>

definition layers_of :: "node \<Rightarrow> spine" where
  "layers_of root = (case from_form root of Inl _ \<Rightarrow> [] | Inr sp \<Rightarrow> sp)"

end
