(* ===== verification/SexpPos.thy ===== *)
theory SexpPos
  imports Sexp
begin

text \<open>
  The positions the reader reports. \<open>line_of\<close> and \<open>col_of\<close> say which line and column a byte
  offset has; \<open>tracks\<close> says that a reader state carries those of its index, and every method
  keeps that. A value of the resulting tree is \<open>placed\<close> if its position is that of an offset
  at which its text begins, and so are all the values inside it. An error, too, points at an offset,
  and \<open>blames\<close> says which byte each message is about.
\<close>

definition line_of :: "string \<Rightarrow> nat \<Rightarrow> nat" where
  "line_of s i = Suc (length (filter (\<lambda>c. c = char_nl) (take i s)))"

definition col_of :: "string \<Rightarrow> nat \<Rightarrow> nat" where
  "col_of s i = Suc (length (takeWhile (\<lambda>c. c \<noteq> char_nl) (rev (take i s))))"

definition pos_at :: "string \<Rightarrow> string \<Rightarrow> nat \<Rightarrow> pos" where
  "pos_at f s i = \<lparr>p_file = f, p_line = line_of s i, p_col = col_of s i\<rparr>"

definition tracks :: "string \<Rightarrow> string \<Rightarrow> reader \<Rightarrow> bool" where
  "tracks f s r \<longleftrightarrow> src r = s \<and> fname r = f \<and> idx r \<le> length s
     \<and> line r = line_of s (idx r) \<and> col r = col_of s (idx r)"

text \<open>The bytes at offset \<open>i\<close> are the beginning of the value \<open>v\<close>.\<close>

definition begins_at :: "string \<Rightarrow> nat \<Rightarrow> sval \<Rightarrow> bool" where
  "begins_at s i v \<longleftrightarrow> i < length s \<and>
     (case vkind v of
        KList \<Rightarrow> s ! i = CHR ''(''
      | KString \<Rightarrow> s ! i = char_dquote
      | _ \<Rightarrow> prefix (vtext v) (drop i s))"

fun placed :: "string \<Rightarrow> string \<Rightarrow> sval \<Rightarrow> bool" where
  "placed f s (SVal k t items p) \<longleftrightarrow>
     (\<exists>i < length s. p = pos_at f s i \<and> begins_at s i (SVal k t [] p))
     \<and> (\<forall>v \<in> set items. placed f s v)"

lemma tracks_cur_pos: "tracks f s r \<Longrightarrow> cur_pos r = pos_at f s (idx r)"
  by (simp add: tracks_def cur_pos_def pos_at_def)

lemma tracks_src: "tracks f s r \<Longrightarrow> src r = s \<and> idx r \<le> length s"
  by (simp add: tracks_def)

lemma tracks_step:
  assumes "tracks f s r" and "\<not> eof r"
  shows "tracks f s (step_char r (src r ! idx r))"
proof -
  have "idx r < length s" using assms by (simp add: tracks_def eof_def)
  then have "take (Suc (idx r)) s = take (idx r) s @ [s ! idx r]" by (rule take_Suc_conv_app_nth)
  with assms show ?thesis
    by (auto simp: tracks_def step_char_def line_of_def col_of_def eof_def)
qed

lemma skip_comment_tracks: "tracks f s r \<Longrightarrow> skip_comment r = Inr r' \<Longrightarrow> tracks f s r'"
proof (induction "remaining r" arbitrary: r rule: less_induct)
  case less
  show ?case
  proof (cases "eof r \<or> peek r = char_nl")
    case True
    with less.prems show ?thesis by (simp add: skip_comment_stop)
  next
    case False
    with less.prems have "skip_comment (step_char r (src r ! idx r)) = Inr r'"
      by (simp add: skip_comment_step)
    with False less.prems(1) show ?thesis using less.hyps tracks_step remaining_step by blast
  qed
qed

lemma skip_space_tracks: "tracks f s r \<Longrightarrow> skip_space r = Inr r' \<Longrightarrow> tracks f s r'"
proof (induction "remaining r" arbitrary: r rule: less_induct)
  case less
  consider "eof r \<or> (\<not> is_space (peek r) \<and> peek r \<noteq> CHR '';'')"
    | "\<not> eof r" "is_space (peek r)"
    | "\<not> eof r" "\<not> is_space (peek r)" "peek r = CHR '';''" by blast
  then show ?case
  proof cases
    case 1
    with less.prems show ?thesis by (auto simp: skip_space_stop)
  next
    case 2
    with less.prems have "skip_space (step_char r (src r ! idx r)) = Inr r'"
      by (simp add: skip_space_ws)
    with 2 less.prems(1) show ?thesis using less.hyps tracks_step remaining_step by blast
  next
    case 3
    obtain r1 where r1: "skip_comment r = Inr r1"
      using skip_comment_total [of r] less.prems(1) by (auto simp: tracks_def)
    with less.prems 3 have "tracks f s r1" "skip_space r1 = Inr r'"
      using skip_comment_tracks by (auto simp: skip_space_comment)
    moreover have "remaining r1 < remaining r"
      using 3 r1 by (intro skip_comment_progress) auto
    ultimately show ?thesis using less.hyps by blast
  qed
qed

definition string_done :: "string \<Rightarrow> string \<Rightarrow> pos \<Rightarrow> sval \<Rightarrow> reader \<Rightarrow> bool" where
  "string_done f s p v r' \<longleftrightarrow>
     tracks f s r' \<and> vkind v = KString \<and> vpos v = p \<and> vitems v = []"

lemma string_loop_tracks:
  "tracks f s r \<Longrightarrow> string_loop p sb r = Inr (v, r') \<Longrightarrow> string_done f s p v r'"
proof (induction "remaining r" arbitrary: sb r rule: less_induct)
  case less
  show ?case
  proof (cases "eof r")
    case True
    with less.prems(2) show ?thesis by (simp add: string_loop.simps [of p sb r])
  next
    case False
    let ?r1 = "step_char r (src r ! idx r)"
    let ?r2 = "step_char ?r1 (src r ! Suc (idx r))"
    have t1: "tracks f s ?r1" using less.prems(1) False by (rule tracks_step)
    have t2: "tracks f s ?r2" if "\<not> eof ?r1" using tracks_step [OF t1 that] by simp
    have IH1: "string_loop p sb' ?r1 = Inr (v, r') \<Longrightarrow> string_done f s p v r'" for sb'
      using less.hyps t1 remaining_step [OF False] by blast
    have IH2: "string_done f s p v r'"
      if "\<not> eof (step_char r c)" "string_loop p sb' (step_char (step_char r c) e) = Inr (v, r')"
        "src r ! idx r = c" "src r ! Suc (idx r) = e" for c e sb'
      using that less.hyps t2 less_trans [OF remaining_step remaining_step [OF False]] by blast
    have fin: "string_done f s p (SVal KString sb [] p) (step_char r c)" if "src r ! idx r = c" for c
      using t1 that by (simp add: string_done_def)
    from less.prems(2) False show ?thesis
      by (subst (asm) string_loop.simps)
         (auto split: if_splits intro: IH1 IH2 fin)
  qed
qed

lemma read_string_placed:
  assumes "tracks f s r" and "read_string r = Inr (v, r')" and "peek r = char_dquote"
  shows "placed f s v \<and> tracks f s r'"
proof -
  have e: "\<not> eof r" using assms(3) by (auto simp: peek_def)
  with assms have "string_loop (cur_pos r) [] (step_char r (src r ! idx r)) = Inr (v, r')"
    by (simp add: read_string_def)
  with tracks_step [OF assms(1) e] have d: "string_done f s (cur_pos r) v r'"
    by (rule string_loop_tracks)
  have "s ! idx r = char_dquote" "idx r < length s"
    using assms(1,3) e by (auto simp: peek_def tracks_def eof_def)
  with d tracks_cur_pos [OF assms(1)] show ?thesis
    by (cases v) (auto simp: string_done_def begins_at_def)
qed

lemma atom_loop_tracks: "tracks f s r \<Longrightarrow> atom_loop r = Inr r' \<Longrightarrow> tracks f s r'"
proof (induction "remaining r" arbitrary: r rule: less_induct)
  case less
  show ?case
  proof (cases "\<not> eof r \<and> \<not> is_delim (peek r)")
    case True
    with less.prems(2) have "atom_loop (step_char r (src r ! idx r)) = Inr r'"
      by (simp add: atom_loop.simps [of r])
    with True less.prems(1) show ?thesis using less.hyps tracks_step remaining_step by blast
  next
    case False
    with less.prems show ?thesis by (auto simp: atom_loop.simps [of r])
  qed
qed

lemma classify_not_list: "classify t \<noteq> KList \<and> classify t \<noteq> KString"
  by (simp add: classify_def)

lemma read_atom_placed:
  assumes "tracks f s r" and "read_atom r = Inr (v, r')"
  shows "placed f s v \<and> tracks f s r'"
proof -
  obtain r1 where r1: "atom_loop r = Inr r1"
    using atom_loop_total [of r] assms(1) by (auto simp: tracks_def)
  let ?t = "take (idx r1 - idx r) (drop (idx r) (src r))"
  from assms(2) r1 have v: "v = SVal (classify ?t) ?t [] (cur_pos r)" "r' = r1" and ne: "?t \<noteq> []"
    by (auto simp: read_atom_def Let_def split: if_splits)
  have "idx r < length s" using ne tracks_src [OF assms(1)] by (cases "idx r < length s") auto
  moreover have "begins_at s (idx r) v"
    using calculation v(1) tracks_src [OF assms(1)] classify_not_list [of ?t]
    by (auto simp: begins_at_def take_is_prefix split: kind.splits)
  ultimately show ?thesis
    using v atom_loop_tracks [OF assms(1) r1] tracks_cur_pos [OF assms(1)] by auto
qed

lemma read_placed:
  shows "tracks f s r \<Longrightarrow> read_value r = Inr (v, r') \<Longrightarrow> placed f s v \<and> tracks f s r'"
    and "tracks f s r \<Longrightarrow> peek r = CHR ''('' \<Longrightarrow> read_list r = Inr (v, r')
           \<Longrightarrow> placed f s v \<and> tracks f s r'"
    and "tracks f s r \<Longrightarrow> read_items p items r = Inr (v, r') \<Longrightarrow> \<forall>x \<in> set items. placed f s x
           \<Longrightarrow> \<exists>i < length s. s ! i = CHR ''('' \<and> p = pos_at f s i
           \<Longrightarrow> placed f s v \<and> tracks f s r'"
proof (induction r and r and p items r arbitrary: v r' and v r' and v r'
    rule: read_value_read_list_read_items.induct)
  case (1 r)
  then show ?case
    by (auto simp: read_value.simps [of r] split: if_splits
        dest: read_string_placed read_atom_placed)
next
  case (2 r)
  have e: "\<not> eof r" using "2.prems"(2) by (auto simp: peek_def)
  let ?r1 = "step_char r (src r ! idx r)"
  have "read_items (cur_pos r) [] ?r1 = Inr (v, r')"
    using "2.prems"(3) e by (simp add: read_list.simps [of r])
  moreover have "idx r < length s" "s ! idx r = CHR ''(''"
    using "2.prems"(1,2) e by (auto simp: peek_def tracks_def eof_def)
  ultimately show ?case
    using "2.IH" [OF advance_ok [OF e] refl] tracks_step [OF "2.prems"(1) e]
      tracks_cur_pos [OF "2.prems"(1)] by auto
next
  case (3 p items r)
  obtain r1 where r1: "skip_space r = Inr r1"
    using skip_space_total [of r] "3.prems"(1) by (auto simp: tracks_def)
  have t1: "tracks f s r1" using skip_space_tracks "3.prems"(1) r1 by blast
  have e: "\<not> eof r1" using "3.prems"(2) r1 by (auto simp: read_items.simps [of p items r])
  show ?case
  proof (cases "peek r1 = CHR '')''")
    case True
    with "3.prems"(2) r1 e have "v = SVal KList [] items p" "r' = step_char r1 (src r1 ! idx r1)"
      by (auto simp: read_items.simps [of p items r])
    with "3.prems" tracks_step [OF t1 e] show ?thesis by (auto simp: begins_at_def)
  next
    case False
    with "3.prems"(2) r1 e obtain x r2
      where x: "read_value r1 = Inr (x, r2)" "read_items p (items @ [x]) r2 = Inr (v, r')"
      by (auto simp: read_items.simps [of p items r] split: sum.splits)
    have "placed f s x \<and> tracks f s r2" using "3.IH"(1) [OF r1 e False t1 x(1)] .
    then show ?thesis using "3.IH"(2) [OF r1 e False x(1) refl _ x(2)] "3.prems" by auto
  qed
qed

lemma read_loop_placed:
  "tracks f s r \<Longrightarrow> \<forall>v \<in> set out. placed f s v \<Longrightarrow> read_loop out r = Inr vs \<Longrightarrow>
     \<forall>v \<in> set vs. placed f s v"
proof (induction "remaining r" arbitrary: out r rule: less_induct)
  case less
  obtain r1 where r1: "skip_space r = Inr r1" "moved r r1"
    using skip_space_total [of r] less.prems(1) by (auto simp: tracks_def)
  have t1: "tracks f s r1" using skip_space_tracks less.prems(1) r1 by blast
  show ?case
  proof (cases "eof r1")
    case True
    with less.prems r1 show ?thesis by (simp add: read_loop.simps [of out r])
  next
    case False
    with less.prems(3) r1 obtain v r2
      where v: "read_value r1 = Inr (v, r2)" "read_loop (out @ [v]) r2 = Inr vs"
      by (auto simp: read_loop.simps [of out r] split: sum.splits)
    have pv: "placed f s v \<and> tracks f s r2" using read_placed(1) [OF t1 v(1)] .
    have "remaining r2 < remaining r"
      using read_value_remaining [OF _ v(1) False] read_dom_all moved_remaining [OF r1(2)]
      by (auto intro: less_le_trans)
    with pv v(2) less.prems(2) show ?thesis by (intro less.hyps [of r2 "out @ [v]"]) auto
  qed
qed

lemma read_positions: "read f s = Inr vs \<Longrightarrow> v \<in> set vs \<Longrightarrow> placed f s v"
  using read_loop_placed [of f s "start_reader f s" "[]" vs]
  by (simp add: read_def start_reader_def tracks_def line_of_def col_of_def)

section \<open>Errors\<close>

text \<open>
  What stands at the offset an error points at. \<open>ExpectedValue\<close> is never given: an atom is read only
  where a byte begins one.
\<close>

fun blames :: "string \<Rightarrow> nat \<Rightarrow> read_msg \<Rightarrow> bool" where
  "blames s i Unclosed \<longleftrightarrow> s ! i = CHR ''(''"
| "blames s i UnexpectedClose \<longleftrightarrow> s ! i = CHR '')''"
| "blames s i Unterminated \<longleftrightarrow> s ! i = char_dquote"
| "blames s i (UnknownEscape c) \<longleftrightarrow> 0 < i \<and> s ! (i - 1) = char_backslash \<and> s ! i = c
     \<and> c \<notin> {CHR ''n'', CHR ''t'', char_backslash, char_dquote}"
| "blames s i ExpectedValue \<longleftrightarrow> False"
| "blames s i EmptyKey \<longleftrightarrow> s ! i = CHR '':'' \<and> (Suc i = length s \<or> is_delim (s ! Suc i))"

definition fails_at :: "string \<Rightarrow> string \<Rightarrow> goerr \<Rightarrow> bool" where
  "fails_at f s e \<longleftrightarrow> (\<exists>i < length s. \<exists>m. e = ErrAt (pos_at f s i) (ReadMsg m) \<and> blames s i m)"

lemma fails_atI: "i < length s \<Longrightarrow> blames s i m \<Longrightarrow> fails_at f s (ErrAt (pos_at f s i) (ReadMsg m))"
  by (auto simp: fails_at_def)

lemma string_loop_fails:
  "tracks f s r \<Longrightarrow> j < length s \<Longrightarrow> s ! j = char_dquote \<Longrightarrow> string_loop (pos_at f s j) sb r = Inl e
     \<Longrightarrow> fails_at f s e"
proof (induction "remaining r" arbitrary: sb r rule: less_induct)
  case less
  show ?case
  proof (cases "eof r")
    case True
    with less.prems show ?thesis
      by (auto simp: string_loop.simps [of _ sb r] intro: fails_atI)
  next
    case False
    let ?c = "src r ! idx r"
    let ?r1 = "step_char r ?c"
    let ?e = "src r ! Suc (idx r)"
    let ?r2 = "step_char ?r1 ?e"
    have t1: "tracks f s ?r1" using less.prems(1) False by (rule tracks_step)
    have t2: "tracks f s ?r2" if "\<not> eof ?r1" using tracks_step [OF t1 that] by simp
    have IH1: "fails_at f s e" if "string_loop (pos_at f s j) sb' ?r1 = Inl e" for sb'
      using less.hyps [OF remaining_step [OF False] t1 less.prems(2,3) that] .
    have IH2: "fails_at f s e" if "\<not> eof ?r1" "string_loop (pos_at f s j) sb' ?r2 = Inl e" for sb'
      using less.hyps [OF less_trans [OF remaining_step remaining_step] t2 less.prems(2,3)] that False by blast
    have open': "fails_at f s (ErrAt (pos_at f s j) (ReadMsg Unterminated))"
      using less.prems(2,3) by (intro fails_atI) auto
    have esc: "fails_at f s (ErrAt (cur_pos ?r1) (ReadMsg (UnknownEscape ?e)))"
      if "\<not> eof ?r1" "?c = char_backslash" "?e \<notin> {CHR ''n'', CHR ''t'', char_backslash, char_dquote}"
    proof -
      have "Suc (idx r) < length s" "src r = s" using that(1) less.prems(1) by (auto simp: eof_def tracks_def)
      with that show ?thesis unfolding tracks_cur_pos [OF t1] by (intro fails_atI) auto
    qed
    consider "?c = char_dquote" | "?c \<noteq> char_dquote" "?c \<noteq> char_backslash"
      | "?c = char_backslash" "eof ?r1"
      | "?c = char_backslash" "\<not> eof ?r1" "?e \<in> {CHR ''n'', CHR ''t'', char_backslash, char_dquote}"
      | "?c = char_backslash" "\<not> eof ?r1" "?e \<notin> {CHR ''n'', CHR ''t'', char_backslash, char_dquote}"
      by blast
    then show ?thesis
    proof cases
      case 3
      with less.prems(4) False open' show ?thesis by (simp add: string_loop.simps [of _ sb r])
    next
      case 4
      with less.prems(4) False IH2 show ?thesis by (auto simp: string_loop.simps [of _ sb r])
    next
      case 5
      with less.prems(4) False esc show ?thesis by (auto simp: string_loop.simps [of _ sb r])
    qed (use less.prems(4) False IH1 in \<open>auto simp: string_loop.simps [of _ sb r]\<close>)
  qed
qed

lemma read_string_fails:
  assumes "tracks f s r" "peek r = char_dquote" "read_string r = Inl e"
  shows "fails_at f s e"
proof -
  have ne: "\<not> eof r" using assms(2) by (auto simp: peek_def)
  then have "idx r < length s" "s ! idx r = char_dquote"
    using assms(1,2) by (auto simp: eof_def tracks_def peek_def)
  moreover have "string_loop (pos_at f s (idx r)) [] (step_char r (src r ! idx r)) = Inl e"
    using assms(3) ne by (simp add: read_string_def tracks_cur_pos [OF assms(1)])
  ultimately show ?thesis using string_loop_fails [OF tracks_step [OF assms(1) ne]] by blast
qed

text \<open>Where a value is read: not at the end, and not at a byte that is skipped.\<close>

definition at_value :: "reader \<Rightarrow> bool" where
  "at_value r \<longleftrightarrow> \<not> eof r \<and> \<not> is_space (peek r) \<and> peek r \<noteq> CHR '';''"

lemma skip_space_at: "skip_space r = Inr r1 \<Longrightarrow> idx r \<le> length (src r) \<Longrightarrow> \<not> eof r1 \<Longrightarrow> at_value r1"
  using skip_space_total [of r] by (auto simp: at_value_def)

lemma read_atom_fails:
  assumes "tracks f s r" "at_value r" "\<not> is_delim (peek r)" "read_atom r = Inl e"
  shows "fails_at f s e"
proof -
  have ne: "\<not> eof r" using assms(2) by (simp add: at_value_def)
  let ?r1 = "step_char r (src r ! idx r)"
  have i: "idx r < length s" "src r = s" using assms(1) ne by (auto simp: eof_def tracks_def)
  then obtain r' where r': "atom_loop ?r1 = Inr r'" "moved ?r1 r'" "eof r' \<or> is_delim (peek r')"
    using atom_loop_total [of ?r1] by auto
  have loop: "atom_loop r = Inr r'" using ne assms(3) r'(1) by (simp add: atom_loop.simps [of r])
  from r'(2) have idx: "Suc (idx r) \<le> idx r'" "src r' = s" "idx r' \<le> length s"
    using i by (auto simp: moved_def)
  let ?t = "take (idx r' - idx r) (drop (idx r) s)"
  have "?t \<noteq> []" using idx i by simp
  with assms(4) loop i have t: "?t = '':''" "e = ErrAt (pos_at f s (idx r)) (ReadMsg EmptyKey)"
    by (auto simp: read_atom_def Let_def tracks_cur_pos [OF assms(1)] split: if_splits)
  have "length ?t = idx r' - idx r" using idx i by simp
  with t(1) idx have next': "idx r' = Suc (idx r)" by simp
  have "drop (idx r) s = s ! idx r # drop (Suc (idx r)) s" using i by (simp add: Cons_nth_drop_Suc)
  with t(1) next' have "s ! idx r = CHR '':''" by simp
  then have "blames s (idx r) EmptyKey"
    using r'(3) idx(2,3) unfolding next' by (auto simp: eof_def peek_def next' split: if_splits)
  with t(2) i(1) show ?thesis by (auto intro: fails_atI)
qed

lemma read_value_fails:
  shows "tracks f s r \<Longrightarrow> at_value r \<Longrightarrow> read_value r = Inl e \<Longrightarrow> fails_at f s e"
    and "tracks f s r \<Longrightarrow> peek r = CHR ''('' \<Longrightarrow> read_list r = Inl e \<Longrightarrow> fails_at f s e"
    and "tracks f s r \<Longrightarrow> p = pos_at f s j \<Longrightarrow> j < length s \<Longrightarrow> s ! j = CHR ''(''
           \<Longrightarrow> read_items p items r = Inl e \<Longrightarrow> fails_at f s e"
proof (induction r and r and p items r arbitrary: e and e and e j
    rule: read_value_read_list_read_items.induct)
  case (1 r)
  then have i: "idx r < length s" "s ! idx r = peek r" by (auto simp: at_value_def eof_def tracks_def peek_def)
  consider "peek r = CHR ''(''" | "peek r = CHR '')''" | "peek r = char_dquote"
    | "peek r \<noteq> CHR ''(''" "peek r \<noteq> CHR '')''" "peek r \<noteq> char_dquote" by blast
  then show ?case
  proof cases
    case 1
    with "1.IH" "1.prems" show ?thesis by (simp add: read_value.simps [of r])
  next
    case 2
    with "1.prems"(3) i show ?thesis
      by (auto simp: read_value.simps [of r] tracks_cur_pos [OF "1.prems"(1)] intro: fails_atI)
  next
    case 3
    with "1.prems"(3) read_string_fails [OF "1.prems"(1) 3] show ?thesis by (simp add: read_value.simps [of r])
  next
    case 4
    with "1.prems"(2) have "\<not> is_delim (peek r)" by (simp add: is_delim_def at_value_def)
    from read_atom_fails [OF "1.prems"(1,2) this] "1.prems"(3) 4 show ?thesis
      by (simp add: read_value.simps [of r])
  qed
next
  case (2 r)
  have e: "\<not> eof r" using "2.prems"(2) by (auto simp: peek_def)
  have "read_items (cur_pos r) [] (step_char r (src r ! idx r)) = Inl e"
    using "2.prems"(3) e by (simp add: read_list.simps [of r])
  moreover have "idx r < length s" "s ! idx r = CHR ''(''"
    using "2.prems"(1,2) e by (auto simp: peek_def tracks_def eof_def)
  ultimately show ?case
    using "2.IH" [OF advance_ok [OF e] refl tracks_step [OF "2.prems"(1) e] tracks_cur_pos [OF "2.prems"(1)]]
    by blast
next
  case (3 p items r)
  obtain r1 where r1: "skip_space r = Inr r1"
    using skip_space_total [of r] "3.prems"(1) by (auto simp: tracks_def)
  have t1: "tracks f s r1" using skip_space_tracks "3.prems"(1) r1 by blast
  show ?case
  proof (cases "eof r1")
    case True
    with "3.prems" r1 show ?thesis by (auto simp: read_items.simps [of _ items r] intro: fails_atI)
  next
    case False
    have v: "at_value r1" using skip_space_at [OF r1 _ False] "3.prems"(1) by (simp add: tracks_def)
    show ?thesis
    proof (cases "peek r1 = CHR '')''")
      case True
      with "3.prems"(5) r1 False show ?thesis by (simp add: read_items.simps [of p items r])
    next
      case close: False
      show ?thesis
      proof (cases "read_value r1")
        case (Inl e')
        with "3.prems"(5) r1 False close have "read_value r1 = Inl e" by (simp add: read_items.simps [of p items r])
        with "3.IH"(1) [OF r1 False close t1 v] show ?thesis by blast
      next
        case (Inr a)
        obtain x r2 where a: "read_value r1 = Inr (x, r2)" using Inr by (cases a) simp
        with "3.prems"(5) r1 False close have "read_items p (items @ [x]) r2 = Inl e"
          by (simp add: read_items.simps [of p items r])
        moreover have "tracks f s r2" using read_placed(1) [OF t1 a] by simp
        ultimately show ?thesis using "3.IH"(2) [OF r1 False close a refl] "3.prems"(2-4) by blast
      qed
    qed
  qed
qed

lemma read_loop_fails: "tracks f s r \<Longrightarrow> read_loop out r = Inl e \<Longrightarrow> fails_at f s e"
proof (induction "remaining r" arbitrary: out r rule: less_induct)
  case less
  obtain r1 where r1: "skip_space r = Inr r1" "moved r r1"
    using skip_space_total [of r] less.prems(1) by (auto simp: tracks_def)
  have t1: "tracks f s r1" using skip_space_tracks less.prems(1) r1 by blast
  show ?case
  proof (cases "eof r1")
    case True
    with less.prems r1 show ?thesis by (simp add: read_loop.simps [of out r])
  next
    case False
    have v: "at_value r1" using skip_space_at [OF r1(1) _ False] less.prems(1) by (simp add: tracks_def)
    show ?thesis
    proof (cases "read_value r1")
      case (Inl e')
      with less.prems(2) r1 False have "read_value r1 = Inl e" by (simp add: read_loop.simps [of out r])
      with read_value_fails(1) [OF t1 v] show ?thesis by blast
    next
      case (Inr a)
      obtain x r2 where a: "read_value r1 = Inr (x, r2)" using Inr by (cases a) simp
      with less.prems(2) r1 False have "read_loop (out @ [x]) r2 = Inl e" by (simp add: read_loop.simps [of out r])
      moreover have "remaining r2 < remaining r"
        using read_value_remaining [OF _ a False] read_dom_all moved_remaining [OF r1(2)]
        by (auto intro: less_le_trans)
      moreover have "tracks f s r2" using read_placed(1) [OF t1 a] by simp
      ultimately show ?thesis using less.hyps by blast
    qed
  qed
qed

lemma read_fails: "read f s = Inl e \<Longrightarrow> fails_at f s e"
  using read_loop_fails [of f s "start_reader f s" "[]" e]
  by (simp add: read_def start_reader_def tracks_def line_of_def col_of_def)

section \<open>Properties\<close>

text \<open>
  C22. Every value the reader returns stands where its position says: counting lines and columns in
  the source up to the value's first byte gives its line and column, at every depth of the tree.
\<close>

theorem read_values_are_placed:
  assumes "read f s = Inr vs" and "v \<in> set vs"
  shows "placed f s v"
  using assms by (rule read_positions)

theorem read_values_are_placed_witness:
  "\<exists>v. read ''f'' (char_nl # ''  (a)'') = Inr [v] \<and> placed ''f'' (char_nl # ''  (a)'') v"
proof -
  have "case read ''f'' (char_nl # ''  (a)'') of Inr vs \<Rightarrow> length vs = 1 | _ \<Rightarrow> False" by code_simp
  then obtain v where "read ''f'' (char_nl # ''  (a)'') = Inr [v]"
    by (auto split: sum.splits simp: length_Suc_conv)
  with read_values_are_placed [OF this, of v] show ?thesis by auto
qed


end
