(* ===== verification/SexpPrint.thy ===== *)
theory SexpPrint
  imports Sexp
begin

text \<open>
  Printing values as text, and the reader as its inverse (\<open>src/sexp/reader.go\<close>). The program has
  no printer: \<open>print_value\<close> is the specification of what a text for a value is, and the reader
  is correct with respect to it. Every value the reader returns is \<open>printable\<close>, and the text of
  printable values reads back as the same values up to their positions (\<open>bare\<close> forgets those).

  \<open>ahead r s\<close> says that the text \<open>s\<close> is what the reader \<open>r\<close> has still to read.
\<close>

section \<open>Printing\<close>

definition escape_char :: "char \<Rightarrow> string" where
  "escape_char c =
     (if c = char_nl then [char_backslash, CHR ''n'']
      else if c = char_tab then [char_backslash, CHR ''t'']
      else if c = char_backslash \<or> c = char_dquote then [char_backslash, c]
      else [c])"

fun print_value :: "sval \<Rightarrow> string" where
  "print_value (SVal k t xs p) =
     (if k = KList then ''('' @ join '' '' (map print_value xs) @ '')''
      else if k = KString then [char_dquote] @ concat (map escape_char t) @ [char_dquote]
      else t)"

definition print_lines :: "sval list \<Rightarrow> string" where
  "print_lines vs = concat (map (\<lambda>v. print_value v @ [char_nl]) vs)"

text \<open>The values that have a text: an atom is a word that classifies as its kind.\<close>

definition word_ok :: "string \<Rightarrow> bool" where
  "word_ok t \<longleftrightarrow> t \<noteq> [] \<and> t \<noteq> '':'' \<and> list_all (\<lambda>c. \<not> is_delim c) t"

fun printable :: "sval \<Rightarrow> bool" where
  "printable (SVal k t xs p) \<longleftrightarrow>
     (if k = KList then t = [] \<and> list_all printable xs
      else xs = [] \<and> (k = KString \<or> word_ok t \<and> k = classify t))"

fun bare :: "sval \<Rightarrow> sval" where
  "bare (SVal k t xs p) = SVal k t (map bare xs) no_pos"

section \<open>The text ahead of a reader\<close>

definition ahead :: "reader \<Rightarrow> string \<Rightarrow> bool" where
  "ahead r s \<longleftrightarrow> idx r \<le> length (src r) \<and> drop (idx r) (src r) = s"

lemma ahead_Nil: "ahead r [] \<Longrightarrow> eof r"
  by (simp add: ahead_def eof_def)

lemma ahead_Cons:
  assumes "ahead r (c # s)"
  shows "\<not> eof r" "peek r = c" "src r ! idx r = c" "ahead (step_char r c) s"
proof -
  have l: "idx r < length (src r)"
  proof (rule ccontr)
    assume "\<not> idx r < length (src r)"
    with assms show False by (simp add: ahead_def)
  qed
  then have "drop (idx r) (src r) = src r ! idx r # drop (Suc (idx r)) (src r)"
    by (simp add: Cons_nth_drop_Suc)
  with assms have s: "src r ! idx r = c" "drop (Suc (idx r)) (src r) = s" by (auto simp: ahead_def)
  with l show "\<not> eof r" "peek r = c" "src r ! idx r = c" "ahead (step_char r c) s"
    by (simp_all add: eof_def peek_def ahead_def)
qed

lemma advance_ahead: "ahead r (c # s) \<Longrightarrow> advance r = Inr (c, step_char r c)"
  using ahead_Cons [of r c s] by simp

lemma skip_space_here:
  "ahead r (c # s) \<Longrightarrow> \<not> is_space c \<Longrightarrow> c \<noteq> CHR '';'' \<Longrightarrow> skip_space r = Inr r"
  using ahead_Cons [of r c s] by (simp add: skip_space_stop)

lemma skip_space_blank:
  "ahead r (b # s) \<Longrightarrow> is_space b \<Longrightarrow> skip_space r = skip_space (step_char r b)"
  using ahead_Cons [of r b s] by (simp add: skip_space_ws)

section \<open>Words and strings\<close>

text \<open>What follows a value: nothing, or a byte that ends a word.\<close>

definition ended :: "string \<Rightarrow> bool" where
  "ended s \<longleftrightarrow> s = [] \<or> is_delim (hd s)"

lemma atom_loop_ahead:
  assumes "ahead r (t @ s)" "list_all (\<lambda>c. \<not> is_delim c) t" "ended s"
  shows "\<exists>r'. atom_loop r = Inr r' \<and> ahead r' s \<and> idx r' = idx r + length t"
  using assms(1,2)
proof (induction t arbitrary: r)
  case Nil
  have "eof r \<or> is_delim (peek r)"
    using Nil assms(3) ahead_Nil [of r] ahead_Cons(2) [of r "hd s" "tl s"]
    by (cases s) (auto simp: ended_def)
  with Nil show ?case by (subst atom_loop.simps) auto
next
  case (Cons c t)
  note a = ahead_Cons [OF Cons.prems(1) [simplified]]
  from Cons.IH [OF a(4)] Cons.prems(2) obtain r' where
    "atom_loop (step_char r c) = Inr r'" "ahead r' s" "idx r' = Suc (idx r) + length t"
    by auto
  with a Cons.prems(2) show ?case by (subst atom_loop.simps) simp
qed

lemma read_atom_ahead:
  assumes "ahead r (t @ s)" "word_ok t" "ended s"
  shows "\<exists>r'. read_atom r = Inr (SVal (classify t) t [] (cur_pos r), r') \<and> ahead r' s"
proof -
  from atom_loop_ahead [OF assms(1) _ assms(3)] assms(2) obtain r' where
    r': "atom_loop r = Inr r'" "ahead r' s" "idx r' = idx r + length t"
    by (auto simp: word_ok_def)
  have "take (length t) (drop (idx r) (src r)) = t" using assms(1) by (simp add: ahead_def)
  with r' assms(2) show ?thesis by (simp add: read_atom_def word_ok_def)
qed

lemma string_loop_ahead:
  assumes "ahead r (concat (map escape_char t) @ char_dquote # s)"
  shows "\<exists>r'. string_loop p sb r = Inr (SVal KString (sb @ t) [] p, r') \<and> ahead r' s"
  using assms
proof (induction t arbitrary: sb r)
  case Nil
  then have a: "ahead r (char_dquote # s)" by simp
  from ahead_Cons [OF a] show ?case by (subst string_loop.simps) simp
next
  case (Cons c t)
  let ?rest = "concat (map escape_char t) @ char_dquote # s"
  show ?case
  proof (cases "c \<in> {char_nl, char_tab, char_backslash, char_dquote}")
    case True
    then obtain e where e: "escape_char c = [char_backslash, e]"
        "e = CHR ''n'' \<and> c = char_nl \<or> e = CHR ''t'' \<and> c = char_tab
          \<or> e = char_backslash \<and> c = char_backslash \<or> e = char_dquote \<and> c = char_dquote"
      by (auto simp: escape_char_def)
    then have a: "ahead r (char_backslash # e # ?rest)" using Cons.prems by simp
    note a1 = ahead_Cons [OF a]
    note a2 = ahead_Cons [OF a1(4)]
    from Cons.IH [OF a2(4), of "sb @ [c]"] obtain r' where
      "string_loop p (sb @ [c]) (step_char (step_char r char_backslash) e)
         = Inr (SVal KString (sb @ c # t) [] p, r')" "ahead r' s"
      by auto
    with e(2) a1 a2 show ?thesis by (subst string_loop.simps) auto
  next
    case False
    then have e: "escape_char c = [c]" by (auto simp: escape_char_def)
    then have a: "ahead r (c # ?rest)" using Cons.prems by simp
    note a1 = ahead_Cons [OF a]
    from Cons.IH [OF a1(4), of "sb @ [c]"] obtain r' where
      "string_loop p (sb @ [c]) (step_char r c) = Inr (SVal KString (sb @ c # t) [] p, r')" "ahead r' s"
      by auto
    with False a1 show ?thesis by (subst string_loop.simps) auto
  qed
qed

lemma read_string_ahead:
  assumes "ahead r (char_dquote # concat (map escape_char t) @ char_dquote # s)"
  shows "\<exists>r'. read_string r = Inr (SVal KString t [] (cur_pos r), r') \<and> ahead r' s"
  using string_loop_ahead [OF ahead_Cons(4) [OF assms], of "cur_pos r" "[]"]
  by (simp add: read_string_def advance_ahead [OF assms])

section \<open>Values\<close>

text \<open>The first byte of a printed value is none that the reader skips or closes a list at.\<close>

lemma print_value_head:
  assumes "printable v"
  shows "\<exists>c s. print_value v = c # s \<and> \<not> is_space c \<and> c \<noteq> CHR '';'' \<and> c \<noteq> CHR '')''"
proof (cases v)
  case (SVal k t xs p)
  show ?thesis
  proof (cases "k = KList \<or> k = KString")
    case True
    then show ?thesis by (auto simp: SVal is_space_def)
  next
    case False
    then have "word_ok t" using assms by (simp add: SVal split: if_splits)
    then obtain c s where "t = c # s" "\<not> is_delim c" by (cases t) (auto simp: word_ok_def)
    with False show ?thesis by (auto simp: SVal is_delim_def)
  qed
qed

lemma print_items:
  "join '' '' (map print_value (x # xs))
     = print_value x @ concat (map (\<lambda>y. '' '' @ print_value y) xs)"
  by (induction xs arbitrary: x) simp_all

lemma items_ended: "ended (concat (map (\<lambda>y. '' '' @ print_value y) xs) @ '')'' @ s)"
  by (cases xs) (auto simp: ended_def is_delim_def is_space_def)

text \<open>What reading the text of a value gives, to be shown for all values at once.\<close>

definition reads_back :: "sval \<Rightarrow> bool" where
  "reads_back v \<longleftrightarrow> (\<forall>r s. ahead r (print_value v @ s) \<and> ended s \<longrightarrow>
     (\<exists>w r'. read_value r = Inr (w, r') \<and> bare w = bare v \<and> ahead r' s))"

lemma read_items_step:
  assumes "ahead r (sep @ print_value x @ concat (map (\<lambda>y. '' '' @ print_value y) xs) @ '')'' @ s)"
    and "sep = [] \<or> sep = '' ''" and "printable x" and "reads_back x"
  shows "\<exists>w r'. read_items p acc r = read_items p (acc @ [w]) r' \<and> bare w = bare x
    \<and> ahead r' (concat (map (\<lambda>y. '' '' @ print_value y) xs) @ '')'' @ s)"
proof -
  let ?rest = "concat (map (\<lambda>y. '' '' @ print_value y) xs) @ '')'' @ s"
  from print_value_head [OF assms(3)] obtain c u where
    c: "print_value x = c # u" "\<not> is_space c" "c \<noteq> CHR '';''" "c \<noteq> CHR '')''" by blast
  have "\<exists>r1. skip_space r = Inr r1 \<and> ahead r1 (print_value x @ ?rest)"
  proof (cases "sep = []")
    case True
    with assms(1) c skip_space_here [of r c] show ?thesis by auto
  next
    case False
    then have a: "ahead r (CHR '' '' # print_value x @ ?rest)" using assms(1,2) by simp
    from skip_space_blank [OF a] skip_space_here [of "step_char r CHR '' ''" c] ahead_Cons(4) [OF a] c
    show ?thesis by (auto simp: is_space_def)
  qed
  then obtain r1 where r1: "skip_space r = Inr r1" "ahead r1 (print_value x @ ?rest)" by blast
  with assms(4) items_ended obtain w r' where
    w: "read_value r1 = Inr (w, r')" "bare w = bare x" "ahead r' ?rest"
    unfolding reads_back_def by blast
  have "\<not> eof r1" "peek r1 \<noteq> CHR '')''"
    using ahead_Cons [of r1 c] r1(2) c by auto
  with r1 w show ?thesis by (subst read_items.simps) auto
qed

lemma read_items_end:
  assumes "ahead r ('')'' @ s)"
  shows "\<exists>r'. read_items p acc r = Inr (SVal KList [] acc p, r') \<and> ahead r' s"
proof -
  from assms have a: "ahead r (CHR '')'' # s)" by simp
  have "skip_space r = Inr r" using skip_space_here [OF a] by (simp add: is_space_def)
  with ahead_Cons [OF a] show ?thesis by (subst read_items.simps) simp
qed

lemma read_items_rest:
  assumes "ahead r (concat (map (\<lambda>y. '' '' @ print_value y) xs) @ '')'' @ s)"
    and "list_all printable xs" and "\<forall>x \<in> set xs. reads_back x"
  shows "\<exists>ws r'. read_items p acc r = Inr (SVal KList [] (acc @ ws) p, r')
    \<and> map bare ws = map bare xs \<and> ahead r' s"
  using assms
proof (induction xs arbitrary: acc r)
  case Nil
  then show ?case using read_items_end [of r s p acc] by simp
next
  case (Cons x xs)
  then have "ahead r ('' '' @ print_value x @ concat (map (\<lambda>y. '' '' @ print_value y) xs) @ '')'' @ s)"
    by simp
  from read_items_step [OF this, of p acc] Cons.prems obtain w r' where
    w: "read_items p acc r = read_items p (acc @ [w]) r'" "bare w = bare x"
      "ahead r' (concat (map (\<lambda>y. '' '' @ print_value y) xs) @ '')'' @ s)"
    by auto
  from Cons.IH [OF w(3), of "acc @ [w]"] Cons.prems obtain ws r'' where
    ws: "read_items p (acc @ [w]) r' = Inr (SVal KList [] ((acc @ [w]) @ ws) p, r'')"
      "map bare ws = map bare xs" "ahead r'' s"
    by auto
  show ?case
    by (rule exI [of _ "w # ws"], rule exI [of _ r'']) (use w(1,2) ws in simp)
qed

lemma read_items_all:
  assumes "ahead r (join '' '' (map print_value xs) @ '')'' @ s)"
    and "list_all printable xs" and "\<forall>x \<in> set xs. reads_back x"
  shows "\<exists>ws r'. read_items p [] r = Inr (SVal KList [] ws p, r')
    \<and> map bare ws = map bare xs \<and> ahead r' s"
proof (cases xs)
  case Nil
  then show ?thesis using assms(1) read_items_end [of r s p "[]"] by simp
next
  case (Cons x ys)
  with assms(1) have "ahead r ([] @ print_value x @ concat (map (\<lambda>y. '' '' @ print_value y) ys) @ '')'' @ s)"
    by (simp only: print_items append_assoc append_Nil)
  from read_items_step [OF this, of p "[]"] Cons assms(2,3) obtain w r' where
    w: "read_items p [] r = read_items p [w] r'" "bare w = bare x"
      "ahead r' (concat (map (\<lambda>y. '' '' @ print_value y) ys) @ '')'' @ s)"
    by auto
  from read_items_rest [OF w(3), of p "[w]"] Cons assms(2,3) obtain ws r'' where
    ws: "read_items p [w] r' = Inr (SVal KList [] ([w] @ ws) p, r'')"
      "map bare ws = map bare ys" "ahead r'' s"
    by auto
  show ?thesis
    by (rule exI [of _ "w # ws"], rule exI [of _ r'']) (use w(1,2) ws Cons in simp)
qed

lemma printed_reads_back: "printable v \<Longrightarrow> reads_back v"
proof (induction v)
  case (SVal k t xs p)
  show ?case unfolding reads_back_def
  proof (intro allI impI, elim conjE)
    fix r s
    assume a: "ahead r (print_value (SVal k t xs p) @ s)" and e: "ended s"
    consider "k = KList" | "k = KString" | "k \<noteq> KList" "k \<noteq> KString" by blast
    then show "\<exists>w r'. read_value r = Inr (w, r') \<and> bare w = bare (SVal k t xs p) \<and> ahead r' s"
    proof cases
      case 1
      with a have a': "ahead r (CHR ''('' # join '' '' (map print_value xs) @ '')'' @ s)" by simp
      note a1 = ahead_Cons [OF a']
      have xs: "list_all printable xs" "\<forall>x \<in> set xs. reads_back x" "t = []"
        using SVal 1 by (auto simp: list_all_iff)
      from read_items_all [OF a1(4) xs(1,2)] obtain ws r' where
        "read_items (cur_pos r) [] (step_char r CHR ''('') = Inr (SVal KList [] ws (cur_pos r), r')"
        "map bare ws = map bare xs" "ahead r' s"
        by blast
      with a1 xs(3) 1 show ?thesis by (simp add: read_value.simps [of r] read_list.simps [of r])
    next
      case 2
      with a have a': "ahead r (char_dquote # concat (map escape_char t) @ char_dquote # s)" by simp
      from read_string_ahead [OF a'] ahead_Cons [OF a'] SVal.prems 2 show ?thesis
        by (auto simp: read_value.simps [of r])
    next
      case 3
      with SVal.prems have t: "word_ok t" "k = classify t" "xs = []" by auto
      from 3 a have a': "ahead r (t @ s)" by simp
      from t(1) obtain c u where c: "t = c # u" "\<not> is_delim c" by (cases t) (auto simp: word_ok_def)
      with a' have "peek r = c" using ahead_Cons(2) [of r c] by simp
      with c read_atom_ahead [OF a' t(1) e] t show ?thesis
        by (auto simp: read_value.simps [of r] is_delim_def)
    qed
  qed
qed

lemma read_lines_ahead:
  assumes "ahead r (print_lines vs)" "list_all printable vs"
  shows "\<exists>ws. read_loop out r = Inr (out @ ws) \<and> map bare ws = map bare vs"
proof -
  have "\<exists>ws. read_loop out r = Inr (out @ ws) \<and> map bare ws = map bare vs"
    if "ahead r (sep @ print_lines vs)" "sep = [] \<or> sep = [char_nl]" for sep
    using that assms(2)
  proof (induction vs arbitrary: out r sep)
    case Nil
    have "\<exists>r1. skip_space r = Inr r1 \<and> eof r1"
    proof (cases "sep = []")
      case True
      with Nil ahead_Nil [of r] show ?thesis by (auto simp: print_lines_def skip_space_stop)
    next
      case False
      with Nil have a: "ahead r [char_nl]" by (simp add: print_lines_def)
      from skip_space_blank [OF a] ahead_Nil [OF ahead_Cons(4) [OF a]] show ?thesis
        by (simp add: is_space_def skip_space_stop)
    qed
    then show ?case by (subst read_loop.simps) auto
  next
    case (Cons v vs)
    have v: "printable v" "reads_back v" using Cons.prems(3) printed_reads_back by auto
    from print_value_head [OF v(1)] obtain c u where
      c: "print_value v = c # u" "\<not> is_space c" "c \<noteq> CHR '';''" by blast
    let ?rest = "[char_nl] @ print_lines vs"
    have p: "print_lines (v # vs) = print_value v @ ?rest" by (simp add: print_lines_def)
    have "\<exists>r1. skip_space r = Inr r1 \<and> ahead r1 (print_value v @ ?rest)"
    proof (cases "sep = []")
      case True
      with Cons.prems(1) c p skip_space_here [of r c] show ?thesis by auto
    next
      case False
      then have a: "ahead r (char_nl # print_value v @ ?rest)" using Cons.prems(1,2) p by simp
      from skip_space_blank [OF a] skip_space_here [of "step_char r char_nl" c] ahead_Cons(4) [OF a] c
      show ?thesis by (auto simp: is_space_def)
    qed
    then obtain r1 where r1: "skip_space r = Inr r1" "ahead r1 (print_value v @ ?rest)" by blast
    have "ended ?rest" by (simp add: ended_def is_delim_def is_space_def)
    with r1 v(2) obtain w r' where
      w: "read_value r1 = Inr (w, r')" "bare w = bare v" "ahead r' ?rest"
      unfolding reads_back_def by blast
    have "\<not> eof r1" using ahead_Cons(1) [of r1 c] r1(2) c by auto
    moreover from Cons.IH [OF w(3), of "out @ [w]"] Cons.prems(3) obtain ws where
      "read_loop (out @ [w]) r' = Inr ((out @ [w]) @ ws)" "map bare ws = map bare vs"
      by auto
    ultimately show ?case
      by (intro exI [of _ "w # ws"]) (subst read_loop.simps, simp add: r1(1) w(1,2))
  qed
  from this [of "[]"] assms(1) show ?thesis by simp
qed

lemma printed_lines_read_back:
  assumes "list_all printable vs"
  shows "\<exists>ws. read f (print_lines vs) = Inr ws \<and> map bare ws = map bare vs"
proof -
  have "ahead (start_reader f (print_lines vs)) (print_lines vs)"
    by (simp add: ahead_def start_reader_def)
  from read_lines_ahead [OF this assms, of "[]"] show ?thesis by (simp add: read_def)
qed

section \<open>What the reader returns is printable\<close>

lemma moved_idx: "moved r r1 \<Longrightarrow> idx r1 \<le> length (src r1)"
  by (auto simp: moved_def)

lemma remaining_two_steps:
  "\<not> eof r \<Longrightarrow> \<not> eof (step_char r c) \<Longrightarrow> remaining (step_char (step_char r c) d) < remaining r"
  using less_trans [OF remaining_step remaining_step] by blast

lemma string_loop_printable: "string_loop p sb r = Inr (v, r') \<Longrightarrow> printable v"
proof (induction "remaining r" arbitrary: sb r rule: less_induct)
  case less
  from less.prems show ?case
    by (subst (asm) string_loop.simps)
       (auto split: if_splits sum.splits elim!: less.hyps [rotated] intro: remaining_two_steps)
qed

lemma read_string_printable: "read_string r = Inr (v, r') \<Longrightarrow> printable v"
  by (auto simp: read_string_def dest: string_loop_printable split: sum.splits)

lemma nth_take_drop:
  assumes "c \<in> set (take (j - i) (drop i s))"
  shows "\<exists>k. i \<le> k \<and> k < j \<and> c = s ! k"
proof -
  from assms obtain m where m: "m < length (take (j - i) (drop i s))" "c = take (j - i) (drop i s) ! m"
    by (metis in_set_conv_nth)
  then show ?thesis by (intro exI [of _ "i + m"]) auto
qed

lemma read_atom_printable:
  assumes "read_atom r = Inr (v, r')" "idx r \<le> length (src r)"
  shows "printable v"
proof -
  from atom_loop_total [OF assms(2)] obtain r1 where r1: "atom_loop r = Inr r1"
    "\<forall>k. idx r \<le> k \<and> k < idx r1 \<longrightarrow> \<not> is_delim (src r ! k)" by blast
  let ?t = "take (idx r1 - idx r) (drop (idx r) (src r))"
  from assms(1) r1(1) have v: "v = SVal (classify ?t) ?t [] (cur_pos r)" "?t \<noteq> []" "?t \<noteq> '':''"
    by (auto simp: read_atom_def Let_def split: if_splits)
  have "list_all (\<lambda>c. \<not> is_delim c) ?t"
    unfolding list_all_iff using nth_take_drop [of _ "idx r1" "idx r" "src r"] r1(2) by blast
  with v(2,3) have "word_ok ?t" by (simp add: word_ok_def)
  moreover have "classify ?t \<noteq> KList" "classify ?t \<noteq> KString" by (simp_all add: classify_def)
  ultimately show ?thesis by (simp add: v(1))
qed

lemma read_printable:
  shows "read_value r = Inr (v, r') \<Longrightarrow> idx r \<le> length (src r) \<Longrightarrow> printable v"
    and "read_list r = Inr (v, r') \<Longrightarrow> \<not> eof r \<Longrightarrow> printable v"
    and "read_items p items r = Inr (v, r') \<Longrightarrow> idx r \<le> length (src r)
           \<Longrightarrow> list_all printable items \<Longrightarrow> printable v"
proof (induction r and r and p items r arbitrary: v r' and v r' and v r'
    rule: read_value_read_list_read_items.induct)
  case (1 r)
  have "\<not> eof r" if "peek r = CHR ''(''" using that by (auto simp: peek_def)
  with 1 show ?case
    by (auto simp: read_value.simps [of r] split: if_splits
        dest: read_string_printable read_atom_printable)
next
  case (2 r)
  from "2.prems" have "read_items (cur_pos r) [] (step_char r (src r ! idx r)) = Inr (v, r')"
    by (simp add: read_list.simps [of r])
  from "2.IH" [OF advance_ok [OF "2.prems"(2)] refl this] "2.prems"(2) show ?case
    by (auto simp: eof_def)
next
  case (3 p items r)
  obtain r1 where r1: "skip_space r = Inr r1" "moved r r1"
    using skip_space_total [OF "3.prems"(2)] by blast
  have e: "\<not> eof r1" using "3.prems"(1) r1 by (auto simp: read_items.simps [of p items r])
  have i1: "idx r1 \<le> length (src r1)" using moved_idx [OF r1(2)] .
  show ?case
  proof (cases "peek r1 = CHR '')''")
    case True
    with "3.prems" r1 e show ?thesis by (auto simp: read_items.simps [of p items r])
  next
    case False
    with "3.prems"(1) r1 e obtain x r2
      where x: "read_value r1 = Inr (x, r2)" "read_items p (items @ [x]) r2 = Inr (v, r')"
      by (auto simp: read_items.simps [of p items r] split: sum.splits)
    have "printable x" using "3.IH"(1) [OF r1(1) e False x(1) i1] .
    moreover have "idx r2 \<le> length (src r2)" using read_value_reads [OF i1] x(1) by (auto simp: moved_def)
    ultimately show ?thesis
      using "3.IH"(2) [OF r1(1) e False x(1) refl x(2)] "3.prems"(3) by simp
  qed
qed

lemma read_loop_printable:
  "idx r \<le> length (src r) \<Longrightarrow> list_all printable out \<Longrightarrow> read_loop out r = Inr vs
     \<Longrightarrow> list_all printable vs"
proof (induction "remaining r" arbitrary: out r rule: less_induct)
  case less
  obtain r1 where r1: "skip_space r = Inr r1" "moved r r1"
    using skip_space_total [OF less.prems(1)] by blast
  have i1: "idx r1 \<le> length (src r1)" using moved_idx [OF r1(2)] .
  show ?case
  proof (cases "eof r1")
    case True
    with less.prems r1 show ?thesis by (simp add: read_loop.simps [of out r])
  next
    case False
    with less.prems(3) r1 obtain v r2
      where v: "read_value r1 = Inr (v, r2)" "read_loop (out @ [v]) r2 = Inr vs"
      by (auto simp: read_loop.simps [of out r] split: sum.splits)
    have "moved r1 r2" "idx r1 < idx r2" using read_value_reads [OF i1] v(1) by simp_all
    then have "remaining r2 < remaining r" "idx r2 \<le> length (src r2)"
      using moved_remaining [OF r1(2)] by (auto simp: moved_def remaining_def)
    then show ?thesis
      using less.hyps [OF _ _ _ v(2)] less.prems(2) read_printable(1) [OF v(1) i1] by simp
  qed
qed

lemma read_all_printable: "read f s = Inr vs \<Longrightarrow> list_all printable vs"
  unfolding read_def by (rule read_loop_printable [rotated 2]) (auto simp: start_reader_def)

section \<open>Properties\<close>

text \<open>
  C10. The reader inverts printing: the text of any printable values, one form per line and with
  every string escaped, reads back as the same values up to their positions; and whatever the
  reader returns for any text is printable, so a file can be rewritten in this normal form without
  changing what it says.
\<close>

theorem printing_reads_back:
  "(list_all printable ws \<longrightarrow> (\<exists>us. read f (print_lines ws) = Inr us \<and> map bare us = map bare ws))
   \<and> (read g s = Inr vs \<longrightarrow> list_all printable vs
        \<and> (\<exists>us. read f (print_lines vs) = Inr us \<and> map bare us = map bare vs))"
  using printed_lines_read_back read_all_printable by blast

theorem printing_reads_back_witness:
  "\<exists>vs us. read ''g'' ('' (a :k '' @ [char_dquote, char_backslash, CHR ''n'', char_dquote] @ ''(b)) ; c'') = Inr vs
     \<and> length vs = 1 \<and> read ''f'' (print_lines vs) = Inr us \<and> map bare us = map bare vs"
proof -
  let ?s = "'' (a :k '' @ [char_dquote, char_backslash, CHR ''n'', char_dquote] @ ''(b)) ; c''"
  have "case read ''g'' ?s of Inr vs \<Rightarrow> length vs = 1 | Inl _ \<Rightarrow> False" by code_simp
  then obtain vs where vs: "read ''g'' ?s = Inr vs" "length vs = 1" by (auto split: sum.splits)
  from printing_reads_back [of "[]" "''f''" "''g''" ?s vs] vs show ?thesis by blast
qed

end
