(* ===== verification/Machine.thy ===== *)
theory Machine
  imports Devices
begin

text \<open>
  A script on its way: the commands one after the other as a step relation between
  configurations, each the commands that are left and the machine so far. \<open>run_devices\<close> of \<open>Devices\<close>
  is its big-step reading. The invariant of the machine holds in every configuration that is
  reached, so also in a run that is interrupted; and a run that makes interfaces and brings them up in
  the same order never has an interface up on one that is down.
\<close>

section \<open>Steps\<close>

inductive does :: "command \<Rightarrow> machine \<Rightarrow> machine \<Rightarrow> bool" where
  Makes: "device_op (argv c) = MakeDev d us \<Longrightarrow> d \<notin> set (m_devs m) \<Longrightarrow> set us \<subseteq> set (m_devs m)
      \<Longrightarrow> does c m (m\<lparr>m_devs := m_devs m @ [d]\<rparr>)"
| Uses: "device_op (argv c) = UseDev d \<Longrightarrow> d \<in> set (m_devs m) \<Longrightarrow> does c m m"
| Ups: "device_op (argv c) = UpDev d \<Longrightarrow> d \<in> set (m_devs m)
      \<Longrightarrow> does c m (m\<lparr>m_up := m_up m @ [d]\<rparr>)"

code_pred does .

inductive_cases doesE: "does c m m'"

type_synonym configuration = "script \<times> machine"

inductive run_step :: "configuration \<Rightarrow> configuration \<Rightarrow> bool" where
  Step: "does c m m' \<Longrightarrow> run_step (c # cs, m) (cs, m')"

code_pred run_step .

inductive_cases run_stepE: "run_step x y"
inductive_simps run_step_Nil [simp]: "run_step ([], m) y"
inductive_simps run_step_Cons: "run_step (c # cs, m) y"

abbreviation reaches :: "configuration \<Rightarrow> configuration \<Rightarrow> bool" where
  "reaches \<equiv> run_step\<^sup>*\<^sup>*"

lemma does_iff: "does c m m' \<longleftrightarrow> device_step c m = Some m'"
proof
  show "does c m m' \<Longrightarrow> device_step c m = Some m'"
    by (auto simp: device_step_def elim!: doesE)
  show "device_step c m = Some m' \<Longrightarrow> does c m m'"
    by (auto simp: device_step_def split: device_op.splits if_splits intro: does.intros)
qed

text \<open>The steps and the run as a whole agree.\<close>

lemma reaches_run: "reaches x y \<Longrightarrow> run_devices (fst x) (snd x) = run_devices (fst y) (snd y)"
proof (induction rule: converse_rtranclp_induct)
  case (step x z)
  from step.hyps(1) step.IH show ?case by (auto simp: does_iff elim!: run_stepE)
qed simp

lemma run_reaches: "run_devices s m = Some m' \<Longrightarrow> reaches (s, m) ([], m')"
proof (induction s arbitrary: m)
  case (Cons c cs)
  then obtain m1 where "device_step c m = Some m1" "run_devices cs m1 = Some m'"
    by (auto split: option.splits)
  then have "run_step (c # cs, m) (cs, m1)" "reaches (cs, m1) ([], m')"
    using Cons.IH by (simp_all add: run_step_Cons does_iff)
  then show ?case by (rule converse_rtranclp_into_rtranclp)
qed simp

lemma run_devices_reaches: "run_devices s m = Some m' \<longleftrightarrow> reaches (s, m) ([], m')"
  using run_reaches reaches_run by fastforce

section \<open>The invariant\<close>

definition machine_ok :: "machine \<Rightarrow> bool" where
  "machine_ok m \<longleftrightarrow> distinct (m_devs m) \<and> set (m_up m) \<subseteq> set (m_devs m)"

lemma does_ok: "does c m m' \<Longrightarrow> machine_ok m \<Longrightarrow> machine_ok m'"
  by (auto simp: machine_ok_def elim!: doesE)

lemma reaches_ok: "reaches x y \<Longrightarrow> machine_ok (snd x) \<Longrightarrow> machine_ok (snd y)"
proof (induction rule: rtranclp_induct)
  case (step y z)
  from step.hyps(2) step.IH [OF step.prems] show ?case by (auto dest: does_ok elim!: run_stepE)
qed simp

text \<open>Devices and interfaces that are up only ever are added.\<close>

definition grows :: "machine \<Rightarrow> machine \<Rightarrow> bool" where
  "grows m m' \<longleftrightarrow> prefix (m_devs m) (m_devs m') \<and> prefix (m_up m) (m_up m')"

lemma does_grows: "does c m m' \<Longrightarrow> grows m m'"
  by (auto simp: grows_def elim!: doesE)

lemma grows_trans: "grows m n \<Longrightarrow> grows n k \<Longrightarrow> grows m k"
  unfolding grows_def using prefix_order.trans by blast

lemma reaches_grows: "reaches x y \<Longrightarrow> grows (snd x) (snd y)"
proof (induction rule: rtranclp_induct)
  case (step y z)
  from step.hyps(2) have "grows (snd y) (snd z)" by (auto dest: does_grows elim!: run_stepE)
  with step.IH show ?case by (rule grows_trans)
qed (simp add: grows_def)

lemma run_grows: "run_devices s m = Some m' \<Longrightarrow> grows m m'"
  using reaches_grows [OF run_reaches] by fastforce

lemma reaches_final:
  assumes "run_devices s m = Some m'" "reaches (s, m) (cs, m1)"
  shows "grows m1 m'"
  using reaches_run [OF assms(2)] assms(1) by (intro run_grows [of cs]) simp

section \<open>What an interface stands on\<close>

text \<open>An interface that a run leaves behind was made at some point, on interfaces there were then.\<close>

lemma made_at:
  assumes "run_devices s m = Some m'" "d \<in> set (m_devs m')" "d \<notin> set (m_devs m)"
  shows "\<exists>c \<in> set s. \<exists>us devs. device_op (argv c) = MakeDev d us \<and> set us \<subseteq> set devs
    \<and> prefix (m_devs m) devs \<and> prefix (devs @ [d]) (m_devs m')"
  using assms
proof (induction s arbitrary: m)
  case (Cons c cs)
  then obtain m1 where m1: "device_step c m = Some m1" "run_devices cs m1 = Some m'"
    by (auto split: option.splits)
  from m1(1) have d: "does c m m1" by (simp add: does_iff)
  show ?case
  proof (cases "d \<in> set (m_devs m1)")
    case True
    with d Cons.prems(3) obtain us where "device_op (argv c) = MakeDev d us" "set us \<subseteq> set (m_devs m)"
      "m_devs m1 = m_devs m @ [d]" by (auto elim!: doesE)
    with run_grows [OF m1(2)] show ?thesis
      by (intro bexI [of _ c] exI [of _ us] exI [of _ "m_devs m"]) (auto simp: grows_def)
  next
    case False
    from Cons.IH [OF m1(2) Cons.prems(2) False] obtain c' us devs where "c' \<in> set cs"
      "device_op (argv c') = MakeDev d us" "set us \<subseteq> set devs"
      "prefix (m_devs m1) devs" "prefix (devs @ [d]) (m_devs m')" by blast
    moreover have "prefix (m_devs m) (m_devs m1)" using does_grows [OF d] by (simp add: grows_def)
    ultimately show ?thesis using prefix_order.trans by (intro bexI [of _ c'] exI [of _ us] exI [of _ devs]) auto
  qed
qed simp

text \<open>
  When interfaces come up in the order they were made, whatever is up stands on what is up, however
  far the run has got.
\<close>

lemma up_stands_on_up:
  assumes run: "run_devices s \<lparr>m_devs = [root], m_up = []\<rparr> = Some \<lparr>m_devs = root # ds, m_up = ds\<rparr>"
    and "distinct (root # ds)" and r: "reaches (s, \<lparr>m_devs = [root], m_up = []\<rparr>) (cs, m)"
    and d: "d \<in> set (m_up m)"
  shows "\<exists>c \<in> set s. \<exists>us. device_op (argv c) = MakeDev d us \<and> set us \<subseteq> insert root (set (m_up m))"
proof -
  from reaches_final [OF run r] obtain zs where ds: "ds = m_up m @ zs" by (auto simp: grows_def prefix_def)
  with d assms(2) have "d \<in> set (root # ds)" "d \<notin> set [root]" by auto
  with made_at [OF run, of d] obtain c us devs where c: "c \<in> set s" "device_op (argv c) = MakeDev d us"
    "set us \<subseteq> set devs" "prefix [root] devs" "prefix (devs @ [d]) (root # ds)" by auto
  then obtain xs ys where xs: "devs = root # xs" "ds = xs @ d # ys" by (auto simp: prefix_def)
  have "set xs \<subseteq> set (m_up m)"
  proof (cases "length xs \<le> length (m_up m)")
    case True
    with xs(2) ds show ?thesis by (metis append_eq_append_conv_if set_take_subset)
  next
    case False
    with xs(2) ds have "d \<in> set xs" using d by (metis append_eq_append_conv_if in_set_takeD le_cases)
    with xs(2) assms(2) show ?thesis by auto
  qed
  with c(1-3) xs(1) show ?thesis by fastforce
qed

end
