(* ===== verification/Tunnels.thy ===== *)
theory Tunnels
  imports Linux
begin

text \<open>
  What each iproute2 tile does, on its own: which tile is selected for which layers
  (\<open>src/tiles/linux/linux.go\<close>, as a table), and the complete command vectors of a tagged interface,
  of the point-to-point tunnels and of a WireGuard peer, with the name, the parent and the address
  each one uses. The names: a VXLAN device is called after its VNI, so that a second rule with
  the same VNI is refused.
\<close>

section \<open>Selecting a tile\<close>

text \<open>The table of the tiles: which one the names of the layers select.\<close>

fun tile_for :: "string list \<Rightarrow> tile option" where
  "tile_for (a # b # rest) =
     (if a = ''ethernet'' then (if b = ''vlan'' then Some VLAN else None)
      else if a \<noteq> ''ipv4'' then None
      else if b = ''ipv4'' then Some IPIP
      else if b = ''gre'' then
        (case rest of [] \<Rightarrow> None
         | c # _ \<Rightarrow> if c = ''ipv4'' then Some GRE else if c = ''ethernet'' then Some GRETAP else None)
      else if b = ''udp'' then
        (case rest of
           c # d # _ \<Rightarrow> if c = ''vxlan'' \<and> d = ''ethernet'' then Some VXLAN
                        else if c = ''wireguard'' \<and> d = ''ipv4'' then Some WireGuard else None
         | _ \<Rightarrow> None)
      else None)"
| "tile_for _ = None"

lemma linux_tile_cases:
  assumes "t \<in> set (r_tiles linux)" "t_lower t = Some f"
  obtains "t = IPIP" "f = lower_ipip" | "t = GRE" "f = lower_gre" | "t = GRETAP" "f = lower_gretap"
    | "t = VXLAN" "f = lower_vxlan" | "t = VLAN" "f = lower_vlan" | "t = WireGuard" "f = lower_wireguard"
  using assms by (auto simp: linux_def tile_defs)

lemma fits_linux:
  assumes "t \<in> set (r_tiles linux)"
  shows "fits sp i t \<longleftrightarrow> prefix (t_pattern t) (names (drop i sp))"
proof -
  have g: "t_guard t = None" and ne: "t_pattern t \<noteq> []"
    using assms by (auto simp: linux_def tile_defs)
  have tk: "names (take n xs) = take n (names xs)" for n xs by (simp add: names_def take_map)
  have ln: "length (names xs) = length xs" for xs by (simp add: names_def)
  show ?thesis
  proof
    assume "fits sp i t"
    then have "take (length (t_pattern t)) (names (drop i sp)) = t_pattern t"
      by (simp add: fits_def tk)
    then show "prefix (t_pattern t) (names (drop i sp))" by (metis take_is_prefix)
  next
    assume p: "prefix (t_pattern t) (names (drop i sp))"
    then have "length (t_pattern t) \<le> length sp - i" using prefix_length_le ln by fastforce
    moreover have "length (t_pattern t) > 0" using ne by simp
    ultimately have "i + length (t_pattern t) \<le> length sp" by linarith
    moreover have "take (length (t_pattern t)) (names (drop i sp)) = t_pattern t"
      using p by (auto simp: prefix_def)
    ultimately show "fits sp i t" by (simp add: fits_def refused_def g tk)
  qed
qed

lemma linux_filter:
  "filter (fits sp i) (r_tiles linux)
     = (case tile_for (names (drop i sp)) of None \<Rightarrow> [] | Some t \<Rightarrow> [t])"
proof -
  have "filter (fits sp i) (r_tiles linux)
      = filter (\<lambda>t. prefix (t_pattern t) (names (drop i sp))) (r_tiles linux)"
    by (rule filter_cong) (simp_all add: fits_linux)
  also have "\<dots> = (case tile_for (names (drop i sp)) of None \<Rightarrow> [] | Some t \<Rightarrow> [t])"
    by (cases "names (drop i sp)" rule: tile_for.cases)
       (auto simp: linux_def tile_defs split: list.split)
  finally show ?thesis .
qed

lemma linux_select:
  "i < length sp \<Longrightarrow> select_tile linux sp i = Inr (tile_for (names (drop i sp)))"
  by (simp add: select_tile_def match_at_eq linux_filter split: option.split)

lemma linux_choices_nil:
  "i < length sp \<Longrightarrow> choices linux sp i = [] \<longleftrightarrow> tile_for (names (drop i sp)) = None"
  by (simp add: linux.choices_nil linux_filter split: option.split)

lemma linux_choices_Cons:
  assumes "i < length sp" "tile_for (names (drop i sp)) = Some t"
  shows "choices linux sp i = t # choices linux sp (i + length (t_pattern t))"
proof -
  have "choices linux sp i \<noteq> []" using assms by (simp add: linux_choices_nil)
  then obtain u us where u: "choices linux sp i = u # us" by (cases "choices linux sp i") auto
  from linux.choices_Cons [OF u] have "select_tile linux sp i = Inr (Some u)"
    "us = choices linux sp (i + length (t_pattern u))" by blast+
  with linux_select [OF assms(1)] assms(2) u show ?thesis by simp
qed

text \<open>The choice depends on the names of the layers only.\<close>

lemma choices_names:
  assumes "names sp = names sp'"
  shows "choices linux sp i = choices linux sp' i"
proof (induction "length sp - i" arbitrary: i rule: less_induct)
  case less
  have l: "length sp = length sp'" using assms by (metis length_map names_def)
  have n: "names (drop i sp) = names (drop i sp')" using assms by (metis drop_map names_def)
  show ?case
  proof (cases "i < length sp")
    case True
    show ?thesis
    proof (cases "tile_for (names (drop i sp))")
      case None
      with True n l linux_choices_nil show ?thesis by metis
    next
      case (Some t)
      have "t_pattern t \<noteq> []"
        using linux_select [OF True] Some linux.choices_Cons [OF linux_choices_Cons [OF True Some]]
          linux.nonempty_pattern by blast
      then have "length sp - (i + length (t_pattern t)) < length sp - i" using True by (simp add: diff_less_mono2)
      from less.hyps [OF this] Some True n l show ?thesis
        by (simp add: linux_choices_Cons [of i sp t] linux_choices_Cons [of i sp' t])
    qed
  qed (simp add: choices.simps [of linux sp i] choices.simps [of linux sp' i] l)
qed

section \<open>Tagged interfaces\<close>

lemma lower_vlan_Inr:
  assumes "lower_vlan sp e = (Inr cmds, e')"
  obtains tag n p k e1 where "layer_at sp 1 = Inr tag"
    "get_prop tag VLANID = Inr (PConcrete n p k)"
    "claim (e_dev e @ ''.'' @ u16 n) e = (Inr (e_dev e @ ''.'' @ u16 n), e1)"
    "e' = enter (e_dev e @ ''.'' @ u16 n) e1"
    "map argv cmds = [[''ip'', ''link'', ''add'', ''link'', e_dev e, ''name'',
        e_dev e @ ''.'' @ u16 n, ''type'', ''vlan'', ''id'', u16 n]]"
proof -
  from assms obtain tag vid n e1 d where
    d: "layer_at sp 1 = Inr tag" "get_prop tag VLANID = Inr vid" "concrete vid = Some n"
      "claim (e_dev e @ ''.'' @ u16 n) e = (Inr d, e1)" "e' = enter d e1"
      "map argv cmds = [[''ip'', ''link'', ''add'', ''link'', e_dev e1, ''name'', d, ''type'', ''vlan'',
        ''id'', u16 n]]"
    by (auto simp: lower_vlan_def est_simps res_simps split: if_splits)
  from d(3) obtain p k where "vid = PConcrete n p k" by (auto simp: concrete_iff)
  with d claim_frame [OF d(4)] show thesis by (intro that [of tag n p k e1]) simp_all
qed

section \<open>Point-to-point tunnels\<close>

text \<open>The address command that the innermost layer of a routed tile gives.\<close>

lemma addr_on_eq:
  "addr_on n dev = Inr cs \<longleftrightarrow> (\<exists>a. address_of n = Inr a
     \<and> cs = (if a = [] then [] else [address_command a dev]))"
  by (auto simp: addr_on_def bindR_eq_Inr)

text \<open>The vector of the \<open>ip link add\<close> of a point-to-point tunnel.\<close>

definition tunnel_argv :: "string \<Rightarrow> string \<Rightarrow> string \<Rightarrow> string \<Rightarrow> string list \<Rightarrow> string list" where
  "tunnel_argv typ dev l r opts =
     [''ip'', ''link'', ''add'', ''name'', dev, ''type'', typ, ''local'', l, ''remote'', r] @ opts"

lemma lower_ipip_Inr:
  assumes "lower_ipip sp e = (Inr cmds, e')"
  shows "\<exists>outer inner l r dev e1 a. layer_at sp 0 = Inr outer \<and> layer_at sp 1 = Inr inner
    \<and> endpoints outer = Inr (l, r) \<and> alloc ''ipip'' e = (Inr dev, e1) \<and> e' = enter dev e1
    \<and> address_of inner = Inr a
    \<and> map argv cmds = tunnel_argv ''ipip'' dev l r []
        # (if a = [] then [] else [[''ip'', ''addr'', ''add'', a, ''dev'', dev]])"
  using assms
  by (fastforce simp: lower_ipip_def est_simps res_simps addr_on_eq tunnel_argv_def link_add_def
      address_command_def)

lemma lower_gre_Inr:
  assumes "lower_gre sp e = (Inr cmds, e')"
  shows "\<exists>outer tunnel inner l r dev e1 key a. layer_at sp 0 = Inr outer \<and> layer_at sp 1 = Inr tunnel
    \<and> layer_at sp 2 = Inr inner \<and> endpoints outer = Inr (l, r) \<and> alloc ''gre'' e = (Inr dev, e1)
    \<and> e' = enter dev e1 \<and> get_prop tunnel Key = Inr key \<and> address_of inner = Inr a
    \<and> map argv cmds = tunnel_argv ''gre'' dev l r (key_args key)
        # (if a = [] then [] else [[''ip'', ''addr'', ''add'', a, ''dev'', dev]])"
  using assms
  by (fastforce simp: lower_gre_def est_simps res_simps addr_on_eq tunnel_argv_def link_add_def
      address_command_def)

lemma lower_gretap_Inr:
  assumes "lower_gretap sp e = (Inr cmds, e')"
  shows "\<exists>outer tunnel l r dev e1 key. layer_at sp 0 = Inr outer \<and> layer_at sp 1 = Inr tunnel
    \<and> endpoints outer = Inr (l, r) \<and> alloc ''gretap'' e = (Inr dev, e1)
    \<and> e' = enter dev e1 \<and> get_prop tunnel Key = Inr key
    \<and> map argv cmds = [tunnel_argv ''gretap'' dev l r (key_args key)]"
  using assms
  by (fastforce simp: lower_gretap_def est_simps res_simps tunnel_argv_def link_add_def)

text \<open>The three point-to-point tiles as one: the type of the device, and its key.\<close>

definition tunnel_type :: "tile \<Rightarrow> string" where
  "tunnel_type t =
     (if t_pattern t = [''ipv4'', ''ipv4''] then ''ipip''
      else if t_pattern t = [''ipv4'', ''gre'', ''ipv4''] then ''gre'' else ''gretap'')"

definition tunnel_opts :: "tile \<Rightarrow> node \<Rightarrow> string list \<Rightarrow> bool" where
  "tunnel_opts t layer opts \<longleftrightarrow>
     (if tunnel_type t = ''ipip'' then opts = []
      else \<exists>key. get_prop layer Key = Inr key \<and> opts = key_args key)"

lemma point_to_point_Inr:
  assumes "t \<in> {IPIP, GRE, GRETAP}" and "t_lower t = Some f"
    and "names (take (length (t_pattern t)) sp) = t_pattern t"
    and "f (take (length (t_pattern t)) sp) e = (Inr cmds, e')"
  shows "1 < length sp \<and> (\<exists>dev l r opts. argv (hd cmds) = tunnel_argv (tunnel_type t) dev l r opts
    \<and> endpoints (sp ! 0) = Inr (l, r) \<and> tunnel_opts t (sp ! 1) opts)"
proof -
  let ?sp = "take (length (t_pattern t)) sp"
  have "length (names ?sp) = length (t_pattern t)" using assms(3) by simp
  then have len: "length (t_pattern t) \<le> length sp" by (simp add: names_def)
  have two: "1 < length (t_pattern t)" "t_pattern t \<noteq> []" using assms(1) by (auto simp: tile_defs)
  with len have at: "layer_at ?sp 0 = Inr (sp ! 0)" "layer_at ?sp 1 = Inr (sp ! 1)"
    by (simp_all add: layer_at_def)
  have "t \<in> set (r_tiles linux)" using assms(1) by (auto simp: linux_def)
  from this assms(2) have "\<exists>dev l r opts cs. map argv cmds = tunnel_argv (tunnel_type t) dev l r opts # cs
    \<and> endpoints (sp ! 0) = Inr (l, r) \<and> tunnel_opts t (sp ! 1) opts"
  proof (cases rule: linux_tile_cases)
    case 1
    with lower_ipip_Inr [of ?sp e cmds e'] assms(4) at show ?thesis
      by (auto simp: tunnel_type_def tunnel_opts_def tile_defs)
  next
    case 2
    with lower_gre_Inr [of ?sp e cmds e'] assms(4) at show ?thesis
      by (auto simp: tunnel_type_def tunnel_opts_def tile_defs)
  next
    case 3
    with lower_gretap_Inr [of ?sp e cmds e'] assms(4) at show ?thesis
      by (auto simp: tunnel_type_def tunnel_opts_def tile_defs)
  qed (use assms(1) in \<open>auto simp: tile_defs\<close>)
  then obtain dev l r opts cs where *: "map argv cmds = tunnel_argv (tunnel_type t) dev l r opts # cs"
    "endpoints (sp ! 0) = Inr (l, r)" "tunnel_opts t (sp ! 1) opts" by (elim exE conjE)
  have "argv (hd cmds) = tunnel_argv (tunnel_type t) dev l r opts" using *(1) by (cases cmds) simp_all
  with *(2,3) len two show ?thesis by auto
qed

section \<open>WireGuard\<close>

lemma concrete_simps [simp]:
  "concrete (PConcrete x p k) = Some x" "concrete (PDynamic p k) = None" "concrete (PAbsent p k) = None"
  by (simp_all add: concrete_def)

lemma read_wireguard_Inr:
  assumes "read_wireguard outer transport tunnel inner = Inr f"
  shows "(\<exists>p k. get_prop tunnel Peer = Inr (PConcrete (wg_peer f) p k))
    \<and> (\<exists>p k. get_prop transport SrcPort = Inr (PConcrete (wg_port f) p k))
    \<and> read_endpoint outer ''dst'' = Inr (wg_endpoint f)
    \<and> (\<exists>v. get_prop transport DstPort = Inr v
        \<and> wg_remote_port f = (case concrete v of Some q \<Rightarrow> q | None \<Rightarrow> wg_port f))
    \<and> (\<exists>p k. get_prop inner SrcPrefix = Inr (PConcrete (wg_overlay f) p k))"
proof -
  from assms obtain v where v: "get_prop transport DstPort = Inr v"
    by (auto simp: read_wireguard_def bindR_eq_Inr)
  show ?thesis using assms
    by (cases v)
       (auto simp: v read_wireguard_def bindR_eq_Inr wrap_err_eq_Inr require_Inr concrete_iff)
qed

text \<open>The vector of the \<open>wg set ... peer\<close> command: the endpoint is left out for a learned peer.\<close>

definition peer_argv :: "wg_facts \<Rightarrow> string \<Rightarrow> string \<Rightarrow> string list" where
  "peer_argv f kd dev =
     [''wg'', ''set'', dev, ''peer'', ''$(cat '' @ kd @ ''/'' @ wg_peer f @ ''.pub)'']
     @ (if ep_dynamic (wg_endpoint f) \<or> ep_absent (wg_endpoint f) then []
        else [''endpoint'', join_host_port (ep_addr (wg_endpoint f)) (wg_remote_port f)])
     @ [''allowed-ips'', prefix_string (masked (wg_overlay f))]"

lemma address_of_concrete:
  assumes "get_prop n SrcPrefix = Inr (PConcrete v p k)" and "nname n = ''ipv4''"
  shows "address_of n = Inr (prefix_string v)"
proof -
  have "lookup n ''src'' \<noteq> None"
    using assms(1) by (auto simp: get_prop_def SrcPrefix_def split: option.splits)
  then show ?thesis
    using assms by (auto simp: address_of_def concrete_def split: option.splits)
qed

lemma prefix_string_nonempty [simp]: "prefix_string p \<noteq> []"
  by (simp add: prefix_string_def)

lemma lower_wireguard_Inr:
  assumes "lower_wireguard sp e = (Inr cmds, e')" and "names sp = t_pattern WireGuard"
  obtains outer transport tunnel inner f dev e1 where "sp = [outer, transport, tunnel, inner]"
    "read_wireguard outer transport tunnel inner = Inr f"
    "alloc ''wg'' e = (Inr dev, e1)" "e' = enter dev e1"
    "map argv cmds =
        [[''ip'', ''link'', ''add'', ''name'', dev, ''type'', ''wireguard''],
         [''wg'', ''set'', dev, ''listen-port'', u16 (wg_port f), ''private-key'',
            e_keydir e @ ''/'' @ dev @ ''.key''],
         peer_argv f (e_keydir e) dev,
         [''ip'', ''addr'', ''add'', prefix_string (wg_overlay f), ''dev'', dev]]"
proof -
  from assms(2) obtain outer transport tunnel inner where sp: "sp = [outer, transport, tunnel, inner]"
    "nname inner = ''ipv4''"
    by (auto simp: tile_defs names_eq_Cons)
  with assms(1) obtain f dev e1 addr where *:
    "read_wireguard outer transport tunnel inner = Inr f" "alloc ''wg'' e = (Inr dev, e1)"
    "e' = enter dev e1" "addr_on inner dev = Inr addr"
    "cmds = [new_command ''IP inside WireGuard is a wireguard device'' (link_add dev ''wireguard''),
              new_command ''key material is machine state, not packet structure''
                [''wg'', ''set'', dev, ''listen-port'', u16 (wg_port f), ''private-key'',
                 e_keydir e1 @ ''/'' @ dev @ ''.key''],
              peer_command f (e_keydir e1) dev] @ addr"
    by (auto simp: lower_wireguard_def est_simps)
  have kd: "e_keydir e1 = e_keydir e" using allocated.request_frame [OF *(2)] by simp
  from read_wireguard_Inr [OF *(1)] obtain p k
    where "get_prop inner SrcPrefix = Inr (PConcrete (wg_overlay f) p k)" by blast
  from address_of_concrete [OF this sp(2)] *(4)
  have "addr = [address_command (prefix_string (wg_overlay f)) dev]" by (simp add: addr_on_eq)
  then have argvs: "map argv cmds =
        [[''ip'', ''link'', ''add'', ''name'', dev, ''type'', ''wireguard''],
         [''wg'', ''set'', dev, ''listen-port'', u16 (wg_port f), ''private-key'',
            e_keydir e @ ''/'' @ dev @ ''.key''],
         peer_argv f (e_keydir e) dev,
         [''ip'', ''addr'', ''add'', prefix_string (wg_overlay f), ''dev'', dev]]"
    by (simp add: *(5) kd link_add_def address_command_def peer_command_def peer_argv_def Let_def)
  with sp(1) *(1-3) show thesis by (rule that)
qed

section \<open>Names after a VNI\<close>

text \<open>A VNI has at most eight digits, so its device name always fits.\<close>

definition vni_name :: "32 word \<Rightarrow> string" where
  "vni_name n = ''vxlan'' @ itoa (unat n)"

lemma itoa_length: "n < 10 ^ k \<Longrightarrow> 0 < k \<Longrightarrow> length (itoa n) \<le> k"
proof (induction k arbitrary: n)
  case (Suc k)
  show ?case
  proof (cases "n < 10")
    case True
    then show ?thesis by (simp add: itoa_def format_uint.simps [of 10 n])
  next
    case False
    with Suc.prems have "0 < k" by (cases k) auto
    moreover have "n div 10 < 10 ^ k" using Suc.prems(1) by (simp add: div_less_iff_less_mult mult.commute)
    moreover have "itoa n = itoa (n div 10) @ [digit_char (n mod 10)]"
      using False by (simp add: itoa_def format_uint.simps [of 10 n])
    ultimately show ?thesis using Suc.IH by simp
  qed
qed simp

lemma digit_if_char: "is_digit c \<Longrightarrow> c \<notin> {CHR '' '', CHR ''/'', char_tab, char_nl}"
  by (auto simp: is_digit_def byte_def)

lemma vni_name_ok:
  assumes "unat n < 2 ^ 24"
  shows "if_name (vni_name n)"
proof -
  have "length (itoa (unat n)) \<le> 8" using assms by (intro itoa_length) auto
  moreover have "set (itoa (unat n)) \<inter> {CHR '' '', CHR ''/'', char_tab, char_nl} = {}"
    using itoa_digits digit_if_char by blast
  ultimately show ?thesis by (simp add: vni_name_def if_name_def)
qed

lemma claim_valid:
  "if_name n \<Longrightarrow> claim n e =
     (if is_used e n then (err_plain (NameMsg (NameUsed n)), e)
      else (Inr n, e\<lparr>e_used := (e_used e)(n \<mapsto> True)\<rparr>))"
  by (simp add: claim_def if_name_valid)

lemma vxlan_name_concrete:
  assumes "get_prop tunnel VNI = Inr vni" "concrete vni = Some n"
  shows "vxlan_name vni e =
     (if is_used e (vni_name n) then (err_plain (NameMsg (NameUsed (vni_name n))), e)
      else (Inr (vni_name n), e\<lparr>e_used := (e_used e)(vni_name n \<mapsto> True)\<rparr>))"
proof -
  have "unat n < 2 ^ 24"
    using assms by (auto simp: concrete_iff get_prop_concrete VNI_def dest!: parse_vni_range)
  from claim_valid [OF vni_name_ok [OF this]] assms(2) show ?thesis
    by (simp add: vxlan_name_def vni_name_def)
qed

section \<open>Properties\<close>

text \<open>
  C29. Which tile \<open>Cover\<close> applies at a layer is a function of the names of the layers from there on,
  and the function is the table of the documentation: IP in IP, IP or Ethernet in GRE, Ethernet in
  VXLAN, IP in WireGuard, and a tag on Ethernet, nothing else. In particular two stacks of the same
  names get the same devices, whatever their fields are, and IPv6 outside has no tile.
\<close>

theorem tile_table:
  assumes "i < length sp"
  shows "select_tile linux sp i = Inr (tile_for (names (drop i sp)))
    \<and> (names sp = names sp' \<longrightarrow> choices linux sp 0 = choices linux sp' 0)"
  using linux_select [OF assms] choices_names by blast

text \<open>
  C31. A tag makes one tagged interface on the current device: it is named after its parent and the
  tag, which is between 1 and 4094, it has that parent and that tag in its command, it becomes the
  current device, and its name was free and is now reserved.
\<close>

theorem vlan_on_parent:
  assumes "lower_vlan sp e = (Inr cmds, e')"
  shows "\<exists>tag n p k. layer_at sp 1 = Inr tag \<and> get_prop tag VLANID = Inr (PConcrete n p k)
    \<and> 1 \<le> unat n \<and> unat n \<le> 4094
    \<and> map argv cmds = [[''ip'', ''link'', ''add'', ''link'', e_dev e, ''name'',
        e_dev e @ ''.'' @ u16 n, ''type'', ''vlan'', ''id'', u16 n]]
    \<and> adds e (e_dev e @ ''.'' @ u16 n) e'"
proof -
  from assms obtain tag n p k e1 where *:
    "layer_at sp 1 = Inr tag" "get_prop tag VLANID = Inr (PConcrete n p k)"
    "claim (e_dev e @ ''.'' @ u16 n) e = (Inr (e_dev e @ ''.'' @ u16 n), e1)"
    "e' = enter (e_dev e @ ''.'' @ u16 n) e1"
    "map argv cmds = [[''ip'', ''link'', ''add'', ''link'', e_dev e, ''name'',
        e_dev e @ ''.'' @ u16 n, ''type'', ''vlan'', ''id'', u16 n]]"
    by (rule lower_vlan_Inr)
  have r: "1 \<le> unat n" "unat n \<le> 4094"
    using *(2) by (auto simp: get_prop_concrete VLANID_def dest!: parse_vlan_range)
  have a: "adds e (e_dev e @ ''.'' @ u16 n) e'" using claim_adds [OF *(3)] *(4) by simp
  show ?thesis by (intro exI conjI) (fact *(1,2,5) r a)+
qed

text \<open>
  C30. WireGuard: the interface, its listening port (the source port) and key file, one peer, and the
  inner address. The peer's key is a file named after the peer, never a key; its allowed addresses
  are the network of the inner address, with every host bit cleared and the same length; it has an
  endpoint exactly when the outer destination is concrete, at the destination port, which is the
  listening port when the tree leaves it out.
\<close>

theorem wireguard_peer:
  assumes "lower_wireguard sp e = (Inr cmds, e')" and "names sp = t_pattern WireGuard"
  shows "\<exists>outer transport tunnel inner (f :: wg_facts) dev e1. sp = [outer, transport, tunnel, inner]
    \<and> (\<exists>p k. get_prop tunnel Peer = Inr (PConcrete (wg_peer f) p k))
    \<and> (\<exists>p k. get_prop transport SrcPort = Inr (PConcrete (wg_port f) p k))
    \<and> (\<exists>p k. get_prop inner SrcPrefix = Inr (PConcrete (wg_overlay f) p k))
    \<and> read_endpoint outer ''dst'' = Inr (wg_endpoint f)
    \<and> (\<exists>v. get_prop transport DstPort = Inr v
        \<and> wg_remote_port f = (case concrete v of Some q \<Rightarrow> q | None \<Rightarrow> wg_port f))
    \<and> alloc ''wg'' e = (Inr dev, e1) \<and> e' = enter dev e1
    \<and> map argv cmds =
        [[''ip'', ''link'', ''add'', ''name'', dev, ''type'', ''wireguard''],
         [''wg'', ''set'', dev, ''listen-port'', u16 (wg_port f), ''private-key'',
            e_keydir e @ ''/'' @ dev @ ''.key''],
         [''wg'', ''set'', dev, ''peer'', ''$(cat '' @ e_keydir e @ ''/'' @ wg_peer f @ ''.pub)'']
           @ (if ep_dynamic (wg_endpoint f) \<or> ep_absent (wg_endpoint f) then []
              else [''endpoint'', join_host_port (ep_addr (wg_endpoint f)) (wg_remote_port f)])
           @ [''allowed-ips'', prefix_string (masked (wg_overlay f))],
         [''ip'', ''addr'', ''add'', prefix_string (wg_overlay f), ''dev'', dev]]
    \<and> pfx_bits (masked (wg_overlay f)) = pfx_bits (wg_overlay f)
    \<and> (\<forall>w i. pfx_addr (wg_overlay f) = V4 w \<longrightarrow>
         (\<exists>m. pfx_addr (masked (wg_overlay f)) = V4 m
            \<and> (bit m i \<longleftrightarrow> 32 - pfx_bits (wg_overlay f) \<le> i \<and> bit w i)))"
proof -
  from assms obtain outer transport tunnel inner f dev e1 where *:
    "sp = [outer, transport, tunnel, inner]" "read_wireguard outer transport tunnel inner = Inr f"
    "alloc ''wg'' e = (Inr dev, e1)" "e' = enter dev e1"
    "map argv cmds =
        [[''ip'', ''link'', ''add'', ''name'', dev, ''type'', ''wireguard''],
         [''wg'', ''set'', dev, ''listen-port'', u16 (wg_port f), ''private-key'',
            e_keydir e @ ''/'' @ dev @ ''.key''],
         peer_argv f (e_keydir e) dev,
         [''ip'', ''addr'', ''add'', prefix_string (wg_overlay f), ''dev'', dev]]"
    by (rule lower_wireguard_Inr)
  from read_wireguard_Inr [OF *(2)] obtain p1 k1 p2 k2 p3 k3 v where f:
    "get_prop tunnel Peer = Inr (PConcrete (wg_peer f) p1 k1)"
    "get_prop transport SrcPort = Inr (PConcrete (wg_port f) p2 k2)"
    "get_prop inner SrcPrefix = Inr (PConcrete (wg_overlay f) p3 k3)"
    "read_endpoint outer ''dst'' = Inr (wg_endpoint f)" "get_prop transport DstPort = Inr v"
    "wg_remote_port f = (case concrete v of Some q \<Rightarrow> q | None \<Rightarrow> wg_port f)"
    by blast
  have net: "\<forall>w i. pfx_addr (wg_overlay f) = V4 w \<longrightarrow> (\<exists>m. pfx_addr (masked (wg_overlay f)) = V4 m
            \<and> (bit m i \<longleftrightarrow> 32 - pfx_bits (wg_overlay f) \<le> i \<and> bit w i))"
    by (simp add: masked_def clear_low_bit)
  show ?thesis
    by (rule exI [of _ outer], rule exI [of _ transport], rule exI [of _ tunnel],
        rule exI [of _ inner], rule exI [of _ f], rule exI [of _ dev], rule exI [of _ e1])
       (intro conjI; (fact *(1,3,4) *(5) [unfolded peer_argv_def] masked_bits net)?;
        (use f in blast)?)
qed

text \<open>
  C32. A VXLAN device is called after its VNI, so no second rule of a file can use the same VNI: once
  its fields read well, the lowering succeeds if and only if that name is free, and when it is not
  it fails at the tunnel's position and changes nothing. The name itself always fits.
\<close>

theorem vni_used_once:
  assumes "names sp = t_pattern VXLAN" and "read_vxlan (sp ! 0) (sp ! 1) (sp ! 2) = Inr f"
    and "concrete (vx_vni f) = Some n"
  shows "if_name (vni_name n)
    \<and> (is_used e (vni_name n) \<longrightarrow> lower_vxlan sp e
        = (Inl (ErrAt (npos (sp ! 2)) (WrapMsg (ErrPlain (NameMsg (NameUsed (vni_name n)))))), e))
    \<and> (\<not> is_used e (vni_name n) \<longrightarrow> (\<exists>cmds e'. lower_vxlan sp e = (Inr cmds, e')
        \<and> adds e (vni_name n) e' \<and> is_used e' (vni_name n)))"
proof -
  from assms(1) obtain outer transport tunnel inner where sp: "sp = [outer, transport, tunnel, inner]"
    by (auto simp: tile_defs names_eq_Cons)
  from assms(2) have f: "read_vxlan outer transport tunnel = Inr f" by (simp add: sp)
  note vni = conjunct1 [OF read_vxlan_Inr [OF f]]
  have n: "unat n < 2 ^ 24"
    using vni assms(3) by (auto simp: concrete_iff get_prop_concrete VNI_def dest!: parse_vni_range)
  note name = vxlan_name_concrete [OF vni assms(3)]
  have used: "lower_vxlan sp e
        = (Inl (ErrAt (npos (sp ! 2)) (WrapMsg (ErrPlain (NameMsg (NameUsed (vni_name n)))))), e)"
    if "is_used e (vni_name n)"
    using that by (simp add: sp lower_vxlan_def bindS_def liftS_def f wrapS_def name)
  have free: "\<exists>cmds e'. lower_vxlan sp e = (Inr cmds, e') \<and> adds e (vni_name n) e' \<and> is_used e' (vni_name n)"
    if "\<not> is_used e (vni_name n)"
  proof -
    have nm: "vxlan_name (vx_vni f) e = (Inr (vni_name n), e\<lparr>e_used := (e_used e)(vni_name n \<mapsto> True)\<rparr>)"
      using that by (simp add: name)
    have "\<exists>cmds. lower_vxlan sp e
        = (Inr cmds, enter (vni_name n) (e\<lparr>e_used := (e_used e)(vni_name n \<mapsto> True)\<rparr>))"
      by (simp add: sp lower_vxlan_def bindS_def liftS_def f wrapS_def nm getS_def modS_def retS_def)
    moreover have "adds e (vni_name n) (enter (vni_name n) (e\<lparr>e_used := (e_used e)(vni_name n \<mapsto> True)\<rparr>))"
      using vxlan_name_adds [OF nm] by simp
    ultimately show ?thesis by (auto simp: adds_def)
  qed
  show ?thesis using vni_name_ok [OF n] used free by blast
qed

text \<open>The endpoint a WireGuard peer has when the tree gives none, or a star.\<close>

lemma read_wireguard_endpoint:
  assumes "read_endpoint a ''dst'' = Inr x" "read_endpoint b ''dst'' = Inr y"
  shows "read_wireguard a t u i = bindR (read_wireguard b t u i) (\<lambda>f. Inr (f\<lparr>wg_endpoint := x\<rparr>))"
  by (simp add: read_wireguard_def assms bindR_def split: sum.split)

lemma lower_wireguard_endpoint:
  assumes "read_endpoint a ''dst'' = Inr x" "read_endpoint b ''dst'' = Inr y"
    and "ep_dynamic x \<or> ep_absent x" "ep_dynamic y \<or> ep_absent y"
  shows "lower_wireguard [a, t, u, i] e = lower_wireguard [b, t, u, i] e"
proof (cases "read_wireguard b t u i")
  case (Inl er)
  then show ?thesis
    by (simp add: lower_wireguard_def read_wireguard_endpoint [OF assms(1,2)] bindS_def liftS_def)
next
  case (Inr f)
  have y: "wg_endpoint f = y" using read_wireguard_Inr [OF Inr] assms(2) by simp
  have "peer_command (f\<lparr>wg_endpoint := x\<rparr>) kd d = peer_command f kd d" for kd d
    using assms(3,4) y by (simp add: peer_command_def Let_def)
  then show ?thesis
    by (simp add: lower_wireguard_def read_wireguard_endpoint [OF assms(1,2)] Inr bindS_def liftS_def)
qed

lemma bindS_lift_Inr: "bindS (liftS (Inr x)) f = f x"
  by (simp add: bindS_def liftS_def fun_eq_iff)

lemma lower_gre_key:
  assumes "get_prop g Key = Inr x" "get_prop h Key = Inr y" "concrete x = concrete y"
  shows "lower_gre [o', g, i] e = lower_gre [o', h, i] e"
  by (simp add: lower_gre_def assms key_args_def bindS_lift_Inr)

text \<open>
  Absent is not always an error: a WireGuard layer whose outer layer has no \<open>:dst\<close> lowers exactly
  as one with \<open>:dst *\<close>, and a GRE layer without a \<open>:key\<close> exactly as one with \<open>:key *\<close>.
\<close>

theorem omitted_reads_as_star:
  assumes "lookup a k = None" and "lookup b k = Some q" and "vkind (p_val q) = KStar"
  shows "(k = ''dst'' \<longrightarrow> lower_wireguard [a, t, u, i] e = lower_wireguard [b, t, u, i] e)
    \<and> (k = ''key'' \<longrightarrow> lower_gre [n, a, i] e = lower_gre [n, b, i] e)"
proof (intro conjI impI)
  assume "k = ''dst''"
  with assms have "\<exists>x. read_endpoint a ''dst'' = Inr x \<and> ep_absent x"
    "\<exists>y. read_endpoint b ''dst'' = Inr y \<and> ep_dynamic y"
    by (simp_all add: read_endpoint_def)
  then show "lower_wireguard [a, t, u, i] e = lower_wireguard [b, t, u, i] e"
    using lower_wireguard_endpoint by blast
next
  assume "k = ''key''"
  with assms have "get_prop a Key = Inr (PAbsent (npos a) ''key'')"
    "get_prop b Key = Inr (PDynamic (vpos (p_val q)) ''key'')"
    by (simp_all add: get_prop_def Key_def)
  then show "lower_gre [n, a, i] e = lower_gre [n, b, i] e"
    by (rule lower_gre_key) simp
qed

text \<open>A stack that no tile begins has no output at all.\<close>

lemma no_tile_no_output:
  assumes "sp \<noteq> []" "tile_for (names sp) = None"
  shows "cover linux sp e = Some (Inl (ErrAt (npos (sp ! 0)) (TileMsg
      (NoLowering (spine_text sp) (r_target linux) (join '', '' (tile_names linux))))), e)"
proof -
  have "choices linux sp 0 = []" using assms linux_choices_nil [of 0 sp] by simp
  then show ?thesis using assms(1) by (simp add: linux.cover_run finish_cover_def)
qed

end
