(* ===== verification/Shell.thy ===== *)
theory Shell
  imports Samples Tunnels
begin

text \<open>
  What a shell makes of a whole script (\<open>src/command/command.go\<close> under \<open>src/tile/cover.go\<close> and
  \<open>src/tiles/linux\<close>). A command line is taken literally exactly when no argument of it is left to a
  substitution and its command is no reserved word; the locale \<open>lowering_invariant\<close> carries such a condition from the lowerings of a
  registry to everything \<open>Cover\<close> emits, and its interpretation on the iproute2 registry says which
  scripts are pure data. The two ways out, an IPv6 zone and the name of a peer, are theorems too.
\<close>

section \<open>Lines\<close>

lemma live_line:
  assumes "list_all literal_arg pre" "\<not> literal_arg a" "char_backslash \<notin> set a"
  shows "sh_scan (\<lambda>_. None) Unquoted None (join '' '' (map quote_arg (pre @ a # post))) = None"
  using scan_line_None [OF assms(1) live_argument_expands [OF assms(2,3)]] .

section \<open>A condition on everything a cover emits\<close>

locale lowering_invariant = accepted +
  fixes inv :: "env \<Rightarrow> bool" and layer_ok :: "node \<Rightarrow> bool" and cmd_ok :: "command \<Rightarrow> bool"
  assumes lower_keeps: "t \<in> set (r_tiles r) \<Longrightarrow> t_lower t = Some f \<Longrightarrow> names sub = t_pattern t
      \<Longrightarrow> list_all layer_ok sub \<Longrightarrow> inv e \<Longrightarrow> f sub e = (Inr cmds, e')
      \<Longrightarrow> inv e' \<and> list_all cmd_ok cmds"
    and address_keeps: "layer_ok n \<Longrightarrow> inv e \<Longrightarrow> address_of n = Inr a \<Longrightarrow> cmd_ok (address_command a (e_dev e))"
    and up_keeps: "inv e \<Longrightarrow> d \<in> set (e_created e) \<Longrightarrow> cmd_ok (up_command d)"
begin

lemma run_tiles_keeps:
  assumes "tiling r sp i ts" "run_tiles sp i scr app ts e = (Inr (j, scr', app'), e')"
    and "list_all layer_ok sp" "inv e" "list_all cmd_ok scr"
  shows "inv e' \<and> list_all cmd_ok scr'"
  using assms(1,2,4,5)
proof (induction ts arbitrary: i scr app e)
  case (Cons t ts)
  then have t: "t \<in> set (r_tiles r)" "fits sp i t" by auto
  obtain f where f: "t_lower t = Some f" using has_lower [OF t(1)] by auto
  let ?sub = "take (length (t_pattern t)) (drop i sp)"
  have a: "apply_tile t sp i e = f ?sub e" "names ?sub = t_pattern t"
    using t(2) by (simp_all add: fits_def apply_tile_def f bindS_def liftS_def)
  from Cons.prems(2) a(1) obtain c1 e1 where c1: "f ?sub e = (Inr c1, e1)"
    and rest: "run_tiles sp (i + length (t_pattern t)) (scr @ c1) (app @ [t_name t]) ts e1
        = (Inr (j, scr', app'), e')"
    by (auto split: prod.splits sum.splits)
  have "list_all layer_ok ?sub" using assms(3) by (auto simp: list_all_iff dest: in_set_takeD in_set_dropD)
  from lower_keeps [OF t(1) f a(2) this Cons.prems(3) c1] have "inv e1" "list_all cmd_ok c1" by auto
  with Cons.IH [OF _ rest] Cons.prems(1,4) show ?case by simp
qed auto

lemma cover_keeps:
  assumes "cover r sp e = Some (Inr res, e')" "list_all layer_ok sp" "inv e"
  shows "inv e' \<and> list_all cmd_ok (cr_script res)"
proof -
  from assms(1) obtain scr where
    run: "run_tiles sp 0 [] [] (choices r sp 0) e
      = (Inr (width (choices r sp 0), scr, map t_name (choices r sp 0)), e')"
    and fin: "finish_cover r sp (length (e_created e))
       (width (choices r sp 0), scr, map t_name (choices r sp 0)) e' = Inr res"
    by (rule cover_Inr)
  from run_tiles_keeps [OF choices_tiling run assms(2,3)] have k: "inv e'" "list_all cmd_ok scr" by auto
  have ups: "list_all cmd_ok (map up_command (drop n (e_created e')))" for n
    using up_keeps [OF k(1)] by (auto simp: list_all_iff dest: in_set_dropD)
  have addr: "cmd_ok (address_command a (e_dev e'))" if "i < length sp" "address_of (sp ! i) = Inr a" for i a
    using address_keeps [OF _ k(1) that(2)] assms(2) that(1) by (simp add: list_all_length)
  from finish_cover_Inr [OF fin] k ups addr show ?thesis by auto
qed

end

section \<open>Arguments without a dollar sign\<close>

definition no_dollar :: "string \<Rightarrow> bool" where
  "no_dollar s \<longleftrightarrow> CHR ''$'' \<notin> set s"

lemma no_dollar_append [simp]: "no_dollar (s @ t) \<longleftrightarrow> no_dollar s \<and> no_dollar t"
  by (simp add: no_dollar_def)

lemma no_dollar_Cons [simp]: "no_dollar (c # t) \<longleftrightarrow> c \<noteq> CHR ''$'' \<and> no_dollar t"
  by (auto simp: no_dollar_def)

lemma no_dollar_Nil [simp]: "no_dollar []"
  by (simp add: no_dollar_def)

lemma no_dollar_literal: "no_dollar a \<Longrightarrow> literal_arg a"
  using contains_set [of a "''$(''"] by (auto simp: no_dollar_def literal_arg_def)

lemma no_dollar_join: "no_dollar sep \<Longrightarrow> list_all no_dollar xs \<Longrightarrow> no_dollar (join sep xs)"
  by (induction xs rule: induct_list012) auto

lemma no_dollar_format: "2 \<le> b \<Longrightarrow> b \<le> 16 \<Longrightarrow> no_dollar (format_uint b n)"
proof (induction n rule: less_induct)
  case (less n)
  have d: "digit_char k \<noteq> CHR ''$''" if "k < 16 \<or> k < b" for k
  proof
    assume e: "digit_char k = CHR ''$''"
    have "k < 16" using that less.prems by auto
    then have "byte (digit_char k) = (if k < 10 then 48 + k else 87 + k)"
      by (simp add: digit_char_def)
    with e show False by (simp add: byte_def split: if_splits)
  qed
  show ?case
  proof (cases "n < b")
    case True
    with d less.prems show ?thesis by (subst format_uint.simps) simp
  next
    case False
    with less.prems have "n div b < n" by (intro div_less_dividend) auto
    with less.IH [of "n div b"] less.prems False d [of "n mod b"] show ?thesis
      by (subst format_uint.simps) simp
  qed
qed

lemma no_dollar_numbers [simp]:
  "no_dollar (itoa n)" "no_dollar (u16 p)" "no_dollar (u32 v)"
  by (simp_all add: itoa_def u16_def u32_def no_dollar_format)

lemma no_dollar_v4 [simp]: "no_dollar (v4_string w)"
  by (simp add: v4_string_def no_dollar_join list_all_iff)

lemma no_dollar_v6 [simp]: "no_dollar (v6_string w)"
  by (auto simp: v6_string_def Let_def split: prod.split
      intro!: no_dollar_join simp: list_all_iff no_dollar_format dest!: in_set_takeD in_set_dropD)

lemma no_dollar_addr: "zone_of a = [] \<Longrightarrow> no_dollar (addr_string a)"
  by (auto simp: addr_string_def zone_of_def zone_suffix_def split: addr.splits)

lemma no_dollar_prefix: "zone_of (pfx_addr p) = [] \<Longrightarrow> no_dollar (prefix_string p)"
  by (simp add: prefix_string_def no_dollar_addr)

lemma masked_zone [simp]: "zone_of (pfx_addr (masked p)) = []"
  by (simp add: masked_def zone_of_def split: addr.split)

section \<open>Layers without a zone\<close>

text \<open>An address has a zone only when its text has a percent sign.\<close>

definition zone_free :: "node \<Rightarrow> bool" where
  "zone_free n \<longleftrightarrow> list_all (\<lambda>q. CHR ''%'' \<notin> set (vtext (p_val q))) (nprops n)"

lemma parse_addr_zone: "parse_addr s = Some a \<Longrightarrow> CHR ''%'' \<notin> set s \<Longrightarrow> zone_of a = []"
  by (auto simp: parse_addr_def parse_ipv6_def zone_of_def index_byte_None [THEN iffD2]
      split: option.splits if_splits)

lemma zone_free_lookup: "zone_free n \<Longrightarrow> lookup n k = Some q \<Longrightarrow> CHR ''%'' \<notin> set (vtext (p_val q))"
  using find_prop_Some [of "nprops n" k q] by (auto simp: zone_free_def lookup_def list_all_iff)

lemma addr_value_zone: "parse_addr_value v = Inr a \<Longrightarrow> CHR ''%'' \<notin> set (vtext v) \<Longrightarrow> zone_of a = []"
  by (auto simp: parse_addr_value_def parse_addr_zone split: if_splits option.splits)

lemma prefix_value_zone: "parse_prefix_value v = Inr p \<Longrightarrow> zone_of (pfx_addr p) = []"
  by (auto simp: parse_prefix_value_def parse_prefix_zone split: if_splits option.splits)

lemma read_endpoint_zone:
  assumes "read_endpoint n k = Inr ep" "zone_free n"
  shows "no_dollar (ep_addr ep) \<and> no_dollar (ep_prefix ep)"
  using assms zone_free_lookup [OF assms(2), of k]
  by (auto simp: read_endpoint_def bindR_eq_Inr wrap_err_eq_Inr no_dollar_addr no_dollar_prefix
      dest!: addr_value_zone prefix_value_zone split: option.splits if_splits)

lemma endpoints_zone:
  assumes "endpoints n = Inr (l, rr)" "zone_free n"
  shows "no_dollar l \<and> no_dollar rr"
  using assms zone_free_lookup [OF assms(2)]
  by (auto simp: endpoints_def bindR_eq_Inr require_Inr concrete_iff get_prop_concrete Src_def Dst_def
      no_dollar_addr dest!: addr_value_zone split: if_splits)

lemma get_prefix_zone: "get_prop n SrcPrefix = Inr (PConcrete v p k) \<Longrightarrow> zone_of (pfx_addr v) = []"
  by (auto simp: get_prop_concrete SrcPrefix_def dest: prefix_value_zone)

lemma address_of_zone: "address_of n = Inr a \<Longrightarrow> no_dollar a"
proof (cases "a = []")
  case False
  assume "address_of n = Inr a"
  with False obtain v p k where "get_prop n SrcPrefix = Inr (PConcrete v p k)" "a = prefix_string v"
    by (auto simp: address_of_def bindR_eq_Inr concrete_iff split: if_splits option.splits)
  then show ?thesis using get_prefix_zone no_dollar_prefix by auto
qed simp

section \<open>The iproute2 tiles\<close>

text \<open>
  The condition on a device's environment, and on a command: all its arguments are without a dollar
  sign, except for the one that names the public key of a peer.
\<close>

definition plain_env :: "string \<Rightarrow> env \<Rightarrow> bool" where
  "plain_env kd e \<longleftrightarrow> e_keydir e = kd \<and> no_dollar (e_dev e) \<and> list_all no_dollar (present e)"

definition key_file :: "string \<Rightarrow> string \<Rightarrow> string" where
  "key_file kd name = ''$(cat '' @ kd @ ''/'' @ name @ ''.pub)''"

definition program :: "string list \<Rightarrow> bool" where
  "program args \<longleftrightarrow> (case args of [] \<Rightarrow> False | a # _ \<Rightarrow> a = ''ip'' \<or> a = ''wg'')"

lemma program_Cons [simp]: "program (a # args) \<longleftrightarrow> a = ''ip'' \<or> a = ''wg''"
  by (simp add: program_def)

lemma program_no_keyword: "program args \<Longrightarrow> no_keyword args"
  by (auto simp: program_def no_keyword_def sh_reserved_def split: list.splits)

definition plain_args :: "(string \<Rightarrow> bool) \<Rightarrow> string \<Rightarrow> string list \<Rightarrow> bool" where
  "plain_args P kd args \<longleftrightarrow> list_all no_dollar args \<and> program args
     \<or> (\<exists>dev name rest. args = [''wg'', ''set'', dev, ''peer'', key_file kd name] @ rest
          \<and> list_all no_dollar (dev # rest) \<and> P name)"

text \<open>The name of the peer that a layer gives.\<close>

definition peer_name :: "node \<Rightarrow> string option" where
  "peer_name n = (case get_prop n Peer of Inl _ \<Rightarrow> None | Inr v \<Rightarrow> concrete v)"

definition data_layer :: "(string \<Rightarrow> bool) \<Rightarrow> node \<Rightarrow> bool" where
  "data_layer P n \<longleftrightarrow> zone_free n \<and> (case peer_name n of None \<Rightarrow> True | Some x \<Rightarrow> P x)"

lemma data_layer_zone: "list_all (data_layer P) sp \<Longrightarrow> list_all zone_free sp"
  by (simp add: list_all_iff data_layer_def)

lemma plain_env_adds: "adds e d e' \<Longrightarrow> no_dollar d \<Longrightarrow> plain_env kd e \<Longrightarrow> plain_env kd e'"
  using present_adds [of e d e'] by (simp add: plain_env_def adds_def)

lemma alloc_no_dollar: "alloc stem e = (Inr d, e1) \<Longrightarrow> no_dollar stem \<Longrightarrow> no_dollar d"
  by (auto dest!: alloc_Inr)

lemma list_all_argv: "list_all (\<lambda>c. P (argv c)) cs \<longleftrightarrow> list_all P (map argv cs)"
  by (simp add: list.pred_map comp_def)

lemma plain_args_intro: "list_all no_dollar args \<Longrightarrow> program args \<Longrightarrow> plain_args P kd args"
  by (simp add: plain_args_def)

lemma tunnel_argv_plain [simp]:
  "list_all no_dollar (tunnel_argv typ dev l rr opts)
     \<longleftrightarrow> list_all no_dollar [dev, typ, l, rr] \<and> list_all no_dollar opts"
  by (auto simp: tunnel_argv_def)

lemma tunnel_argv_program [simp]: "program (tunnel_argv typ dev l rr opts)"
  by (simp add: tunnel_argv_def)

lemma vxlan_argv_program [simp]: "program (vxlan_argv f dev parent)"
  by (simp add: vxlan_argv_def link_add_def)

lemma key_args_plain: "list_all no_dollar (key_args key)"
  by (simp add: key_args_def split: option.split)

lemma ipip_plain:
  assumes "lower_ipip sp e = (Inr cmds, e')" "names sp = t_pattern IPIP"
    and "list_all zone_free sp" "plain_env kd e"
  shows "plain_env kd e' \<and> list_all (\<lambda>c. plain_args P kd (argv c)) cmds"
proof -
  from lower_ipip_Inr [OF assms(1)] obtain outer inner l rr dev e1 a where *:
    "layer_at sp 0 = Inr outer" "endpoints outer = Inr (l, rr)" "alloc ''ipip'' e = (Inr dev, e1)"
    "e' = enter dev e1" "address_of inner = Inr a"
    "map argv cmds = tunnel_argv ''ipip'' dev l rr []
        # (if a = [] then [] else [[''ip'', ''addr'', ''add'', a, ''dev'', dev]])"
    by auto
  have d: "no_dollar dev" using alloc_no_dollar [OF *(3)] by simp
  moreover have "zone_free outer" using *(1) assms(3) by (auto simp: layer_at_Inr list_all_length)
  ultimately show ?thesis
    using endpoints_zone [OF *(2)] address_of_zone [OF *(5)] plain_env_adds [OF alloc_adds [OF *(3)] d assms(4)]
    by (auto simp: list_all_argv *(4,6) intro!: plain_args_intro)
qed

lemma gre_plain:
  assumes "lower_gre sp e = (Inr cmds, e')" "names sp = t_pattern GRE"
    and "list_all zone_free sp" "plain_env kd e"
  shows "plain_env kd e' \<and> list_all (\<lambda>c. plain_args P kd (argv c)) cmds"
proof -
  from lower_gre_Inr [OF assms(1)] obtain outer inner l rr dev e1 a key where *:
    "layer_at sp 0 = Inr outer" "endpoints outer = Inr (l, rr)" "alloc ''gre'' e = (Inr dev, e1)"
    "e' = enter dev e1" "address_of inner = Inr a"
    "map argv cmds = tunnel_argv ''gre'' dev l rr (key_args key)
        # (if a = [] then [] else [[''ip'', ''addr'', ''add'', a, ''dev'', dev]])"
    by auto
  have d: "no_dollar dev" using alloc_no_dollar [OF *(3)] by simp
  moreover have "zone_free outer" using *(1) assms(3) by (auto simp: layer_at_Inr list_all_length)
  ultimately show ?thesis
    using endpoints_zone [OF *(2)] address_of_zone [OF *(5)] plain_env_adds [OF alloc_adds [OF *(3)] d assms(4)]
    by (auto simp: list_all_argv *(4,6) key_args_plain intro!: plain_args_intro)
qed

lemma gretap_plain:
  assumes "lower_gretap sp e = (Inr cmds, e')" "names sp = t_pattern GRETAP"
    and "list_all zone_free sp" "plain_env kd e"
  shows "plain_env kd e' \<and> list_all (\<lambda>c. plain_args P kd (argv c)) cmds"
proof -
  from lower_gretap_Inr [OF assms(1)] obtain outer l rr dev e1 key where *:
    "layer_at sp 0 = Inr outer" "endpoints outer = Inr (l, rr)" "alloc ''gretap'' e = (Inr dev, e1)"
    "e' = enter dev e1" "map argv cmds = [tunnel_argv ''gretap'' dev l rr (key_args key)]"
    by auto
  have d: "no_dollar dev" using alloc_no_dollar [OF *(3)] by simp
  moreover have "zone_free outer" using *(1) assms(3) by (auto simp: layer_at_Inr list_all_length)
  ultimately show ?thesis
    using endpoints_zone [OF *(2)] plain_env_adds [OF alloc_adds [OF *(3)] d assms(4)]
    by (auto simp: list_all_argv *(4,5) key_args_plain intro!: plain_args_intro)
qed

lemma vlan_plain:
  assumes "lower_vlan sp e = (Inr cmds, e')" "plain_env kd e"
  shows "plain_env kd e' \<and> list_all (\<lambda>c. plain_args P kd (argv c)) cmds"
proof -
  from assms(1) obtain n e1 where *:
    "claim (e_dev e @ ''.'' @ u16 n) e = (Inr (e_dev e @ ''.'' @ u16 n), e1)"
    "e' = enter (e_dev e @ ''.'' @ u16 n) e1"
    "map argv cmds = [[''ip'', ''link'', ''add'', ''link'', e_dev e, ''name'',
        e_dev e @ ''.'' @ u16 n, ''type'', ''vlan'', ''id'', u16 n]]"
    by (rule lower_vlan_Inr)
  have d: "no_dollar (e_dev e)" using assms(2) by (simp add: plain_env_def)
  then have "plain_env kd e'" using plain_env_adds [OF claim_adds [OF *(1)] _ assms(2)] *(2) by simp
  with d show ?thesis by (simp add: list_all_argv *(3) plain_args_intro)
qed

lemma vxlan_name_no_dollar: "vxlan_name vni e = (Inr d, e1) \<Longrightarrow> no_dollar d"
  by (auto simp: vxlan_name_def split: option.splits dest!: claim_frame alloc_no_dollar)

lemma vxlan_plain:
  assumes "lower_vxlan sp e = (Inr cmds, e')" "list_all zone_free sp" "plain_env kd e"
  shows "plain_env kd e' \<and> list_all (\<lambda>c. plain_args P kd (argv c)) cmds"
proof -
  from assms(1) obtain outer transport tunnel f dev e1 where *:
    "layer_at sp 0 = Inr outer" "read_vxlan outer transport tunnel = Inr f"
    "vxlan_name (vx_vni f) e = (Inr dev, e1)" "e' = enter dev e1"
    "cmds = underlay_address (vx_local f) (e_dev e)
        @ [new_command (vxlan_why f) (vxlan_argv f dev (e_dev e))]"
    by (rule lower_vxlan_Inr)
  note d = vxlan_name_no_dollar [OF *(3)]
  have z: "zone_free outer" using *(1) assms(2) by (auto simp: layer_at_Inr list_all_length)
  have eps: "no_dollar (ep_addr (vx_local f))" "no_dollar (ep_prefix (vx_local f))"
    "no_dollar (ep_addr (vx_remote f))"
    using read_vxlan_Inr [OF *(2)] read_endpoint_zone [OF _ z] by blast+
  have dev: "no_dollar (e_dev e)" using assms(3) by (simp add: plain_env_def)
  have "list_all no_dollar (vxlan_argv f dev (e_dev e))"
    using eps d dev
    by (simp add: vxlan_argv_def link_add_def vni_args_def local_args_def remote_args_def
        split: option.split)
  moreover have "plain_env kd e'"
    using plain_env_adds [OF conjunct1 [OF vxlan_name_adds [OF *(3)]] d assms(3)] *(4) by simp
  ultimately show ?thesis using eps dev
    by (simp add: *(5) underlay_address_def plain_args_intro)
qed

lemma join_host_port_plain: "no_dollar a \<Longrightarrow> no_dollar (join_host_port a p)"
  by (simp add: join_host_port_def)

lemma wireguard_plain:
  assumes "lower_wireguard sp e = (Inr cmds, e')" "names sp = t_pattern WireGuard"
    and "list_all (data_layer P) sp" "plain_env kd e" "no_dollar kd"
  shows "plain_env kd e' \<and> list_all (\<lambda>c. plain_args P kd (argv c)) cmds"
proof -
  from assms(1,2) obtain outer transport tunnel inner f dev e1 where *:
    "sp = [outer, transport, tunnel, inner]" "read_wireguard outer transport tunnel inner = Inr f"
    "alloc ''wg'' e = (Inr dev, e1)" "e' = enter dev e1"
    "map argv cmds =
        [[''ip'', ''link'', ''add'', ''name'', dev, ''type'', ''wireguard''],
         [''wg'', ''set'', dev, ''listen-port'', u16 (wg_port f), ''private-key'',
            e_keydir e @ ''/'' @ dev @ ''.key''],
         peer_argv f (e_keydir e) dev,
         [''ip'', ''addr'', ''add'', prefix_string (wg_overlay f), ''dev'', dev]]"
    by (rule lower_wireguard_Inr)
  have d: "no_dollar dev" using alloc_no_dollar [OF *(3)] by simp
  have kd: "e_keydir e = kd" using assms(4) by (simp add: plain_env_def)
  have "zone_free outer" using assms(3) *(1) by (simp add: data_layer_def)
  with read_wireguard_Inr [OF *(2)] have f: "no_dollar (ep_addr (wg_endpoint f))"
    "zone_of (pfx_addr (wg_overlay f)) = []"
    using read_endpoint_zone get_prefix_zone by blast+
  have name: "P (wg_peer f)"
    using read_wireguard_Inr [OF *(2)] assms(3) *(1) by (auto simp: data_layer_def peer_name_def)
  have "plain_args P kd (peer_argv f kd dev)"
    unfolding plain_args_def
  proof (intro disjI2 exI conjI)
    show "peer_argv f kd dev = [''wg'', ''set'', dev, ''peer'', key_file kd (wg_peer f)]
        @ drop 5 (peer_argv f kd dev)"
      by (simp add: peer_argv_def key_file_def)
    show "list_all no_dollar (dev # drop 5 (peer_argv f kd dev))"
      using d f by (simp add: peer_argv_def join_host_port_plain no_dollar_prefix)
    show "P (wg_peer f)" by (rule name)
  qed
  moreover have "plain_env kd e'" using plain_env_adds [OF alloc_adds [OF *(3)] d assms(4)] *(4) by simp
  ultimately show ?thesis using d f assms(5)
    by (simp add: list_all_argv *(5) kd plain_args_intro no_dollar_prefix)
qed

text \<open>The key directory must be plain too: a registry for a directory that is not keeps nothing.\<close>

interpretation plain: lowering_invariant linux "\<lambda>e. plain_env kd e \<and> no_dollar kd" "data_layer P"
  "\<lambda>c. plain_args P kd (argv c)" for kd P
proof (unfold_locales, goal_cases)
  case (1 t f sub e cmds e')
  then have kd: "plain_env kd e" "no_dollar kd" by simp_all
  note facts = ipip_plain [of sub e cmds e' kd P] gre_plain [of sub e cmds e' kd P]
    gretap_plain [of sub e cmds e' kd P] vlan_plain [of sub e cmds e' kd P]
    vxlan_plain [of sub e cmds e' kd P] wireguard_plain [of sub e cmds e' P kd]
  have "plain_env kd e' \<and> list_all (\<lambda>c. plain_args P kd (argv c)) cmds"
    using 1(1,2) by (cases rule: linux_tile_cases) (use 1(3,4,6) kd data_layer_zone [OF 1(4)] facts in simp_all)
  with kd(2) show ?case by simp
next
  case (2 n e a)
  then show ?case using address_of_zone
    by (simp add: address_command_def plain_args_intro plain_env_def)
next
  case (3 e d)
  then show ?case by (auto simp: up_command_def plain_args_intro plain_env_def present_def list_all_iff)
qed

section \<open>Properties\<close>

lemma cover_plain:
  assumes "cover linux sp e = Some (Inr res, e')" "plain_env kd e" "no_dollar kd"
    and "list_all (data_layer P) sp" "c \<in> set (cr_script res)"
  shows "plain_env kd e'"
    and "list_all literal_arg (argv c) \<and> no_keyword (argv c) \<or> (\<exists>dev name rest.
      argv c = [''wg'', ''set'', dev, ''peer'', key_file kd name] @ rest
      \<and> list_all literal_arg (dev # rest) \<and> P name)"
proof -
  from plain.cover_keeps [OF assms(1,4)] assms(2,3,5) have p: "plain_env kd e'" "plain_args P kd (argv c)"
    by (auto simp: list_all_iff)
  show "plain_env kd e'" by (rule p(1))
  have lit: "list_all no_dollar args \<Longrightarrow> list_all literal_arg args" for args
    by (auto simp: list_all_iff no_dollar_literal)
  from p(2) show "list_all literal_arg (argv c) \<and> no_keyword (argv c) \<or> (\<exists>dev name rest.
      argv c = [''wg'', ''set'', dev, ''peer'', key_file kd name] @ rest
      \<and> list_all literal_arg (dev # rest) \<and> P name)"
    unfolding plain_args_def using lit program_no_keyword by blast
qed

text \<open>
  C7. A lowered script is data: when the names of the devices so far and the key directory have no
  dollar sign and no address of the tree has a zone, a shell reads every line of the script as
  exactly the vector of that command. The one exception is the line of a WireGuard peer, in which the
  key is looked up under the name that some layer of the tree gives; that name is not constrained here,
  so nothing is said of how the line reads (see the next property). The names stay plain for the
  next rule.
\<close>

theorem script_is_data:
  assumes "cover linux sp e = Some (Inr res, e')" and "plain_env kd e" and "no_dollar kd"
    and "list_all zone_free sp" and "c \<in> set (cr_script res)"
  shows "plain_env kd e'
    \<and> (sh_words (command_text c) = Some (argv c)
       \<or> (\<exists>dev name rest. argv c = [''wg'', ''set'', dev, ''peer'', key_file kd name] @ rest
            \<and> list_all literal_arg (dev # rest) \<and> Some name \<in> set (map peer_name sp)))"
proof -
  have "list_all (data_layer (\<lambda>name. Some name \<in> set (map peer_name sp))) sp"
    using assms(4) by (auto simp: list_all_iff data_layer_def split: option.split) (metis image_eqI)
  from cover_plain [OF assms(1-3) this assms(5)] command_text_reads show ?thesis by blast
qed

theorem script_is_data_witness:
  "\<exists>res e' c. cover linux (layers_of gre_tree) (new_env ''eth0'') = Some (Inr res, e')
     \<and> c \<in> set (cr_script res) \<and> plain_env default_key_dir e'"
proof -
  have "case cover linux (layers_of gre_tree) (new_env ''eth0'') of
      Some (Inr res, e') \<Rightarrow> cr_script res \<noteq> [] | _ \<Rightarrow> False"
    by code_simp
  then obtain res e' where r: "cover linux (layers_of gre_tree) (new_env ''eth0'') = Some (Inr res, e')"
    "cr_script res \<noteq> []"
    by (auto split: option.splits prod.splits sum.splits)
  have pre: "plain_env default_key_dir (new_env ''eth0'')" "no_dollar default_key_dir"
    "list_all zone_free (layers_of gre_tree)"
    by code_simp+
  from r(2) have "hd (cr_script res) \<in> set (cr_script res)" by simp
  with script_is_data [OF r(1) pre this] r(1) show ?thesis by blast
qed



text \<open>The address \<open>::1\<close> with a zone, which \<open>netip\<close> takes as any text.\<close>

lemma loopback_parses: "z \<noteq> [] \<Longrightarrow> parse_addr (''::1%'' @ z) = Some (V6 1 z)"
proof -
  have "parse_ipv6_bytes ''::1'' = Some (replicate 15 0 @ [1])" by code_simp
  moreover have "word_of_nat (bytes_value (replicate 15 0 @ [1])) = (1 :: 128 word)"
    by (simp add: bytes_value_def numeral_eq_Suc)
  ultimately show "z \<noteq> [] \<Longrightarrow> ?thesis" by (simp add: parse_addr_def parse_ipv6_def Let_def)
qed

lemma loopback_string: "z \<noteq> [] \<Longrightarrow> addr_string (V6 1 z) = ''::1%'' @ z"
proof -
  have "v6_groups 1 = [0, 0, 0, 0, 0, 0, 0, 1]" by (simp add: v6_groups_def upt_rec)
  moreover have "zero_run [0, 0, 0, 0, 0, 0, 0, Suc 0] = (0, 7)"
    by (simp add: zero_run_def upt_rec Let_def)
  moreover have "format_uint 16 (Suc 0) = ''1''" by code_simp
  ultimately have "v6_string 1 = ''::1''" by (simp add: v6_string_def Let_def)
  moreover have "\<not> is_4in6 1" by (simp add: is_4in6_def)
  ultimately show "z \<noteq> [] \<Longrightarrow> ?thesis" by (simp add: addr_string_def zone_suffix_def)
qed

lemma lower_vxlan_eq:
  assumes "read_vxlan a b c = Inr f" "vxlan_name (vx_vni f) e = (Inr dev, e1)"
  shows "lower_vxlan [a, b, c, d] e
    = (Inr (underlay_address (vx_local f) (e_dev e1)
        @ [new_command (vxlan_why f) (vxlan_argv f dev (e_dev e1))]), enter dev e1)"
  using assms by (simp add: lower_vxlan_def bindS_def liftS_def wrapS_def getS_def modS_def retS_def)

text \<open>
  The condition on zones is needed: a zone may hold any text, an \<open>ipv4\<close> layer takes IPv6
  addresses, and so a command substitution in the zone of an outer destination reaches the script
  live. The rule is lowered without an error, and its \<open>ip link add\<close> is no longer a list of words.
\<close>

theorem zone_reaches_shell:
  assumes "contains z ''$(''" and "char_dquote \<notin> set z" and "char_backslash \<notin> set z"
    and "CHR ''/'' \<notin> set z"
  shows "\<exists>cmds e'. lower_vxlan (layers_of (configure
        (vxlan_under ''10.0.0.1'' (''::1%'' @ z) KNumber ''100'' []))) (new_env ''eth0'') = (Inr cmds, e')
    \<and> quote_arg (''::1%'' @ z) = [char_dquote] @ ''::1%'' @ z @ [char_dquote]
    \<and> ''::1%'' @ z \<in> set (argv (last cmds)) \<and> sh_words (command_text (last cmds)) = None"
proof -
  let ?a = "''::1%'' @ z"
  let ?n = "sym_layer ''ipv4'' [(''src'', KString, ''10.0.0.1''), (''dst'', KString, ?a)]
      [sym_layer ''udp'' [(''dst-port'', KNumber, ''4789'')]
        [sym_layer ''vxlan'' [(''vni'', KNumber, ''100'')] [sym_layer ''ethernet'' [] []]]]"
  have z: "z \<noteq> []" using assms(1) by auto
  have sp: "layers_of (configure (vxlan_under ''10.0.0.1'' ?a KNumber ''100'' []))
      = [?n, hd (nchildren ?n), hd (nchildren (hd (nchildren ?n))), sym_layer ''ethernet'' [] []]"
    by (simp add: layers_of_def configure_def vxlan_under_def sym_layer_def from_form_def
        configure_form_def extract_spine_def)
  have live: "\<not> literal_arg ?a"
  proof
    assume "literal_arg ?a"
    moreover have "contains ?a ''$(''" using assms(1) unfolding contains_iff by (metis append_assoc)
    moreover have "\<not> safe ?a"
      using contains_set [OF assms(1)]
      by (auto simp: safe_def safe_char_def is_lower_def is_upper_def is_digit_def byte_def list_all_iff)
    ultimately show False using assms(2) by (simp add: literal_arg_def contains_single)
  qed
  have src: "parse_addr ''10.0.0.1'' = Some (V4 0x0A000001)" "addr_string (V4 0x0A000001) = ''10.0.0.1''"
    by code_simp+
  let ?s = "\<lparr>ep_addr = ''10.0.0.1'', ep_prefix = [], ep_dynamic = False, ep_absent = False,
      ep_pos = no_pos\<rparr>"
  let ?d = "\<lparr>ep_addr = ?a, ep_prefix = [], ep_dynamic = False, ep_absent = False, ep_pos = no_pos\<rparr>"
  let ?f = "\<lparr>vx_vni = PConcrete 100 no_pos ''vni'', vx_port = 4789, vx_local = ?s, vx_remote = ?d\<rparr>"
  have s: "read_endpoint ?n ''src'' = Inr ?s"
    using src by (simp add: read_endpoint_def sym_layer_def lookup_def contains_single
        parse_addr_value_def texty_def)
  have d: "read_endpoint ?n ''dst'' = Inr ?d"
    using assms(4) loopback_parses [OF z] loopback_string [OF z]
    by (simp add: read_endpoint_def sym_layer_def lookup_def contains_single
        parse_addr_value_def texty_def)
  have uni: "\<not> ep_multicast ?d"
    using loopback_parses [OF z] by (simp add: ep_multicast_def is_multicast_def is_4in6_def)
  have fields: "get_prop (hd (nchildren (hd (nchildren ?n)))) VNI = Inr (PConcrete 100 no_pos ''vni'')"
    "get_prop (hd (nchildren ?n)) DstPort = Inr (PConcrete 4789 no_pos ''dst-port'')"
    by (simp add: sym_layer_def, code_simp)+
  have f: "read_vxlan ?n (hd (nchildren ?n)) (hd (nchildren (hd (nchildren ?n)))) = Inr ?f"
    by (simp only: read_vxlan_def fields bindR_simps is_absent_def state_of_def s d) simp
  have "fst (vxlan_name (PConcrete 100 no_pos ''vni'') (new_env ''eth0'')) = Inr ''vxlan100''"
    by code_simp
  then obtain e1 where e1:
    "vxlan_name (vx_vni ?f) (new_env ''eth0'') = (Inr ''vxlan100'', e1)"
    by (metis prod.collapse vxlan_facts.select_convs(1))
  let ?c = "new_command (vxlan_why ?f) (vxlan_argv ?f ''vxlan100'' (e_dev e1))"
  have low: "lower_vxlan (layers_of (configure (vxlan_under ''10.0.0.1'' ?a KNumber ''100'' [])))
      (new_env ''eth0'') = (Inr [?c], enter ''vxlan100'' e1)"
    unfolding sp lower_vxlan_eq [OF f e1] by (simp add: underlay_address_def)
  have u32: "u32 100 = ''100''" by code_simp
  have argv: "argv ?c = (link_add ''vxlan100'' ''vxlan'' @ [''id'', ''100'', ''local'', ''10.0.0.1'', ''remote''])
      @ ?a # [''dstport'', u16 4789, ''dev'', e_dev e1]"
    using uni by (simp add: vxlan_argv_def vni_args_def local_args_def remote_args_def u32)
  have "list_all literal_arg (link_add ''vxlan100'' ''vxlan'' @ [''id'', ''100'', ''local'', ''10.0.0.1'', ''remote''])"
    by code_simp
  moreover have "char_backslash \<notin> set ?a" using assms(3) by simp
  ultimately have "sh_words (command_text ?c) = None"
    unfolding sh_words_def command_text_def argv by (rule line_None [OF live_line [OF _ live]])
  moreover from live_argument [OF live] have "quote_arg ?a = [char_dquote] @ ?a @ [char_dquote]" .
  ultimately show ?thesis using low argv by simp
qed

theorem zone_reaches_shell_witness:
  "\<exists>cmds e'. lower_vxlan (layers_of (configure
        (vxlan_under ''10.0.0.1'' ''::1%$(reboot)'' KNumber ''100'' []))) (new_env ''eth0'') = (Inr cmds, e')
     \<and> sh_words (command_text (last cmds)) = None"
proof -
  have "contains ''$(reboot)'' ''$(''" by code_simp
  from zone_reaches_shell [OF this] show ?thesis by auto
qed

end
