(* ===== verification/Peers.thy ===== *)
theory Peers
  imports Samples Tunnels
begin

text \<open>
  The far end as the rest of the program sees it (\<open>src/mirror/mirror.go\<close> with \<open>src/tiles/linux\<close>):
  the tree \<open>Peer\<close> derives is as well formed as the near end's, has the same layers and is made of
  the same tiles. The mirror is not always right, and the last section holds the cases where it
  is not, each as a theorem about a small tree: a group address that becomes a local address,
  ports that do not turn around, a derivable address that is dropped again.
\<close>

section \<open>The same layers\<close>

lemma skeleton_sel:
  "skeleton m = skeleton n \<Longrightarrow> nname m = nname n \<and> map skeleton (nchildren m) = map skeleton (nchildren n)"
  by (cases m; cases n) simp

lemma chain_skeleton:
  "skeleton m = skeleton n \<Longrightarrow> chain n sp \<Longrightarrow> \<exists>sp'. chain m sp' \<and> map skeleton sp' = map skeleton sp"
proof (induction n arbitrary: m sp)
  case (Node nm ps cs p)
  let ?n = "Node nm ps cs p"
  from skeleton_sel [OF Node.prems(1)]
  have m: "map skeleton (nchildren m) = map skeleton cs" by auto
  from Node.prems(2) obtain ls where sp: "sp = ?n # ls" by (cases sp) (auto simp: chain_Cons)
  show ?case
  proof (cases "ls = []")
    case True
    with Node.prems(2) sp m have "nchildren m = []" by simp
    then have "chain m [m]" by simp
    with Node.prems(1) sp True show ?thesis by (intro exI [of _ "[m]"]) simp
  next
    case False
    with Node.prems sp have c: "cs = [hd ls]" "chain (hd ls) ls" by (auto simp: chain_Cons)
    with m obtain d where d: "nchildren m = [d]" "skeleton d = skeleton (hd ls)" by auto
    from Node.IH [OF _ d(2) c(2)] c(1) obtain sp' where
      sp': "chain d sp'" "map skeleton sp' = map skeleton ls" by auto
    then have "chain m (m # sp')" using d(1) chain_hd [OF sp'(1)] chain_nonempty [OF sp'(1)]
      by (simp add: chain_Cons)
    with Node.prems(1) sp sp'(2) show ?thesis by (intro exI [of _ "m # sp'"]) simp
  qed
qed

lemma names_skeleton: "map skeleton sp' = map skeleton sp \<Longrightarrow> names sp' = names sp"
proof -
  have "nname (skeleton n) = nname n" for n by (cases n) simp
  then have "map (nname \<circ> skeleton) xs = names xs" for xs by (simp add: names_def)
  then show "map skeleton sp' = map skeleton sp \<Longrightarrow> names sp' = names sp"
    by (metis list.map_comp)
qed

text \<open>Every property but the ends is read the same from a layer and its mirror image.\<close>

lemma find_prop_filter: "P k \<Longrightarrow> find_prop (filter (\<lambda>q. P (p_key q)) ps) k = find_prop ps k"
  by (induction ps) auto

lemma get_prop_skeleton:
  assumes "skeleton m = skeleton n" "pd_key d \<noteq> ''src''" "pd_key d \<noteq> ''dst''"
  shows "get_prop m d = get_prop n d"
proof -
  let ?P = "\<lambda>k. k \<noteq> ''src'' \<and> k \<noteq> ''dst''"
  have f: "filter (\<lambda>q. ?P (p_key q)) (nprops m) = filter (\<lambda>q. ?P (p_key q)) (nprops n)"
    and p: "npos m = npos n" "nname m = nname n"
    using assms(1) by (cases m; cases n; simp)+
  have l: "lookup m (pd_key d) = lookup n (pd_key d)"
    unfolding lookup_def using find_prop_filter [of ?P "pd_key d" "nprops m"] find_prop_filter [of ?P "pd_key d" "nprops n"] assms(2,3) f by metis
  show ?thesis unfolding get_prop_def l p by (rule refl)
qed

text \<open>The far end's tree is a \<open>configure\<close> form around the mirrored packet.\<close>

lemma peer_form:
  assumes "peer q root inner = Inr res" "from_form root = Inr sp"
  obtains c packet2 sps mis where "nchildren root = [c]" "chain c sp"
    "finish_inner inner (map_chain swap_endpoints c) = (packet2, sps, mis)"
    "m_tree res = Node configure_form [] [packet2] (npos root)"
    "skeleton packet2 = skeleton c"
proof -
  from assms(2) obtain c where c: "nname root = configure_form" "nprops root = []" "nchildren root = [c]"
    "chain c sp" by (auto simp: from_form_Inr)
  then have "packet_of root = c" by (simp add: packet_of_def configure_form_def)
  with assms(1) obtain packet2 sps mis where
    p: "finish_inner inner (map_chain swap_endpoints c) = (packet2, sps, mis)"
      "m_tree res = with_packet root packet2"
    by (metis peer_Inr)
  have "m_tree res = Node configure_form [] [packet2] (npos root)"
    using p(2) c by (simp add: with_packet_def configure_form_def)
  moreover have "skeleton packet2 = skeleton c"
    using finish_inner_skeleton [OF p(1)] skeleton_map_chain [OF swap_keeps_rest] by simp
  ultimately show thesis using that c(3,4) p(1) by blast
qed

lemma peer_spine:
  assumes "peer q root inner = Inr res" "from_form root = Inr sp"
  shows "\<exists>sp'. from_form (m_tree res) = Inr sp' \<and> map skeleton sp' = map skeleton sp"
proof -
  from peer_form [OF assms] obtain c packet2 where
    c: "chain c sp" "m_tree res = Node configure_form [] [packet2] (npos root)"
      "skeleton packet2 = skeleton c" .
  from chain_skeleton [OF c(3,1)] obtain sp' where "chain packet2 sp'" "map skeleton sp' = map skeleton sp" by blast
  with c(2) show ?thesis by (auto simp: from_form_Inr)
qed

section \<open>Well-formed trees\<close>

definition props_kept :: "(node \<Rightarrow> property list) \<Rightarrow> bool" where
  "props_kept g \<longleftrightarrow> (\<forall>n. node_ok n \<longrightarrow> props_ok (g n))"

lemma node_ok_props: "node_ok n \<Longrightarrow> props_ok (nprops n)"
  by (cases n) simp

lemma map_chain_ok: "props_kept g \<Longrightarrow> node_ok n \<Longrightarrow> node_ok (map_chain g n)"
  by (induction g n rule: map_chain.induct) (auto simp: props_kept_def split: list.split)

lemma on_layer_ok: "props_kept g \<Longrightarrow> node_ok n \<Longrightarrow> node_ok (on_layer k g n)"
  by (induction k g n rule: on_layer.induct) (auto simp: props_kept_def split: list.split)

lemma rebuild_not_keyword: "vkind v \<noteq> KKeyword \<Longrightarrow> vkind (rebuild v a l) \<noteq> KKeyword"
  by (simp add: rebuild_def)

lemma swap_props_kept: "props_kept swap_endpoints"
  unfolding props_kept_def
proof (intro allI impI)
  fix n assume "node_ok n"
  then have ok: "props_ok (nprops n)" by (rule node_ok_props)
  show "props_ok (swap_endpoints n)"
  proof (cases "two_ended n")
    case True
    then obtain s d where sd: "lookup n ''src'' = Some s" "lookup n ''dst'' = Some d"
      by (auto simp: two_ended_def)
    then have "vkind (p_val s) \<noteq> KKeyword" "vkind (p_val d) \<noteq> KKeyword"
      using ok find_prop_Some unfolding lookup_def props_ok_def list_all_iff by metis+
    then have "vkind (p_val (exchange (p_val s) (p_val d) x)) \<noteq> KKeyword" if "x \<in> set (nprops n)" for x
      using ok that by (auto simp: exchange_def new_src_def new_dst_def rebuild_not_keyword props_ok_def list_all_iff)
    then show ?thesis using ok sd
      by (simp add: swap_endpoints_def props_ok_def list_all_iff comp_def)
  next
    case False
    then show ?thesis using ok by (auto simp: swap_endpoints_def two_ended_def split: option.splits)
  qed
qed

lemma set_prop_ok: "props_ok ps \<Longrightarrow> props_ok (set_prop p k t ps)"
proof -
  have "distinct (map p_key ps) \<Longrightarrow> distinct (map p_key (set_prop p k t ps))
      \<and> p_key ` set (set_prop p k t ps) \<subseteq> insert k (p_key ` set ps)"
    by (induction p k t ps rule: set_prop.induct) auto
  moreover have "list_all (\<lambda>x. vkind (p_val x) \<noteq> KKeyword) ps \<Longrightarrow>
      list_all (\<lambda>x. vkind (p_val x) \<noteq> KKeyword) (set_prop p k t ps)"
    by (induction p k t ps rule: set_prop.induct) auto
  ultimately show "props_ok ps \<Longrightarrow> props_ok (set_prop p k t ps)" by (simp add: props_ok_def)
qed

lemma remove_prop_ok: "props_ok ps \<Longrightarrow> props_ok (remove_prop k ps)"
  by (auto simp: props_ok_def remove_prop_def list_all_iff distinct_map intro: inj_on_subset)

lemma finish_inner_ok:
  assumes "finish_inner inner n = (n', sps, mis)" "node_ok n"
  shows "node_ok n'"
  using assms
  by (auto simp: finish_inner_def Let_def props_kept_def node_ok_props set_prop_ok remove_prop_ok
      split: option.splits if_splits intro!: on_layer_ok)

lemma peer_node_ok:
  assumes "peer q root inner = Inr res" "node_ok root"
  shows "node_ok (m_tree res)"
proof -
  from assms(1) obtain packet2 sps mis where
    p: "finish_inner inner (map_chain swap_endpoints (packet_of root)) = (packet2, sps, mis)"
      "m_tree res = with_packet root packet2"
    by (rule peer_Inr)
  have "node_ok (packet_of root)" using assms(2)
    by (cases root) (auto simp: packet_of_def split: list.split)
  then have "node_ok packet2" using p(1) finish_inner_ok map_chain_ok [OF swap_props_kept] by blast
  with p(2) assms(2) show ?thesis
    by (cases root) (auto simp: with_packet_def split: list.split)
qed

section \<open>What is reported\<close>

lemma map_chain_names: "map nname (spine_of (map_chain g n)) = map nname (spine_of n)"
  by (induction g n rule: map_chain.induct) (auto split: list.split)

lemma key_notes_wireguard: "''wireguard'' \<in> nname ` set layers \<Longrightarrow> key_notes q layers \<noteq> []"
  by (induction layers) (auto simp: key_notes_def)

lemma spine_of_chain: "chain n sp \<Longrightarrow> spine_of n = sp"
proof (induction n arbitrary: sp)
  case (Node nm ps cs p)
  then obtain ls where sp: "sp = Node nm ps cs p # ls" by (cases sp) (auto simp: chain_Cons)
  show ?case
  proof (cases "ls = []")
    case False
    with Node.prems sp have "cs = [hd ls]" "chain (hd ls) ls" by (auto simp: chain_Cons)
    with Node.IH [of "hd ls" ls] sp show ?thesis by simp
  qed (use Node.prems sp in simp)
qed

section \<open>Properties\<close>

text \<open>
  C12. The far end is made of the same devices: the mirrored tree of a tree that lowers is again one
  \<open>configure\<close> form around a chain of the same layers, and the tiles that cover it are the same ones
  in the same order. So whenever both ends are lowered, they have the same kinds of device.
\<close>

theorem mirror_same_tiles:
  assumes "peer q root inner = Inr res" and "from_form root = Inr sp"
  shows "\<exists>sp'. from_form (m_tree res) = Inr sp' \<and> names sp' = names sp
    \<and> choices linux sp' 0 = choices linux sp 0
    \<and> (cover linux sp e = Some (Inr near, e') \<and> cover linux sp' f = Some (Inr far, f')
         \<longrightarrow> cr_applied far = cr_applied near)"
proof -
  from peer_spine [OF assms] obtain sp' where sp': "from_form (m_tree res) = Inr sp'" "names sp' = names sp"
    using names_skeleton by blast
  from choices_names [OF sp'(2)] have "choices linux sp' 0 = choices linux sp 0" .
  with sp' linux.cover_choices [of sp e near e'] linux.cover_choices [of sp' f far f'] show ?thesis
    by (intro exI [of _ sp']) simp
qed

theorem mirror_same_tiles_witness:
  "\<exists>res sp'. peer (\<lambda>_. False) gre_tree ''10.1.0.2/30'' = Inr res \<and> from_form (m_tree res) = Inr sp'
     \<and> names sp' = [''ipv4'', ''gre'', ''ipv4''] \<and> map t_name (choices linux sp' 0) = [''GRE'']"
proof -
  have "case peer (\<lambda>_. False) gre_tree ''10.1.0.2/30'' of Inr _ \<Rightarrow> True | Inl _ \<Rightarrow> False" by code_simp
  then obtain res where res: "peer (\<lambda>_. False) gre_tree ''10.1.0.2/30'' = Inr res"
    by (auto split: sum.splits)
  have "case from_form gre_tree of Inr sp \<Rightarrow> names sp = [''ipv4'', ''gre'', ''ipv4'']
      \<and> map t_name (choices linux sp 0) = [''GRE''] | Inl _ \<Rightarrow> False"
    by code_simp
  then obtain sp where sp: "from_form gre_tree = Inr sp" "names sp = [''ipv4'', ''gre'', ''ipv4'']"
    "map t_name (choices linux sp 0) = [''GRE'']"
    by (auto split: sum.splits)
  from mirror_same_tiles [OF res sp(1)] obtain sp' where
    "from_form (m_tree res) = Inr sp'" "names sp' = names sp" "choices linux sp' 0 = choices linux sp 0"
    by blast
  with sp(2,3) res show ?thesis by auto
qed

text \<open>
  C36. The mirror keeps trees well formed: if the near end's tree has one value per property key and no
  property name as a value, on every layer, so has the far end's. Every tree \<open>Build\<close> makes is such a
  tree, so the far end of a tree that was read from a file always is one.
\<close>

theorem mirror_well_formed:
  assumes "build v = Inr root" and "peer q root inner = Inr res"
  shows "node_ok root \<and> node_ok (m_tree res) \<and> build (form_of (m_tree res)) = Inr (m_tree res)"
  using build_ok(1) [OF assms(1)] peer_node_ok [OF assms(2)] build_form_of by simp

theorem mirror_well_formed_witness:
  "\<exists>res. peer (\<lambda>_. False) gre_tree [] = Inr res \<and> node_ok (m_tree res)"
proof -
  have "case peer (\<lambda>_. False) gre_tree [] of Inr _ \<Rightarrow> True | Inl _ \<Rightarrow> False" by code_simp
  then obtain res where res: "peer (\<lambda>_. False) gre_tree [] = Inr res" by (auto split: sum.splits)
  have "node_ok gre_tree" by code_simp
  from mirror_well_formed [OF build_form_of [OF this] res] res show ?thesis by blast
qed

text \<open>
  A far end with a WireGuard layer is never reported as complete: whatever inner address is
  supplied, the key material stays missing, so \<open>pktc mirror\<close> always ends by asking for
  \<open>-peer-inner\<close>, also when it was given.
\<close>

theorem wireguard_never_complete:
  assumes "from_form root = Inr sp" and "''wireguard'' \<in> set (names sp)"
    and "mirror_tree q underlay peer_underlay inner root = Some (out, Fine)"
  shows "\<exists>res rest. peer q root inner = Inr res \<and> m_missing res \<noteq> []
    \<and> out = rest @ [char_nl] @ ''# the far end is incomplete; supply -peer-inner to finish it'' @ [char_nl]"
proof -
  from assms(3) obtain near res far where res: "peer q root inner = Inr res"
    "out = near @ mirror_report res @ far
       @ (if m_missing res \<noteq> []
          then [char_nl] @ ''# the far end is incomplete; supply -peer-inner to finish it'' @ [char_nl]
          else [])"
    by (auto simp: mirror_tree_def split: option.splits prod.splits sum.splits)
  from assms(1) obtain c where c: "nname root = configure_form" "nchildren root = [c]" "chain c sp"
    by (auto simp: from_form_Inr)
  then have "packet_of root = c" by (simp add: packet_of_def configure_form_def)
  with res(1) obtain mis where "m_missing res = key_notes q (spine_of (map_chain swap_endpoints c)) @ mis"
    by (metis peer_Inr)
  moreover have "''wireguard'' \<in> nname ` set (spine_of (map_chain swap_endpoints c))"
  proof -
    have "map nname (spine_of (map_chain swap_endpoints c)) = names sp"
      using map_chain_names spine_of_chain [OF c(3)] by (simp add: names_def)
    with assms(2) show ?thesis by (metis list.set_map)
  qed
  ultimately have "m_missing res \<noteq> []" using key_notes_wireguard by auto
  with res show ?thesis by (intro exI [of _ res] exI [of _ "near @ mirror_report res @ far"]) simp
qed

section \<open>Where the mirror goes wrong\<close>

text \<open>
  A group is not an end. The tree of \<open>testdata/vxlan-multicast.lisp\<close>, mirrored: the far end gets the
  group address as its own local address, and nothing is reported as missing.
\<close>

definition group_tree :: node where
  "group_tree = configure (vxlan_under ''10.0.0.1'' ''239.1.1.1'' KNumber ''100'' [])"

definition far_spine :: "node \<Rightarrow> string \<Rightarrow> spine" where
  "far_spine root inner =
     (case peer (\<lambda>_. False) root inner of Inr res \<Rightarrow> layers_of (m_tree res) | Inl _ \<Rightarrow> [])"

definition missing_of :: "node \<Rightarrow> string \<Rightarrow> string list" where
  "missing_of root inner = (case peer (\<lambda>_. False) root inner of Inr res \<Rightarrow> m_missing res | Inl _ \<Rightarrow> [''failed''])"

definition emitted :: "script lowering \<Rightarrow> script" where
  "emitted m = (case m (new_env ''eth0'') of (Inr cmds, _) \<Rightarrow> cmds | (Inl _, _) \<Rightarrow> [])"

text \<open>
  The mirror misreads a multicast group: it exchanges the group address with the local one, so
  that the far end, which belongs to the same group, gets a device whose \<open>local\<close> is the group and
  whose \<open>remote\<close> is the near end, with no group at all. Nothing is reported as missing.
\<close>

theorem mirror_misreads_group:
  "missing_of group_tree [] = []
   \<and> map (link_option (emitted (lower_vxlan (layers_of group_tree)))) [''local'', ''remote'', ''group'']
     = [Some ''10.0.0.1'', None, Some ''239.1.1.1'']
   \<and> map (link_option (emitted (lower_vxlan (far_spine group_tree [])))) [''local'', ''remote'', ''group'']
     = [Some ''239.1.1.1'', Some ''10.0.0.1'', None]"
  by (intro conjI; code_simp)

text \<open>
  The mirror does not turn the ports of a WireGuard tunnel around: whatever the tree is, the far end
  listens on the near end's port, and the port it calls is the near end's remote port. Unless the two
  are the same, neither end sends to the port the other listens on.
\<close>

theorem mirror_keeps_ports:
  assumes "peer q root inner = Inr res" and "from_form root = Inr sp" and "from_form (m_tree res) = Inr sp'"
    and "names sp = t_pattern WireGuard"
    and "read_wireguard (sp ! 0) (sp ! 1) (sp ! 2) (sp ! 3) = Inr f"
    and "read_wireguard (sp' ! 0) (sp' ! 1) (sp' ! 2) (sp' ! 3) = Inr g"
  shows "wg_port g = wg_port f \<and> wg_remote_port g = wg_remote_port f \<and> wg_peer g = wg_peer f"
proof -
  from peer_spine [OF assms(1,2)] assms(3) have "map skeleton sp' = map skeleton sp" by simp
  moreover have "length (names sp) = 4" by (simp add: assms(4) WireGuard_def plain_tile_def)
  then have "length sp = 4" by (simp add: names_def)
  ultimately have "skeleton (sp' ! i) = skeleton (sp ! i)" if "i < 4" for i
    using that by (metis length_map nth_map)
  then have "skeleton (sp' ! 1) = skeleton (sp ! 1)" "skeleton (sp' ! 2) = skeleton (sp ! 2)" by simp_all
  then have eq: "get_prop (sp' ! 2) Peer = get_prop (sp ! 2) Peer"
    "get_prop (sp' ! 1) SrcPort = get_prop (sp ! 1) SrcPort"
    "get_prop (sp' ! 1) DstPort = get_prop (sp ! 1) DstPort"
    by (intro get_prop_skeleton; simp add: Peer_def SrcPort_def DstPort_def)+
  note f = read_wireguard_Inr [OF assms(5)] and g = read_wireguard_Inr [OF assms(6)]
  from f obtain p k p' k' v where nearby: "get_prop (sp ! 2) Peer = Inr (PConcrete (wg_peer f) p k)"
    "get_prop (sp ! 1) SrcPort = Inr (PConcrete (wg_port f) p' k')" "get_prop (sp ! 1) DstPort = Inr v"
    "wg_remote_port f = (case concrete v of Some q \<Rightarrow> q | None \<Rightarrow> wg_port f)"
    by blast
  from g obtain r l r' l' w where "get_prop (sp' ! 2) Peer = Inr (PConcrete (wg_peer g) r l)"
    "get_prop (sp' ! 1) SrcPort = Inr (PConcrete (wg_port g) r' l')" "get_prop (sp' ! 1) DstPort = Inr w"
    "wg_remote_port g = (case concrete w of Some q \<Rightarrow> q | None \<Rightarrow> wg_port g)"
    by blast
  then show ?thesis unfolding eq nearby(1-3) using nearby(4) by (auto split: option.split)
qed

text \<open>
  The inner address goes to the innermost \<open>ipv4\<close> or \<open>ipv6\<close> layer whose \<open>:src\<close> has a prefix length,
  which may be the outermost one. Then \<open>-peer-inner\<close> overwrites the far end's underlay address, which
  the exchange had derived; and without it, a derived address is dropped again and reported as one
  that the tree does not contain.
\<close>

definition prefixed_tree :: node where
  "prefixed_tree = configure (vxlan_under ''10.0.0.1/24'' ''10.0.0.2'' KNumber ''100'' [])"

definition derivable_tree :: node where
  "derivable_tree = configure
     (sym_layer ''ipv4'' [(''src'', KString, ''10.0.0.1''), (''dst'', KString, ''10.0.0.2'')]
        [sym_layer ''gre'' []
          [sym_layer ''ipv4'' [(''src'', KString, ''10.1.0.1/30''), (''dst'', KString, ''10.1.0.2'')] []]])"

theorem mirror_overwrites_derived:
  "map (link_option (emitted (lower_vxlan (far_spine prefixed_tree ''10.9.0.2/24'')))) [''local'', ''remote'']
     = [Some ''10.9.0.2'', Some ''10.0.0.1'']
   \<and> missing_of prefixed_tree ''10.9.0.2/24'' = []
   \<and> map_option (\<lambda>res. (length (m_missing res), lookup (layers_of (m_tree res) ! 2) ''src''))
       (case peer (\<lambda>_. False) derivable_tree [] of Inr res \<Rightarrow> Some res | Inl _ \<Rightarrow> None) = Some (1, None)
   \<and> map_option (vtext \<circ> p_val) (lookup (swapped (layers_of derivable_tree ! 2)) ''src'') = Some ''10.1.0.2/30''"
  by (intro conjI; code_simp)

end
