(* ===== verification/FarEnd.thy ===== *)
theory FarEnd
  imports Peers
begin

text \<open>
  The mirror as a map on layers (\<open>src/mirror/mirror.go\<close>): what \<open>Peer\<close> makes of each layer of a tree,
  and from that the two directions of a tunnel. Mirroring the far end gives the near end back, and the
  far end of a point-to-point tunnel is configured by the near end's command with its two addresses
  exchanged.
\<close>

section \<open>Layers without what is inside them\<close>

definition face :: "node \<Rightarrow> string \<times> property list \<times> pos" where
  "face n = (nname n, nprops n, npos n)"

lemma face_eq: "face m = face n \<longleftrightarrow> nname m = nname n \<and> nprops m = nprops n \<and> npos m = npos n"
  by (simp add: face_def)

lemma face_node [simp]: "face (Node n ps cs p) = (n, ps, p)"
  by (simp add: face_def)

lemma face_swapped: "face (swapped n) = (nname n, swap_endpoints n, npos n)"
  by (simp add: face_def)

text \<open>A chain is determined by the faces of its layers.\<close>

lemma chain_faces: "chain n sp \<Longrightarrow> chain m sp' \<Longrightarrow> map face sp = map face sp' \<Longrightarrow> n = m"
proof (induction sp arbitrary: n m sp')
  case (Cons l ls)
  then obtain l' ls' where sp': "sp' = l' # ls'" "map face ls = map face ls'" "face l = face l'" by auto
  show ?case
  proof (cases "ls = []")
    case True
    with sp' Cons.prems show ?thesis by (cases n; cases m) (auto simp: chain_Cons face_eq)
  next
    case False
    with sp'(2) have "ls' \<noteq> []" by auto
    with False Cons.prems sp' have "nchildren n = [hd ls]" "chain (hd ls) ls" "nchildren m = [hd ls']"
      "chain (hd ls') ls'" "l = n" "l' = m" by (auto simp: chain_Cons)
    with Cons.IH [of "hd ls" "hd ls'" ls'] sp' show ?thesis by (cases n; cases m) (auto simp: face_eq)
  qed
qed simp

lemma chain_step: "chain (Node n ps cs p) sp \<longleftrightarrow>
    (\<exists>ls. sp = Node n ps cs p # ls \<and> (if ls = [] then cs = [] else cs = [hd ls] \<and> chain (hd ls) ls))"
  by (cases sp) (auto simp: chain_Cons)

lemma map_chain_faces:
  "chain n sp \<Longrightarrow> \<exists>sp'. chain (map_chain g n) sp'
     \<and> map face sp' = map (\<lambda>m. (nname m, g m, npos m)) sp"
proof (induction n arbitrary: sp)
  case (Node nm ps cs p)
  let ?n = "Node nm ps cs p"
  from Node.prems obtain ls where sp: "sp = ?n # ls"
    "if ls = [] then cs = [] else cs = [hd ls] \<and> chain (hd ls) ls" by (auto simp: chain_step)
  show ?case
  proof (cases "ls = []")
    case True
    with sp show ?thesis by (intro exI [of _ "[Node nm (g ?n) [] p]"]) simp
  next
    case False
    with sp have cs: "cs = [hd ls]" and ch: "chain (hd ls) ls" by simp_all
    from Node.IH [OF _ ch] cs obtain sp' where
      sp': "chain (map_chain g (hd ls)) sp'" "map face sp' = map (\<lambda>m. (nname m, g m, npos m)) ls" by auto
    let ?m = "Node nm (g ?n) [map_chain g (hd ls)] p"
    have "chain ?m (?m # sp')" using chain_hd [OF sp'(1)] chain_nonempty [OF sp'(1)] sp'(1)
      by (simp add: chain_Cons)
    with sp'(2) sp(1) cs show ?thesis by (intro exI [of _ "?m # sp'"]) simp
  qed
qed

lemma on_layer_faces:
  "chain n sp \<Longrightarrow> k < length sp \<Longrightarrow> \<exists>sp'. chain (on_layer k g n) sp'
     \<and> map face sp' = (map face sp)[k := (nname (sp ! k), g (sp ! k), npos (sp ! k))]"
proof (induction k arbitrary: n sp)
  case 0
  then obtain nm ps cs p ls where n: "n = Node nm ps cs p" "sp = n # ls"
    "if ls = [] then cs = [] else cs = [hd ls] \<and> chain (hd ls) ls"
    by (cases n) (auto simp: chain_step)
  then show ?case
    by (intro exI [of _ "on_layer 0 g n # ls"]) (auto simp: chain_Cons split: if_splits)
next
  case (Suc k)
  then obtain nm ps cs p ls where n: "n = Node nm ps cs p" "sp = n # ls" "ls \<noteq> []"
    "cs = [hd ls]" "chain (hd ls) ls"
    by (cases n) (auto simp: chain_step split: if_splits)
  with Suc obtain sp' where sp': "chain (on_layer k g (hd ls)) sp'"
    "map face sp' = (map face ls)[k := (nname (ls ! k), g (ls ! k), npos (ls ! k))]" by fastforce
  let ?m = "on_layer (Suc k) g n"
  have "chain ?m (?m # sp')" using n(1,4) chain_hd [OF sp'(1)] chain_nonempty [OF sp'(1)] sp'(1)
    by (simp add: chain_Cons)
  with sp'(2) n show ?case by (intro exI [of _ "?m # sp'"]) simp
qed

section \<open>What the mirror makes of each layer\<close>

lemma swap_props: "nprops m = nprops n \<Longrightarrow> swap_endpoints m = swap_endpoints n"
  by (simp add: swap_endpoints_def lookup_def split: option.split)

lemma addressed_face: "face m = face n \<Longrightarrow> addressed m = addressed n"
  by (simp add: addressed_def lookup_def face_eq)

lemma innermost_from_cong:
  "(\<And>j. j < i \<Longrightarrow> addressed (a ! j) = addressed (b ! j)) \<Longrightarrow> innermost_from i a = innermost_from i b"
  by (induction i) simp_all

lemma innermost_cong: "map addressed a = map addressed b \<Longrightarrow> innermost_addressed a = innermost_addressed b"
  unfolding innermost_addressed_def by (metis innermost_from_cong length_map nth_map)

lemma innermost_from_Some: "innermost_from i a = Some k \<Longrightarrow> k < i \<and> addressed (a ! k)"
  by (induction i) (auto split: if_splits simp: less_Suc_eq)

lemma innermost_Some: "innermost_addressed a = Some k \<Longrightarrow> k < length a \<and> addressed (a ! k)"
  by (simp add: innermost_addressed_def innermost_from_Some)

definition inner_props :: "string \<Rightarrow> node \<Rightarrow> property list" where
  "inner_props inner n =
     (if inner \<noteq> [] then set_prop (npos n) ''src'' inner (nprops n) else remove_prop ''src'' (nprops n))"

definition with_inner :: "string \<Rightarrow> spine \<Rightarrow> (string \<times> property list \<times> pos) list" where
  "with_inner inner sp =
     (case innermost_addressed sp of
        None \<Rightarrow> map face sp
      | Some k \<Rightarrow> (map face sp)[k := (nname (sp ! k), inner_props inner (sp ! k), npos (sp ! k))])"

lemma finish_inner_faces:
  assumes "finish_inner inner n = (n', sps, mis)" "chain n sp"
  shows "\<exists>sp'. chain n' sp' \<and> map face sp' = with_inner inner sp"
proof -
  have l: "spine_of n = sp" by (rule spine_of_chain [OF assms(2)])
  show ?thesis
  proof (cases "innermost_addressed sp")
    case None
    with assms l show ?thesis by (auto simp: finish_inner_def with_inner_def)
  next
    case (Some k)
    then have "n' = on_layer k (inner_props inner) n"
      using assms(1) l by (auto simp: finish_inner_def Let_def inner_props_def [abs_def] split: if_splits)
    with on_layer_faces [OF assms(2) conjunct1 [OF innermost_Some [OF Some]]] Some show ?thesis
      by (auto simp: with_inner_def)
  qed
qed

text \<open>The two steps of the mirror: the ends of every layer are exchanged, then the inner address is set.\<close>

lemma addressed_faces: "map face a = map face b \<Longrightarrow> innermost_addressed a = innermost_addressed b"
proof (rule innermost_cong)
  assume *: "map face a = map face b"
  show "map addressed a = map addressed b"
  proof (rule nth_equalityI)
    show "length (map addressed a) = length (map addressed b)" using map_eq_imp_length_eq [OF *] by simp
    fix i assume "i < length (map addressed a)"
    with map_eq_imp_length_eq [OF *] arg_cong [OF *, of "\<lambda>l. l ! i"]
    have "face (a ! i) = face (b ! i)" by simp
    from addressed_face [OF this] \<open>i < length (map addressed a)\<close> map_eq_imp_length_eq [OF *]
    show "map addressed a ! i = map addressed b ! i" by simp
  qed
qed

lemma with_inner_faces:
  assumes "map face a = map face b"
  shows "with_inner inner a = with_inner inner b"
proof (cases "innermost_addressed b")
  case None
  with addressed_faces [OF assms] assms show ?thesis by (simp add: with_inner_def)
next
  case (Some k)
  then have k: "k < length b" using innermost_Some by blast
  with map_eq_imp_length_eq [OF assms] arg_cong [OF assms, of "\<lambda>l. l ! k"]
  have "face (a ! k) = face (b ! k)" by simp
  then have "nname (a ! k) = nname (b ! k)" "inner_props inner (a ! k) = inner_props inner (b ! k)"
    "npos (a ! k) = npos (b ! k)" by (simp_all add: face_eq inner_props_def)
  with addressed_faces [OF assms] assms Some show ?thesis by (simp add: with_inner_def)
qed

lemma peer_layers:
  assumes "peer q root inner = Inr res" "from_form root = Inr sp"
  shows "\<exists>sp'. from_form (m_tree res) = Inr sp' \<and> map face sp' = with_inner inner (map swapped sp)
    \<and> npos (m_tree res) = npos root"
proof -
  from peer_form [OF assms] obtain c packet2 sps mis where
    c: "chain c sp" "finish_inner inner (map_chain swap_endpoints c) = (packet2, sps, mis)"
      "m_tree res = Node configure_form [] [packet2] (npos root)" .
  from map_chain_faces [OF c(1)] obtain sp1 where
    sp1: "chain (map_chain swap_endpoints c) sp1" "map face sp1 = map face (map swapped sp)"
    by (auto simp: face_swapped comp_def)
  from finish_inner_faces [OF c(2) sp1(1)] obtain sp' where
    "chain packet2 sp'" "map face sp' = with_inner inner sp1" by blast
  with with_inner_faces [OF sp1(2)] c(3) show ?thesis by (auto simp: from_form_Inr)
qed

text \<open>\<open>Peer\<close> succeeds whenever some layer has two ends and the inner address reads.\<close>

lemma peer_succeeds:
  assumes "from_form root = Inr sp" "\<exists>n \<in> set sp. two_ended n" "check_inner inner = Inr ()"
  shows "\<exists>res. peer q root inner = Inr res"
proof -
  from assms(1) obtain c where c: "nname root = configure_form" "nchildren root = [c]" "chain c sp"
    by (auto simp: from_form_Inr)
  then have "packet_of root = c" by (simp add: packet_of_def configure_form_def)
  with spine_of_chain [OF c(3)] assms(2,3) show ?thesis
    by (auto simp: peer_def Let_def filter_empty_conv split: prod.split)
qed

lemma peer_two_ended:
  assumes "peer q root inner = Inr res" "from_form root = Inr sp"
  shows "\<exists>n \<in> set sp. two_ended n"
proof -
  from assms(2) obtain c where c: "nname root = configure_form" "nchildren root = [c]" "chain c sp"
    by (auto simp: from_form_Inr)
  then have "packet_of root = c" by (simp add: packet_of_def configure_form_def)
  with spine_of_chain [OF c(3)] peer_Inr [OF assms(1)] show ?thesis by (metis filter_False)
qed

lemma forms_equal:
  assumes "from_form a = Inr s" "from_form b = Inr t" "map face s = map face t" "npos a = npos b"
  shows "a = b"
proof -
  from assms(1,2) obtain c d where "nchildren a = [c]" "chain c s" "nchildren b = [d]" "chain d t"
    "nname a = nname b" "nprops a = nprops b" by (auto simp: from_form_Inr)
  with chain_faces [of c s d t] assms(3,4) show ?thesis by (cases a; cases b) simp
qed

section \<open>The two ends of a tunnel\<close>

lemma no_slash_no_prefix: "CHR ''/'' \<notin> set s \<Longrightarrow> parse_prefix s = None"
  by (simp add: parse_prefix_def last_index_byte_def index_byte_None [THEN iffD2])

lemma addressed_slash:
  assumes "addressed n" "lookup n ''src'' = Some s"
  shows "CHR ''/'' \<in> set (vtext (p_val s))"
  using assms no_slash_no_prefix [of "vtext (p_val s)"]
  by (auto simp: addressed_def parse_prefix_value_def split: sum.splits option.splits if_splits)

lemma get_prop_face:
  assumes "face m = face n"
  shows "get_prop m d = get_prop n d"
proof -
  have l: "lookup m (pd_key d) = lookup n (pd_key d)" and p: "npos m = npos n" "nname m = nname n"
    using assms by (simp_all add: lookup_def face_eq)
  show ?thesis unfolding get_prop_def l p by (rule refl)
qed

lemma endpoints_face:
  assumes "face m = face n"
  shows "endpoints m = endpoints n"
proof -
  have n: "nname m = nname n" using assms by (simp add: face_eq)
  show ?thesis unfolding endpoints_def get_prop_face [OF assms] n by (rule refl)
qed

lemma swapped_endpoints:
  assumes "endpoints n = Inr (l, r)"
    and bare: "list_all (\<lambda>q. p_key q \<in> {''src'', ''dst''} \<longrightarrow> CHR ''/'' \<notin> set (vtext (p_val q))) (nprops n)"
  shows "endpoints (swapped n) = Inr (r, l)" and "\<not> addressed (swapped n)"
proof -
  from assms(1) obtain a p k b q j where ab: "get_prop n Src = Inr (PConcrete a p k)" "l = addr_string a"
    "get_prop n Dst = Inr (PConcrete b q j)" "r = addr_string b"
    by (auto simp: endpoints_def bindR_eq_Inr require_Inr concrete_iff split: if_splits)
  then obtain s d where sd: "lookup n ''src'' = Some s" "lookup n ''dst'' = Some d"
    and kinds: "vkind (p_val s) \<noteq> KStar" "vkind (p_val d) \<noteq> KStar"
    and parsed: "parse_addr_value (p_val s) = Inr a" "parse_addr_value (p_val d) = Inr b"
    by (auto simp: get_prop_concrete Src_def Dst_def)
  from parsed have addrs: "parse_addr (vtext (p_val s)) = Some a" "parse_addr (vtext (p_val d)) = Some b"
    by (auto simp: parse_addr_value_def split: if_splits option.splits)
  then have ne: "vtext (p_val s) \<noteq> []" "vtext (p_val d) \<noteq> []" by (auto simp: parse_addr_def)
  have slash: "CHR ''/'' \<notin> set (vtext (p_val s))" "CHR ''/'' \<notin> set (vtext (p_val d))"
    using bare find_prop_Some sd by (fastforce simp: list_all_iff lookup_def)+
  then have split: "split_prefix (p_val s) = (vtext (p_val s), [])" "split_prefix (p_val d) = (vtext (p_val d), [])"
    using kinds by (simp_all add: split_prefix_def index_byte_None [THEN iffD2])
  have new: "new_src (p_val s) (p_val d) = SVal KString (vtext (p_val d)) [] (vpos (p_val d))"
    "new_dst (p_val s) (p_val d) = SVal KString (vtext (p_val s)) [] (vpos (p_val s))"
    using ne kinds by (simp_all add: new_src_def new_dst_def rebuild_def split)
  have "get_prop (swapped n) Src = Inr (PConcrete b (vpos (p_val d)) ''src'')"
    "get_prop (swapped n) Dst = Inr (PConcrete a (vpos (p_val s)) ''dst'')"
    using lookup_swapped [OF sd] addrs
    by (simp_all add: get_prop_concrete Src_def Dst_def new parse_addr_value_def texty_def)
  then show "endpoints (swapped n) = Inr (r, l)"
    by (simp add: endpoints_def is_dynamic_def state_of_def require_def ab(2,4))
  show "\<not> addressed (swapped n)"
    using addressed_slash [OF _ lookup_swapped(1) [OF sd]] slash(2) by (auto simp: new)
qed

section \<open>There and back\<close>

text \<open>
  What a tree must be like for its mirror to be undone: the ends of its layers can be exchanged back, and
  exchanging them leaves the same layer as the innermost one with an address, a layer with one end,
  written as a string.
\<close>

definition reversible :: "node \<Rightarrow> bool" where
  "reversible n \<longleftrightarrow>
     (case (lookup n ''src'', lookup n ''dst'') of
        (Some s, Some d) \<Rightarrow> swappable (p_val s) (p_val d)
      | _ \<Rightarrow> True)"

definition inner_stays :: "spine \<Rightarrow> bool" where
  "inner_stays sp \<longleftrightarrow> innermost_addressed (map swapped sp) = innermost_addressed sp
     \<and> (case innermost_addressed sp of
          None \<Rightarrow> True
        | Some k \<Rightarrow> \<not> two_ended (sp ! k)
            \<and> (case lookup (sp ! k) ''src'' of
                 None \<Rightarrow> False | Some p \<Rightarrow> vkind (p_val p) = KString \<and> vitems (p_val p) = []))"

lemma one_ended_swapped: "\<not> two_ended n \<Longrightarrow> swap_endpoints n = nprops n"
  by (auto simp: two_ended_def swap_endpoints_def split: option.split)

lemma reversible_swap:
  assumes "reversible n" "node_ok n"
  shows "swap_endpoints (swapped n) = nprops n" and "two_ended (swapped n) \<longleftrightarrow> two_ended n"
proof -
  have "swap_endpoints (swapped n) = nprops n \<and> (two_ended (swapped n) \<longleftrightarrow> two_ended n)"
  proof (cases "two_ended n")
    case False
    then have f: "face (swapped n) = face n" by (simp add: face_swapped one_ended_swapped face_eq face_def)
    then have "two_ended (swapped n) \<longleftrightarrow> two_ended n" by (simp add: two_ended_def lookup_def face_eq)
    moreover have "swap_endpoints (swapped n) = nprops n"
      using False f swap_props [of "swapped n" n] one_ended_swapped by (simp add: face_eq)
    ultimately show ?thesis by simp
  next
    case True
    then obtain s d where sd: "lookup n ''src'' = Some s" "lookup n ''dst'' = Some d"
      by (auto simp: two_ended_def)
    with assms(1) have "swappable (p_val s) (p_val d)" by (simp add: reversible_def)
    from swap_twice [OF assms(2) sd this] lookup_swapped [OF sd] True show ?thesis
      by (simp add: two_ended_def)
  qed
  then show "swap_endpoints (swapped n) = nprops n" "two_ended (swapped n) \<longleftrightarrow> two_ended n" by simp_all
qed

lemma set_prop_back:
  "find_prop ps k = Some q \<Longrightarrow> p_val q = SVal KString t [] (vpos (p_val q))
    \<Longrightarrow> set_prop p k t (set_prop p' k x ps) = ps"
proof (induction ps)
  case (Cons a ps)
  show ?case
  proof (cases "p_key a = k")
    case True
    with Cons.prems show ?thesis by (cases a) (auto split: if_splits)
  qed (use Cons in simp)
qed simp

lemma find_set_prop: "find_prop (set_prop p k t ps) k' =
    (if k' = k then Some (case find_prop ps k of None \<Rightarrow> \<lparr>p_key = k, p_val = SVal KString t [] p, p_pos = p\<rparr>
        | Some q \<Rightarrow> q\<lparr>p_val := SVal KString t [] (vpos (p_val q))\<rparr>)
     else find_prop ps k')"
  by (induction p k t ps rule: set_prop.induct) auto

lemma chain_node_ok: "node_ok n \<Longrightarrow> chain n sp \<Longrightarrow> list_all node_ok sp"
proof (induction n arbitrary: sp)
  case (Node nm ps cs p)
  from Node.prems(2) obtain ls where sp: "sp = Node nm ps cs p # ls"
    "if ls = [] then cs = [] else cs = [hd ls] \<and> chain (hd ls) ls" by (auto simp: chain_step)
  show ?case
  proof (cases "ls = []")
    case False
    with sp Node.prems(1) have "node_ok (hd ls)" "hd ls \<in> set cs" "chain (hd ls) ls" by auto
    with Node.IH [of "hd ls" ls] Node.prems(1) sp(1) show ?thesis by simp
  qed (use Node.prems(1) sp in simp)
qed

text \<open>The inner address that the near end was written with.\<close>

definition near_inner :: "spine \<Rightarrow> string" where
  "near_inner sp =
     (case innermost_addressed sp of
        None \<Rightarrow> []
      | Some k \<Rightarrow> (case lookup (sp ! k) ''src'' of None \<Rightarrow> [] | Some p \<Rightarrow> vtext (p_val p)))"

lemma inner_layer:
  assumes "innermost_addressed sp = Some k" "inner_stays sp"
  obtains p where "k < length sp" "lookup (sp ! k) ''src'' = Some p" "lookup (sp ! k) ''dst'' = None"
    "p_val p = SVal KString (near_inner sp) [] (vpos (p_val p))" "near_inner sp \<noteq> []"
    "check_inner (near_inner sp) = Inr ()"
proof -
  from innermost_Some [OF assms(1)] have k: "k < length sp" "addressed (sp ! k)" by auto
  from assms obtain p where p: "lookup (sp ! k) ''src'' = Some p" "vkind (p_val p) = KString" "vitems (p_val p) = []"
    and "\<not> two_ended (sp ! k)" by (auto simp: inner_stays_def split: option.splits)
  then have d: "lookup (sp ! k) ''dst'' = None"
    by (cases "lookup (sp ! k) ''dst''") (simp_all add: two_ended_def)
  from k(2) p(1) obtain a where a: "parse_prefix_value (p_val p) = Inr a"
    by (auto simp: addressed_def split: sum.splits)
  have t: "near_inner sp = vtext (p_val p)" by (simp add: near_inner_def assms(1) p(1))
  with p(2,3) have v: "p_val p = SVal KString (near_inner sp) [] (vpos (p_val p))"
    by (cases "p_val p") simp
  from addressed_slash [OF k(2) p(1)] t have "near_inner sp \<noteq> []" by auto
  moreover have "check_inner (near_inner sp) = Inr ()"
  proof -
    from a have "parse_prefix (near_inner sp) \<noteq> None" "contains (near_inner sp) ''/''"
      unfolding t by (auto simp: parse_prefix_value_def split: if_splits option.splits)
    then show ?thesis by (auto simp: check_inner_def parse_prefix_value_def texty_def bindR_eq_Inr wrap_err_eq_Inr)
  qed
  ultimately show thesis using that k(1) p(1) d v by blast
qed

text \<open>A reversible layer that was mirrored and is exchanged again is what it was.\<close>

lemma swapped_back:
  assumes "face m = face (swapped n)" "reversible n" "node_ok n"
  shows "face (swapped m) = face n"
proof -
  have "swap_endpoints m = swap_endpoints (swapped n)" using assms(1) by (intro swap_props) (simp add: face_eq)
  also have "\<dots> = nprops n" by (rule reversible_swap(1) [OF assms(2,3)])
  finally show ?thesis using assms(1) by (simp add: face_eq)
qed

text \<open>The inner layer has one end, so the exchange leaves it, before and after its address is set.\<close>

lemma inner_layer_set:
  assumes "lookup n ''src'' = Some p" "lookup n ''dst'' = None" "x \<noteq> []"
    and "face m = (nname n, inner_props x (swapped n), npos n)"
  shows "face (swapped m) = (nname n, set_prop (npos n) ''src'' x (nprops n), npos n)"
proof -
  have "\<not> two_ended n" using assms(2) by (simp add: two_ended_def)
  then have m: "nprops m = set_prop (npos n) ''src'' x (nprops n)" "nname m = nname n" "npos m = npos n"
    using assms(3,4) by (simp_all add: face_def inner_props_def one_ended_swapped)
  then have "lookup m ''dst'' = None" using assms(2) by (simp add: lookup_def find_set_prop)
  then have "\<not> two_ended m" by (simp add: two_ended_def)
  with m show ?thesis by (simp add: face_swapped one_ended_swapped)
qed

text \<open>The layers of the far end, with their ends exchanged again, and their inner address restored.\<close>

lemma mirrored_twice:
  assumes "list_all reversible sp" "list_all node_ok sp" "x \<noteq> []" "check_inner x = Inr ()"
    and stays: "inner_stays sp"
    and far: "map face sp' = with_inner x (map swapped sp)"
  shows "with_inner (near_inner sp) (map swapped sp') = map face sp"
proof (cases "innermost_addressed sp")
  case None
  then have inner: "innermost_addressed (map swapped sp) = None" using stays by (simp add: inner_stays_def)
  from far have f: "map face sp' = map face (map swapped sp)" by (simp add: with_inner_def inner)
  have undone: "map face (map swapped sp') = map face sp"
  proof (rule nth_equalityI)
    show len: "length (map face (map swapped sp')) = length (map face sp)"
      using arg_cong [OF f, of length] by simp
    fix i assume "i < length (map face (map swapped sp'))"
    with len arg_cong [OF f, of "\<lambda>l. l ! i"] assms(1,2) swapped_back [of "sp' ! i" "sp ! i"]
    show "map face (map swapped sp') ! i = map face sp ! i" by (simp add: list_all_length)
  qed
  with addressed_faces [OF undone] show ?thesis by (simp add: with_inner_def None)
next
  case (Some k)
  from inner_layer [OF this stays] obtain p where p: "k < length sp" "lookup (sp ! k) ''src'' = Some p"
    "lookup (sp ! k) ''dst'' = None" "p_val p = SVal KString (near_inner sp) [] (vpos (p_val p))"
    "near_inner sp \<noteq> []" .
  let ?n = "sp ! k"
  let ?set = "(nname ?n, set_prop (npos ?n) ''src'' x (nprops ?n), npos ?n)"
  have "innermost_addressed (map swapped sp) = Some k" using stays Some by (simp add: inner_stays_def)
  with far p(1) have
    f: "map face sp' = (map face (map swapped sp))[k := (nname ?n, inner_props x (swapped ?n), npos ?n)]"
    by (simp add: with_inner_def)
  then have len: "length sp' = length sp" by (metis length_list_update length_map)
  have layer: "face (swapped (sp' ! i)) = (if i = k then ?set else face (sp ! i))" if i: "i < length sp" for i
  proof (cases "i = k")
    case True
    with arg_cong [OF f, of "\<lambda>l. l ! i"] len p(1) inner_layer_set [OF p(2,3) assms(3), of "sp' ! k"]
    show ?thesis by simp
  next
    case False
    with arg_cong [OF f, of "\<lambda>l. l ! i"] len i have "face (sp' ! i) = face (swapped (sp ! i))" by simp
    with swapped_back assms(1,2) i False show ?thesis by (simp add: list_all_length)
  qed
  have "innermost_addressed (map swapped sp') = innermost_addressed sp"
  proof (rule innermost_cong, rule nth_equalityI)
    fix i assume "i < length (map addressed (map swapped sp'))"
    then have i: "i < length sp" using len by simp
    show "map addressed (map swapped sp') ! i = map addressed sp ! i"
    proof (cases "i = k")
      case True
      have "addressed ?n" using innermost_Some [OF Some] by simp
      moreover have "addressed (swapped (sp' ! k))"
        using layer [OF p(1)] calculation assms(3,4) p(2)
        by (auto simp: addressed_def lookup_def face_def find_set_prop check_inner_def bindR_eq_Inr
            wrap_err_eq_Inr parse_prefix_value_def texty_def split: option.splits if_splits sum.splits)
      ultimately show ?thesis using True len i by simp
    next
      case False
      with addressed_face [of "swapped (sp' ! i)" "sp ! i"] layer [OF i] len i show ?thesis by simp
    qed
  qed (simp add: len)
  moreover have "inner_props (near_inner sp) (swapped (sp' ! k)) = nprops ?n"
    using layer [OF p(1)] set_prop_back [of "nprops ?n" "''src''" p "near_inner sp"] p(2,4,5)
    by (simp add: inner_props_def face_def lookup_def)
  ultimately have "with_inner (near_inner sp) (map swapped sp')
      = (map face (map swapped sp'))[k := face ?n]"
    using Some layer [OF p(1)] len p(1) by (simp add: with_inner_def face_def)
  also have "\<dots> = map face sp"
    by (rule nth_equalityI) (simp_all add: len layer p(1) nth_list_update)
  finally show ?thesis .
qed

lemma two_ended_stays:
  assumes "list_all reversible sp" "list_all node_ok sp" "map face sp' = with_inner x (map swapped sp)"
    and "n \<in> set sp" "two_ended n" "inner_stays sp"
  shows "\<exists>m \<in> set sp'. two_ended m"
proof -
  from assms(4) obtain i where i: "i < length sp" "n = sp ! i" by (auto simp: in_set_conv_nth)
  with assms(1,2) have r: "reversible n" "node_ok n" by (simp_all add: list_all_length)
  have "innermost_addressed (map swapped sp) \<noteq> Some i"
    using assms(5,6) i(2) by (auto simp: inner_stays_def split: option.splits)
  then have "with_inner x (map swapped sp) ! i = face (swapped n) \<and> length (with_inner x (map swapped sp)) = length sp"
    using i by (auto simp: with_inner_def split: option.split)
  with assms(3) i(1) have "i < length sp'" "face (sp' ! i) = face (swapped n)"
    by (metis length_map, metis length_map nth_map)
  moreover from this(2) have "two_ended (sp' ! i)"
    using reversible_swap(2) [OF r] assms(5) by (simp add: two_ended_def lookup_def face_eq)
  ultimately show ?thesis by auto
qed

section \<open>Properties\<close>

text \<open>
  C13. Mirroring is undone by mirroring: when an inner address is given, the far end's tree mirrored again,
  with the near end's inner address, is the tree one began with, positions included. The tree may be
  nested, have \<open>*\<close> for ends and lengths on them; it must have its addresses as strings, no length across
  from a \<open>*\<close>, and one end on the layer that carries the inner address, which must be the same layer
  when the ends are exchanged.
\<close>

theorem mirror_is_undone:
  assumes "node_ok root" and "from_form root = Inr sp" and "list_all reversible sp" and "inner_stays sp"
    and "peer q root inner = Inr res" and "inner \<noteq> []"
  shows "\<exists>res'. peer q (m_tree res) (near_inner sp) = Inr res' \<and> m_tree res' = root"
proof -
  from assms(1,2) have ok: "list_all node_ok sp"
    using chain_node_ok by (cases root) (auto simp: from_form_Inr)
  from peer_layers [OF assms(5,2)] obtain sp' where sp': "from_form (m_tree res) = Inr sp'"
    "map face sp' = with_inner inner (map swapped sp)" "npos (m_tree res) = npos root" by blast
  have "check_inner inner = Inr ()" using assms(5) by (simp add: peer_def bindR_eq_Inr)
  from mirrored_twice [OF assms(3) ok assms(6) this assms(4) sp'(2)]
  have undone: "with_inner (near_inner sp) (map swapped sp') = map face sp" .
  have "check_inner (near_inner sp) = Inr ()"
  proof (cases "innermost_addressed sp")
    case None
    then show ?thesis by (simp add: near_inner_def check_inner_def)
  next
    case (Some k)
    from inner_layer [OF Some assms(4)] show ?thesis by blast
  qed
  moreover from peer_two_ended [OF assms(5,2)] two_ended_stays [OF assms(3) ok sp'(2) _ _ assms(4)]
  have "\<exists>m \<in> set sp'. two_ended m" by blast
  ultimately obtain res' where res': "peer q (m_tree res) (near_inner sp) = Inr res'"
    using peer_succeeds [OF sp'(1)] by blast
  from peer_layers [OF res' sp'(1)] obtain sp'' where
    "from_form (m_tree res') = Inr sp''" "map face sp'' = map face sp" "npos (m_tree res') = npos root"
    unfolding undone sp'(3) by blast
  with forms_equal [OF _ assms(2)] res' show ?thesis by blast
qed

text \<open>
  C14. The mirror turns a point-to-point tunnel around: when the ends of an IPIP, GRE or GRETAP tunnel are
  addresses without a length, the near and the far end lower to the same \<open>ip link add\<close> with the \<open>local\<close>
  and the \<open>remote\<close> address exchanged, with the same type and the same key; only the name of the
  device is each machine's own.
\<close>

theorem mirror_turns_tunnel_around:
  assumes "peer q root inner = Inr res" and "from_form root = Inr sp" and "from_form (m_tree res) = Inr sp'"
    and "t \<in> {IPIP, GRE, GRETAP}" and "t_lower t = Some lower"
    and "names (take (length (t_pattern t)) sp) = t_pattern t"
    and "list_all (\<lambda>p. p_key p \<in> {''src'', ''dst''} \<longrightarrow> CHR ''/'' \<notin> set (vtext (p_val p))) (nprops (sp ! 0))"
    and "lower (take (length (t_pattern t)) sp) e = (Inr near, e')"
    and "lower (take (length (t_pattern t)) sp') f = (Inr far, f')"
  shows "\<exists>dev dev' l r opts. argv (hd near) = tunnel_argv (tunnel_type t) dev l r opts
    \<and> argv (hd far) = tunnel_argv (tunnel_type t) dev' r l opts"
proof -
  from peer_spine [OF assms(1,2)] assms(3) have sk: "map skeleton sp' = map skeleton sp" by simp
  then have names: "names sp' = names sp" by (rule names_skeleton)
  then have n': "names (take (length (t_pattern t)) sp') = t_pattern t"
    using assms(6) by (simp add: names_def flip: take_map)
  from point_to_point_Inr [OF assms(4,5,6,8)] obtain dev l r opts where
    near: "argv (hd near) = tunnel_argv (tunnel_type t) dev l r opts" "endpoints (sp ! 0) = Inr (l, r)"
      "tunnel_opts t (sp ! 1) opts" and len: "1 < length sp" by blast
  from point_to_point_Inr [OF assms(4,5) n' assms(9)] obtain dev' l' r' opts' where
    far: "argv (hd far) = tunnel_argv (tunnel_type t) dev' l' r' opts'" "endpoints (sp' ! 0) = Inr (l', r')"
      "tunnel_opts t (sp' ! 1) opts'" by blast
  have "get_prop (sp' ! 1) Key = get_prop (sp ! 1) Key"
    using len sk by (intro get_prop_skeleton) (metis length_map nth_map, simp_all add: Key_def)
  with near(3) far(3) have opts: "opts' = opts" by (auto simp: tunnel_opts_def split: if_splits)
  note turned = swapped_endpoints [OF near(2) assms(7)]
  from peer_layers [OF assms(1,2)] assms(3) have "map face sp' = with_inner inner (map swapped sp)" by auto
  moreover have "innermost_addressed (map swapped sp) \<noteq> Some 0"
    using innermost_Some [of "map swapped sp" 0] turned(2) by (cases sp) auto
  moreover have pos: "0 < length sp" using len by linarith
  ultimately have "map face sp' ! 0 = face (swapped (sp ! 0))"
    by (auto simp: with_inner_def split: option.split)
  moreover have "0 < length sp'" using pos arg_cong [OF sk, of length] by simp
  ultimately have "endpoints (sp' ! 0) = Inr (r, l)"
    using endpoints_face [of "sp' ! 0" "swapped (sp ! 0)"] turned(1) by simp
  with far(2) have "l' = r" "r' = l" by simp_all
  with near(1) far(1) show ?thesis unfolding opts by blast
qed

theorem mirror_is_undone_witness:
  "\<exists>res res'. peer (\<lambda>_. False) gre_tree ''10.1.0.2/30'' = Inr res
     \<and> peer (\<lambda>_. False) (m_tree res) ''10.1.0.1/30'' = Inr res' \<and> m_tree res' = gre_tree"
proof -
  have "case peer (\<lambda>_. False) gre_tree ''10.1.0.2/30'' of Inr _ \<Rightarrow> True | Inl _ \<Rightarrow> False" by code_simp
  then obtain res where res: "peer (\<lambda>_. False) gre_tree ''10.1.0.2/30'' = Inr res"
    by (auto split: sum.splits)
  have "case from_form gre_tree of Inr sp \<Rightarrow> list_all reversible sp \<and> inner_stays sp \<and> near_inner sp = ''10.1.0.1/30''
      | Inl _ \<Rightarrow> False" by code_simp
  then obtain sp where sp: "from_form gre_tree = Inr sp" "list_all reversible sp" "inner_stays sp"
    "near_inner sp = ''10.1.0.1/30''"
    by (auto split: sum.splits)
  have "node_ok gre_tree" by code_simp
  from mirror_is_undone [OF this sp(1,2,3) res] res show ?thesis unfolding sp(4) by auto
qed

theorem mirror_turns_tunnel_around_witness:
  "\<exists>res near far e' f' dev dev' opts. peer (\<lambda>_. False) gre_tree ''10.1.0.2/30'' = Inr res
     \<and> lower_gre (layers_of gre_tree) (new_env ''eth0'') = (Inr near, e')
     \<and> lower_gre (layers_of (m_tree res)) (new_env ''eth1'') = (Inr far, f')
     \<and> argv (hd near) = tunnel_argv ''gre'' dev ''10.0.0.1'' ''10.0.0.2'' opts
     \<and> argv (hd far) = tunnel_argv ''gre'' dev' ''10.0.0.2'' ''10.0.0.1'' opts"
proof -
  have "case peer (\<lambda>_. False) gre_tree ''10.1.0.2/30'' of Inl _ \<Rightarrow> False
      | Inr res \<Rightarrow> (case (from_form (m_tree res), lower_gre (layers_of (m_tree res)) (new_env ''eth1'')) of
          (Inr sp', Inr far, f') \<Rightarrow> length sp' = 3 | _ \<Rightarrow> False)" by code_simp
  then obtain res sp' far f' where res: "peer (\<lambda>_. False) gre_tree ''10.1.0.2/30'' = Inr res"
    "from_form (m_tree res) = Inr sp'" "lower_gre (layers_of (m_tree res)) (new_env ''eth1'') = (Inr far, f')"
    "length sp' = 3"
    by (auto split: sum.splits prod.splits)
  then have sp': "take 3 sp' = layers_of (m_tree res)" "layers_of (m_tree res) = sp'" by (simp_all add: layers_of_def)
  have "case from_form gre_tree of Inl _ \<Rightarrow> False | Inr sp \<Rightarrow> length sp = 3 \<and> names (take 3 sp) = t_pattern GRE
      \<and> list_all (\<lambda>p. p_key p \<in> {''src'', ''dst''} \<longrightarrow> CHR ''/'' \<notin> set (vtext (p_val p))) (nprops (sp ! 0))
      \<and> (case lower_gre sp (new_env ''eth0'') of (Inr near, _) \<Rightarrow>
           drop 7 (take 11 (argv (hd near))) = [''local'', ''10.0.0.1'', ''remote'', ''10.0.0.2''] | _ \<Rightarrow> False)"
    by code_simp
  then obtain sp near e' where sp: "from_form gre_tree = Inr sp" "length sp = 3" "names (take 3 sp) = t_pattern GRE"
    "list_all (\<lambda>p. p_key p \<in> {''src'', ''dst''} \<longrightarrow> CHR ''/'' \<notin> set (vtext (p_val p))) (nprops (sp ! 0))"
    "lower_gre sp (new_env ''eth0'') = (Inr near, e')"
    "drop 7 (take 11 (argv (hd near))) = [''local'', ''10.0.0.1'', ''remote'', ''10.0.0.2'']"
    by (auto split: sum.splits prod.splits)
  have t: "t_lower GRE = Some lower_gre" "length (t_pattern GRE) = 3" "GRE \<in> {IPIP, GRE, GRETAP}"
    "tunnel_type GRE = ''gre''" by (simp_all add: tile_defs tunnel_type_def)
  have lowered: "lower_gre (take 3 sp) (new_env ''eth0'') = (Inr near, e')"
    "lower_gre (take 3 sp') (new_env ''eth1'') = (Inr far, f')" using sp(2,5) res(3) sp' by simp_all
  from mirror_turns_tunnel_around [OF res(1) sp(1) res(2) t(3,1), unfolded t(2,4), OF sp(3,4) lowered]
  obtain dev dev' l r opts where turned: "argv (hd near) = tunnel_argv ''gre'' dev l r opts"
    "argv (hd far) = tunnel_argv ''gre'' dev' r l opts" by blast
  with sp(6) have "l = ''10.0.0.1''" "r = ''10.0.0.2''" by (auto simp: tunnel_argv_def)
  with turned res sp(1,5) show ?thesis by (auto simp: layers_of_def)
qed

end
