(* ===== verification/Wiring.thy ===== *)
theory Wiring
  imports Samples Tunnels
begin

text \<open>
  The two readings of one tree against each other (\<open>src/wire/wire.go\<close> and the tiles of
  \<open>src/tiles/linux\<close>): what is predicted for the underlay of a tunnel is a function of the commands
  that make its device, whenever there is a prediction at all. For a VXLAN tunnel there is one exactly
  when the outer addresses are bare, for a point-to-point tunnel always.
\<close>

section \<open>The ends\<close>

lemma addr_string_nonempty: "addr_string a \<noteq> []"
proof (cases a)
  case (V4 w)
  then show ?thesis by (simp add: addr_string_def v4_string_def v4_bytes_def Let_def)
next
  case (V6 w z)
  have "v4_string v \<noteq> []" for v by (simp add: v4_string_def v4_bytes_def Let_def)
  moreover have "v6_string w \<noteq> []"
  proof -
    have "v6_groups w \<noteq> []" by (simp add: v6_groups_def)
    then obtain g gs where "v6_groups w = g # gs" by (cases "v6_groups w") auto
    then show ?thesis
      by (cases gs) (auto simp: v6_string_def Let_def split: prod.split)
  qed
  ultimately show ?thesis using V6 by (simp add: addr_string_def)
qed

text \<open>An outer address as both readings see it: the prediction wants a bare one.\<close>

lemma endpoint_bare:
  assumes "read_endpoint n k = Inr ep" "\<not> ep_absent ep" "pd_key d = k" "pd_parse d = parse_addr_value"
  shows "(\<exists>v. get_prop n d = Inr v) \<longleftrightarrow> ep_prefix ep = []"
    and "get_prop n d = Inr v
      \<Longrightarrow> map_option addr_string (concrete v) = (if ep_dynamic ep then None else Some (ep_addr ep))"
proof -
  have "((\<exists>v. get_prop n d = Inr v) \<longleftrightarrow> ep_prefix ep = []) \<and> (get_prop n d = Inr v
      \<longrightarrow> map_option addr_string (concrete v) = (if ep_dynamic ep then None else Some (ep_addr ep)))"
  proof (cases "lookup n k")
    case None
    with assms show ?thesis by (auto simp: read_endpoint_def)
  next
    case (Some q)
    consider (star) "vkind (p_val q) = KStar"
      | (pfx) "vkind (p_val q) \<noteq> KStar" "contains (vtext (p_val q)) ''/''"
      | (addr) "vkind (p_val q) \<noteq> KStar" "\<not> contains (vtext (p_val q)) ''/''" by blast
    then show ?thesis
    proof cases
      case star
      with Some assms show ?thesis by (auto simp: read_endpoint_def get_prop_def)
    next
      case pfx
      with Some assms(1) obtain p where p: "parse_prefix_value (p_val q) = Inr p"
        "ep_prefix ep = prefix_string p"
        by (auto simp: read_endpoint_def bindR_eq_Inr wrap_err_eq_Inr)
      from p(1) have "parse_prefix (vtext (p_val q)) = Some p"
        by (auto simp: parse_prefix_value_def split: if_splits option.splits)
      from addr_not_prefix [OF this] have "\<not> (\<exists>a. parse_addr_value (p_val q) = Inr a)"
        by (auto simp: parse_addr_value_def)
      then have "\<not> (\<exists>w. get_prop n d = Inr w)"
        using Some pfx(1) assms(3,4) by (auto simp: get_prop_def wrap_err_eq_Inr split: sum.splits)
      with p(2) show ?thesis by auto
    next
      case addr
      with Some assms(1) obtain a where a: "parse_addr_value (p_val q) = Inr a"
        "ep = \<lparr>ep_addr = addr_string a, ep_prefix = [], ep_dynamic = False, ep_absent = False,
          ep_pos = vpos (p_val q)\<rparr>"
        by (auto simp: read_endpoint_def bindR_eq_Inr wrap_err_eq_Inr)
      have "get_prop n d = Inr (PConcrete a (vpos (p_val q)) k)"
        using Some addr(1) a(1) assms(3,4) by (simp add: get_prop_def)
      with a(2) show ?thesis by auto
    qed
  qed
  then show "(\<exists>v. get_prop n d = Inr v) \<longleftrightarrow> ep_prefix ep = []"
    and "get_prop n d = Inr v
      \<Longrightarrow> map_option addr_string (concrete v) = (if ep_dynamic ep then None else Some (ep_addr ep))"
    by auto
qed

text \<open>\<open>Expect\<close>, step by step.\<close>

definition optional :: "('a \<Rightarrow> fact) \<Rightarrow> 'a option \<Rightarrow> fact list" where
  "optional f x = (case x of None \<Rightarrow> [] | Some v \<Rightarrow> [f v])"

lemma optional_map: "optional f (map_option g x) = optional (\<lambda>v. f (g v)) x"
  by (cases x) (simp_all add: optional_def)

definition source_fact :: "string \<Rightarrow> fact" where
  "source_fact a = new_fact ''outer source'' a (a @ ''.'')"

definition udp_destination_fact :: "string \<Rightarrow> string \<Rightarrow> fact" where
  "udp_destination_fact p a = new_fact ''outer destination'' a (''> '' @ a @ ''.'' @ p)"

definition vni_fact :: "string \<Rightarrow> fact" where
  "vni_fact v = new_fact ''VXLAN VNI'' v (''vni '' @ v)"

text \<open>An outer IPv4 layer is read before what is under it.\<close>

lemma expect_ip:
  assumes "nname outer = ''ipv4''"
  shows "expect (outer # layer # rest) = bindR (get_prop outer Src) (\<lambda>s. bindR (get_prop outer Dst) (\<lambda>d.
      expect_under (outer # layer # rest) (optional source_fact (map_option addr_string (concrete s)))
        (case concrete d of None \<Rightarrow> [] | Some v \<Rightarrow> addr_string v)))"
proof -
  have src: "(case c of None \<Rightarrow> [] | Some v \<Rightarrow> [new_fact ''outer source'' (addr_string v) (addr_string v @ ''.'')])
      = optional source_fact (map_option addr_string c)" for c
    by (cases c) (simp_all add: optional_def source_fact_def)
  show ?thesis by (simp add: expect_def assms src Let_def)
qed

lemma num_text: "num (p :: 16 word) = u16 p" "num (v :: 32 word) = u32 v"
  by (simp_all add: num_def u16_def u32_def)

lemma expect_udp_stack:
  assumes "nname outer = ''ipv4''" "nname transport = ''udp''"
    and "get_prop transport DstPort = Inr (PConcrete port p k)" and "tunnel_facts tunnel = Inr inside"
  shows "expect (outer # transport # tunnel # rest) = Inr x \<longleftrightarrow> (\<exists>s d.
      get_prop outer Src = Inr s \<and> get_prop outer Dst = Inr d
      \<and> x = \<lparr>x_filter = ''udp port '' @ u16 port, x_facts =
          optional source_fact (map_option addr_string (concrete s))
          @ [new_fact ''UDP destination port'' (u16 port) (u16 port)]
          @ optional (udp_destination_fact (u16 port)) (map_option addr_string (concrete d)) @ inside\<rparr>)"
proof -
  have dst: "(let dst = (case c of None \<Rightarrow> [] | Some v \<Rightarrow> addr_string v)
      in if dst \<noteq> [] then [f dst] else []) = optional f (map_option addr_string c)" for c f
    using addr_string_nonempty by (cases c) (simp_all add: optional_def)
  have udp: "expect_under (outer # transport # tunnel # rest) facts dst = Inr \<lparr>x_filter = ''udp port '' @ u16 port,
      x_facts = facts @ new_fact ''UDP destination port'' (u16 port) (u16 port)
        # (if dst \<noteq> [] then [udp_destination_fact (u16 port) dst] else []) @ inside\<rparr>" for facts dst
    by (simp add: expect_under_def assms expect_udp_def Let_def num_text udp_destination_fact_def)
  have "expect (outer # transport # tunnel # rest)
      = bindR (get_prop outer Src) (\<lambda>s. bindR (get_prop outer Dst) (\<lambda>d.
      Inr \<lparr>x_filter = ''udp port '' @ u16 port, x_facts =
          optional source_fact (map_option addr_string (concrete s))
          @ [new_fact ''UDP destination port'' (u16 port) (u16 port)]
          @ optional (udp_destination_fact (u16 port)) (map_option addr_string (concrete d)) @ inside\<rparr>))"
    by (simp add: expect_ip [OF assms(1)] udp Let_def flip: dst)
  then show ?thesis by (auto simp: bindR_eq_Inr)
qed

lemma expect_vxlan:
  assumes "names (take 4 (outer # transport # tunnel # rest)) = t_pattern VXLAN"
    and "get_prop transport DstPort = Inr (PConcrete port p k)" and "get_prop tunnel VNI = Inr vni"
  shows "expect (outer # transport # tunnel # rest) = Inr x \<longleftrightarrow> (\<exists>s d.
      get_prop outer Src = Inr s \<and> get_prop outer Dst = Inr d
      \<and> x = \<lparr>x_filter = ''udp port '' @ u16 port, x_facts =
          optional source_fact (map_option addr_string (concrete s))
          @ [new_fact ''UDP destination port'' (u16 port) (u16 port)]
          @ optional (udp_destination_fact (u16 port)) (map_option addr_string (concrete d))
          @ [new_fact ''encapsulation'' ''VXLAN'' ''VXLAN'']
          @ optional vni_fact (map_option u32 (concrete vni))\<rparr>)"
proof -
  from assms(1) have n: "nname outer = ''ipv4''" "nname transport = ''udp''" "nname tunnel = ''vxlan''"
    by (auto simp: tile_defs names_eq_Cons)
  have under: "tunnel_facts tunnel = Inr ([new_fact ''encapsulation'' ''VXLAN'' ''VXLAN'']
      @ optional vni_fact (map_option u32 (concrete vni)))"
    by (simp add: tunnel_facts_def n assms(3) optional_map)
       (simp add: optional_def vni_fact_def num_text split: option.split)
  show ?thesis by (rule expect_udp_stack [OF n(1,2) assms(2) under])
qed

text \<open>Both ends of a point-to-point tunnel are concrete, so both are predicted.\<close>

lemma endpoints_Inr:
  assumes "endpoints outer = Inr (l, r)"
  obtains a p k b q j where "get_prop outer Src = Inr (PConcrete a p k)" "l = addr_string a"
    "get_prop outer Dst = Inr (PConcrete b q j)" "r = addr_string b"
  using assms by (auto simp: endpoints_def bindR_eq_Inr require_Inr concrete_iff split: if_splits)

lemma expect_point_to_point:
  assumes "nname outer = ''ipv4''" "nname layer = ''ipv4'' \<or> nname layer = ''gre''"
    and "endpoints outer = Inr (l, r)"
  shows "expect (outer # layer # rest) = Inr (if nname layer = ''ipv4''
      then \<lparr>x_filter = ''proto 4'', x_facts =
        [source_fact l, new_fact ''encapsulation'' ''IP-in-IP'' ''IP'', new_fact ''outer destination'' r (''> '' @ r)]\<rparr>
      else \<lparr>x_filter = ''proto gre'', x_facts =
        [source_fact l, new_fact ''encapsulation'' ''GRE'' ''GREv0'', new_fact ''outer destination'' r (''> '' @ r)]\<rparr>)"
proof -
  from assms(3) obtain a p k b q j where "get_prop outer Src = Inr (PConcrete a p k)" "l = addr_string a"
    "get_prop outer Dst = Inr (PConcrete b q j)" "r = addr_string b" by (rule endpoints_Inr)
  with assms(2) show ?thesis
    by (auto simp: expect_ip [OF assms(1)] expect_under_def optional_def destination_fact_def addr_string_nonempty)
qed

section \<open>Both readings\<close>

lemma both_readings:
  assumes "names (take 4 sp) = t_pattern VXLAN" and "lower_vxlan (take 4 sp) e = (Inr cmds, e')"
  obtains outer transport tunnel rest and f :: vxlan_facts and p k where "sp = outer # transport # tunnel # rest"
    "get_prop transport DstPort = Inr (PConcrete (vx_port f) p k)" "get_prop tunnel VNI = Inr (vx_vni f)"
    "read_endpoint outer ''src'' = Inr (vx_local f)" "\<not> ep_absent (vx_local f)"
    "read_endpoint outer ''dst'' = Inr (vx_remote f)" "\<not> ep_absent (vx_remote f)"
    "link_option cmds ''id'' = map_option u32 (concrete (vx_vni f))"
    "link_option cmds ''local''
      = (if ep_dynamic (vx_local f) then None else Some (ep_addr (vx_local f)))"
    "(case link_option cmds ''remote'' of None \<Rightarrow> link_option cmds ''group'' | r \<Rightarrow> r)
      = (if ep_dynamic (vx_remote f) then None else Some (ep_addr (vx_remote f)))"
    "link_option cmds ''dstport'' = Some (u16 (vx_port f))"
proof -
  from assms(1) obtain outer transport tunnel rest where sp: "sp = outer # transport # tunnel # rest"
    by (cases sp; cases "tl sp"; cases "tl (tl sp)") (auto simp: tile_defs numeral_eq_Suc)
  from assms(2) obtain f where
    *: "read_vxlan outer transport tunnel = Inr f"
    and m: "link_option cmds ''id'' = map_option u32 (concrete (vx_vni f))"
      "link_option cmds ''local''
        = (if ep_dynamic (vx_local f) then None else Some (ep_addr (vx_local f)))"
      "link_option cmds ''group'' = (if \<not> ep_dynamic (vx_remote f) \<and> ep_multicast (vx_remote f)
            then Some (ep_addr (vx_remote f)) else None)"
      "link_option cmds ''remote'' = (if \<not> ep_dynamic (vx_remote f) \<and> \<not> ep_multicast (vx_remote f)
            then Some (ep_addr (vx_remote f)) else None)"
      "link_option cmds ''dstport'' = Some (u16 (vx_port f))"
    by (rule vxlan_link) (simp add: sp numeral_eq_Suc layer_at_def)
  have dest: "(case link_option cmds ''remote'' of None \<Rightarrow> link_option cmds ''group'' | r \<Rightarrow> r)
      = (if ep_dynamic (vx_remote f) then None else Some (ep_addr (vx_remote f)))"
    by (simp add: m)
  from read_vxlan_Inr [OF *] obtain p k where
    "get_prop transport DstPort = Inr (PConcrete (vx_port f) p k)" "get_prop tunnel VNI = Inr (vx_vni f)"
    "read_endpoint outer ''src'' = Inr (vx_local f)" "\<not> ep_absent (vx_local f)"
    "read_endpoint outer ''dst'' = Inr (vx_remote f)" "\<not> ep_absent (vx_remote f)"
    by blast
  from sp this m(1,2) dest m(5) show thesis by (rule that)
qed

lemma src_dst_defs: "pd_key Src = ''src''" "pd_parse Src = parse_addr_value"
  "pd_key Dst = ''dst''" "pd_parse Dst = parse_addr_value"
  by (simp_all add: Src_def Dst_def)

section \<open>Properties\<close>

text \<open>
  C5. What \<open>pktc expect\<close> predicts is what the emitted device sends: for a VXLAN stack that lowers and
  has a prediction, the filter and every fact are read off the options of the \<open>ip link add\<close>: the
  port of the filter and of the destination is its \<open>dstport\<close>, the outer source its \<open>local\<close>, the
  outer destination its \<open>remote\<close> or \<open>group\<close>, the VNI its \<open>id\<close>, and an option the device does not
  have is not predicted.
\<close>

theorem wire_agrees_with_device:
  assumes "names (take 4 sp) = t_pattern VXLAN" and "lower_vxlan (take 4 sp) e = (Inr cmds, e')"
    and "expect sp = Inr x"
  shows "\<exists>p. link_option cmds ''dstport'' = Some p
    \<and> x = \<lparr>x_filter = ''udp port '' @ p, x_facts =
        optional source_fact (link_option cmds ''local'')
        @ [new_fact ''UDP destination port'' p p]
        @ optional (udp_destination_fact p)
            (case link_option cmds ''remote'' of None \<Rightarrow> link_option cmds ''group'' | r \<Rightarrow> r)
        @ [new_fact ''encapsulation'' ''VXLAN'' ''VXLAN'']
        @ optional vni_fact (link_option cmds ''id'')\<rparr>"
proof -
  from both_readings [OF assms(1,2)] obtain outer transport tunnel rest and f :: vxlan_facts and p k where
    sp: "sp = outer # transport # tunnel # rest"
    and port: "get_prop transport DstPort = Inr (PConcrete (vx_port f) p k)"
    and vni: "get_prop tunnel VNI = Inr (vx_vni f)"
    and s: "read_endpoint outer ''src'' = Inr (vx_local f)" "\<not> ep_absent (vx_local f)"
    and d: "read_endpoint outer ''dst'' = Inr (vx_remote f)" "\<not> ep_absent (vx_remote f)"
    and m: "link_option cmds ''id'' = map_option u32 (concrete (vx_vni f))"
      "link_option cmds ''local''
        = (if ep_dynamic (vx_local f) then None else Some (ep_addr (vx_local f)))"
      "(case link_option cmds ''remote'' of None \<Rightarrow> link_option cmds ''group'' | r \<Rightarrow> r)
        = (if ep_dynamic (vx_remote f) then None else Some (ep_addr (vx_remote f)))"
      "link_option cmds ''dstport'' = Some (u16 (vx_port f))" .
  from assms(3) expect_vxlan [OF assms(1) [unfolded sp] port vni] obtain vs vd where
    v: "get_prop outer Src = Inr vs" "get_prop outer Dst = Inr vd"
    and x: "x = \<lparr>x_filter = ''udp port '' @ u16 (vx_port f), x_facts =
          optional source_fact (map_option addr_string (concrete vs))
          @ [new_fact ''UDP destination port'' (u16 (vx_port f)) (u16 (vx_port f))]
          @ optional (udp_destination_fact (u16 (vx_port f))) (map_option addr_string (concrete vd))
          @ [new_fact ''encapsulation'' ''VXLAN'' ''VXLAN'']
          @ optional vni_fact (map_option u32 (concrete (vx_vni f)))\<rparr>"
    unfolding sp by blast
  note ends = endpoint_bare(2) [OF s src_dst_defs(1,2) v(1)] endpoint_bare(2) [OF d src_dst_defs(3,4) v(2)]
  show ?thesis unfolding m(1-3) x ends using m(4) by blast
qed

theorem wire_agrees_with_device_witness:
  "\<exists>cmds e' x. lower_vxlan (take 4 (layers_of vxlan_tree)) (new_env ''eth0'') = (Inr cmds, e')
     \<and> expect (layers_of vxlan_tree) = Inr x \<and> x_filter x = ''udp port 4789''
     \<and> link_option cmds ''dstport'' = Some ''4789''"
proof -
  have n: "names (take 4 (layers_of vxlan_tree)) = t_pattern VXLAN" by code_simp
  have "case lower_vxlan (take 4 (layers_of vxlan_tree)) (new_env ''eth0'') of
      (Inr cmds, e') \<Rightarrow> link_option cmds ''dstport'' = Some ''4789'' | _ \<Rightarrow> False"
    by code_simp
  then obtain cmds e' where l: "lower_vxlan (take 4 (layers_of vxlan_tree)) (new_env ''eth0'') = (Inr cmds, e')"
    "link_option cmds ''dstport'' = Some ''4789''"
    by (auto split: prod.splits sum.splits)
  have "case expect (layers_of vxlan_tree) of Inr x \<Rightarrow> True | Inl _ \<Rightarrow> False" by code_simp
  then obtain x where x: "expect (layers_of vxlan_tree) = Inr x" by (auto split: sum.splits)
  from wire_agrees_with_device [OF n l(1) x] l x show ?thesis by auto
qed

text \<open>
  C25. A VXLAN tree that lowers need not have a prediction: \<open>expect\<close> refuses it exactly when one of its outer
  addresses carries a prefix length, which the lowering takes for an address to place on the
  device below.
\<close>

theorem expect_wants_bare_ends:
  assumes "names (take 4 sp) = t_pattern VXLAN" and "lower_vxlan (take 4 sp) e = (Inr cmds, e')"
  shows "\<exists>s d. read_endpoint (sp ! 0) ''src'' = Inr s \<and> read_endpoint (sp ! 0) ''dst'' = Inr d
    \<and> ((\<exists>x. expect sp = Inr x) \<longleftrightarrow> ep_prefix s = [] \<and> ep_prefix d = [])"
proof -
  from both_readings [OF assms] obtain outer transport tunnel rest and f :: vxlan_facts and p k where
    sp: "sp = outer # transport # tunnel # rest"
    and port: "get_prop transport DstPort = Inr (PConcrete (vx_port f) p k)"
    and vni: "get_prop tunnel VNI = Inr (vx_vni f)"
    and s: "read_endpoint outer ''src'' = Inr (vx_local f)" "\<not> ep_absent (vx_local f)"
    and d: "read_endpoint outer ''dst'' = Inr (vx_remote f)" "\<not> ep_absent (vx_remote f)"
    by metis
  have "(\<exists>x. expect sp = Inr x)
      \<longleftrightarrow> (\<exists>v. get_prop outer Src = Inr v) \<and> (\<exists>v. get_prop outer Dst = Inr v)"
    unfolding sp expect_vxlan [OF assms(1) [unfolded sp] port vni] by blast
  also have "\<dots> \<longleftrightarrow> ep_prefix (vx_local f) = [] \<and> ep_prefix (vx_remote f) = []"
    unfolding endpoint_bare(1) [OF s src_dst_defs(1,2)] endpoint_bare(1) [OF d src_dst_defs(3,4)] ..
  finally show ?thesis using s(1) d(1) by (auto simp: sp)
qed

theorem expect_wants_bare_ends_witness:
  "(\<exists>cmds e'. lower_vxlan (take 4 (layers_of (configure
        (vxlan_under ''10.0.0.1/24'' ''10.0.0.2'' KNumber ''100'' [])))) (new_env ''eth0'') = (Inr cmds, e'))
   \<and> \<not> (\<exists>x. expect (layers_of (configure (vxlan_under ''10.0.0.1/24'' ''10.0.0.2'' KNumber ''100'' []))) = Inr x)"
proof -
  let ?sp = "layers_of (configure (vxlan_under ''10.0.0.1/24'' ''10.0.0.2'' KNumber ''100'' []))"
  have n: "names (take 4 ?sp) = t_pattern VXLAN" by code_simp
  have "case lower_vxlan (take 4 ?sp) (new_env ''eth0'') of (Inr cmds, e') \<Rightarrow> True | _ \<Rightarrow> False"
    by code_simp
  then obtain cmds e' where l: "lower_vxlan (take 4 ?sp) (new_env ''eth0'') = (Inr cmds, e')"
    by (auto split: prod.splits sum.splits)
  have "case read_endpoint (?sp ! 0) ''src'' of Inr s \<Rightarrow> ep_prefix s \<noteq> [] | Inl _ \<Rightarrow> False" by code_simp
  with expect_wants_bare_ends [OF n l] l show ?thesis by auto
qed

text \<open>
  C27. A point-to-point tunnel always has a prediction, and it is about the device that is made: for an
  IPIP, GRE or GRETAP stack that lowers, \<open>pktc expect\<close> answers with the protocol of the tunnel, the
  outer source is the \<open>local\<close> and the outer destination the \<open>remote\<close> of the \<open>ip link add\<close>, and the
  key of a GRE tunnel is not predicted.
\<close>

theorem point_to_point_predicted:
  assumes "t \<in> {IPIP, GRE, GRETAP}" and "t_lower t = Some f"
    and "names (take (length (t_pattern t)) sp) = t_pattern t"
    and "f (take (length (t_pattern t)) sp) e = (Inr cmds, e')"
  shows "\<exists>dev l r opts. argv (hd cmds) = tunnel_argv (tunnel_type t) dev l r opts
    \<and> expect sp = Inr (if tunnel_type t = ''ipip''
      then \<lparr>x_filter = ''proto 4'', x_facts =
        [source_fact l, new_fact ''encapsulation'' ''IP-in-IP'' ''IP'', new_fact ''outer destination'' r (''> '' @ r)]\<rparr>
      else \<lparr>x_filter = ''proto gre'', x_facts =
        [source_fact l, new_fact ''encapsulation'' ''GRE'' ''GREv0'', new_fact ''outer destination'' r (''> '' @ r)]\<rparr>)"
proof -
  from point_to_point_Inr [OF assms] obtain dev l r opts where
    *: "argv (hd cmds) = tunnel_argv (tunnel_type t) dev l r opts" "endpoints (sp ! 0) = Inr (l, r)" by blast
  have "t_pattern t \<in> {[''ipv4'', ''ipv4''], [''ipv4'', ''gre'', ''ipv4''], [''ipv4'', ''gre'', ''ethernet'']}"
    using assms(1) by (auto simp: tile_defs)
  with assms(3) obtain outer layer rest where sp: "sp = outer # layer # rest" "nname outer = ''ipv4''"
    "nname layer = ''ipv4'' \<or> nname layer = ''gre''" "nname layer = ''ipv4'' \<longleftrightarrow> tunnel_type t = ''ipip''"
    by (cases sp; cases "tl sp") (auto simp: numeral_eq_Suc tunnel_type_def)
  have "endpoints outer = Inr (l, r)" using *(2) by (simp add: sp(1))
  note predicted = expect_point_to_point [OF sp(2,3) this, of rest, folded sp(1), unfolded sp(4)]
  from *(1) predicted show ?thesis by blast
qed

theorem point_to_point_predicted_witness:
  "\<exists>cmds e' dev l r opts x. lower_gre (take 3 (layers_of gre_tree)) (new_env ''eth0'') = (Inr cmds, e')
     \<and> argv (hd cmds) = tunnel_argv ''gre'' dev l r opts \<and> expect (layers_of gre_tree) = Inr x
     \<and> hd (x_facts x) = source_fact l"
proof -
  have n: "names (take (length (t_pattern GRE)) (layers_of gre_tree)) = t_pattern GRE" by code_simp
  have t: "t_lower GRE = Some lower_gre" "length (t_pattern GRE) = 3" "tunnel_type GRE = ''gre''"
    by (simp_all add: tile_defs tunnel_type_def)
  have "case lower_gre (take 3 (layers_of gre_tree)) (new_env ''eth0'') of (Inr cmds, e') \<Rightarrow> True | _ \<Rightarrow> False"
    by code_simp
  then obtain cmds e' where l: "lower_gre (take 3 (layers_of gre_tree)) (new_env ''eth0'') = (Inr cmds, e')"
    by (auto split: prod.splits sum.splits)
  from point_to_point_predicted [OF _ t(1) n, unfolded t(2,3), OF _ l] l show ?thesis by fastforce
qed

text \<open>
  C28. What is predicted for a WireGuard stack is what its peer command says: for a stack that lowers,
  and has a prediction, the predicted destination is the \<open>endpoint\<close> of the peer, address and port, and
  there is none exactly when the peer has no \<open>endpoint\<close>; the outer source is the tree's, which the
  commands do not use, and nothing of what is inside is predicted.
\<close>

theorem wireguard_predicted:
  assumes "names (take 4 sp) = t_pattern WireGuard" and "lower_wireguard (take 4 sp) e = (Inr cmds, e')"
    and "expect sp = Inr x"
  shows "\<exists>s p d. get_prop (sp ! 0) Src = Inr s
    \<and> map_of (link_options (drop 5 (argv (cmds ! 2)))) ''endpoint'' = map_option (\<lambda>a. join_host_port a p) d
    \<and> x = \<lparr>x_filter = ''udp port '' @ u16 p, x_facts =
        optional source_fact (map_option addr_string (concrete s))
        @ [new_fact ''UDP destination port'' (u16 p) (u16 p)]
        @ optional (udp_destination_fact (u16 p)) d
        @ [new_fact ''encapsulation'' ''WireGuard (opaque UDP)'' ''UDP'']\<rparr>"
proof -
  from assms(2,1) obtain outer transport tunnel inner and f :: wg_facts and dev e1 where
    take: "take 4 sp = [outer, transport, tunnel, inner]"
    and f: "read_wireguard outer transport tunnel inner = Inr f"
    and argvs: "map argv cmds =
        [[''ip'', ''link'', ''add'', ''name'', dev, ''type'', ''wireguard''],
         [''wg'', ''set'', dev, ''listen-port'', u16 (wg_port f), ''private-key'',
            e_keydir e @ ''/'' @ dev @ ''.key''],
         peer_argv f (e_keydir e) dev,
         [''ip'', ''addr'', ''add'', prefix_string (wg_overlay f), ''dev'', dev]]"
    by (rule lower_wireguard_Inr)
  from take obtain rest where sp: "sp = outer # transport # tunnel # rest"
    by (cases sp; cases "tl sp"; cases "tl (tl sp)") (auto simp: numeral_eq_Suc)
  from assms(1) have n: "nname outer = ''ipv4''" "nname transport = ''udp''" "nname tunnel = ''wireguard''"
    unfolding take by (simp_all add: tile_defs)
  from read_wireguard_Inr [OF f] obtain v where r: "read_endpoint outer ''dst'' = Inr (wg_endpoint f)"
    and v: "get_prop transport DstPort = Inr v"
      "wg_remote_port f = (case concrete v of Some q \<Rightarrow> q | None \<Rightarrow> wg_port f)" by blast
  have "argv (cmds ! 2) = peer_argv f (e_keydir e) dev"
  proof -
    have "length cmds = 4" using arg_cong [OF argvs, of length] by simp
    then have "argv (cmds ! 2) = map argv cmds ! 2" by simp
    then show ?thesis unfolding argvs by simp
  qed
  then have opt: "map_of (link_options (drop 5 (argv (cmds ! 2)))) ''endpoint''
      = (if ep_dynamic (wg_endpoint f) \<or> ep_absent (wg_endpoint f) then None
         else Some (join_host_port (ep_addr (wg_endpoint f)) (wg_remote_port f)))"
    by (simp add: peer_argv_def)
  have tun: "tunnel_facts tunnel = Inr [new_fact ''encapsulation'' ''WireGuard (opaque UDP)'' ''UDP'']"
    by (simp add: tunnel_facts_def n)
  have "\<exists>p j k. v = PConcrete p j k"
    using assms(3) v(1) n unfolding sp
    by (cases v) (auto simp: expect_ip expect_under_def expect_udp_def bindR_eq_Inr)
  then obtain p j k where p: "v = PConcrete p j k" by blast
  from assms(3) expect_udp_stack [OF n(1,2) v(1) [unfolded p] tun, of rest x] obtain s d where
    x: "get_prop outer Src = Inr s" "get_prop outer Dst = Inr d"
      "x = \<lparr>x_filter = ''udp port '' @ u16 p, x_facts =
          optional source_fact (map_option addr_string (concrete s))
          @ [new_fact ''UDP destination port'' (u16 p) (u16 p)]
          @ optional (udp_destination_fact (u16 p)) (map_option addr_string (concrete d))
          @ [new_fact ''encapsulation'' ''WireGuard (opaque UDP)'' ''UDP'']\<rparr>"
    unfolding sp by blast
  have "map_option addr_string (concrete d) = (if ep_dynamic (wg_endpoint f) \<or> ep_absent (wg_endpoint f) then None
      else Some (ep_addr (wg_endpoint f)))"
  proof (cases "ep_absent (wg_endpoint f)")
    case True
    with read_endpoint_absent [OF r] have "lookup outer ''dst'' = None" by simp
    then have "get_prop outer Dst = Inr (PAbsent (npos outer) ''dst'')" by (simp add: get_prop_def Dst_def)
    with x(2) True show ?thesis by (auto simp: concrete_def)
  next
    case False
    from endpoint_bare(2) [OF r False src_dst_defs(3,4) x(2)] False show ?thesis by simp
  qed
  with opt x v(2) p show ?thesis
    by (intro exI [of _ s] exI [of _ p] exI [of _ "map_option addr_string (concrete d)"]) (simp add: sp)
qed

theorem wireguard_predicted_witness:
  "\<exists>cmds e' x p d. lower_wireguard (take 4 (layers_of (wireguard_tree ''b''))) (new_env ''eth0'') = (Inr cmds, e')
     \<and> expect (layers_of (wireguard_tree ''b'')) = Inr x \<and> x_filter x = ''udp port '' @ u16 p
     \<and> map_of (link_options (drop 5 (argv (cmds ! 2)))) ''endpoint'' = map_option (\<lambda>a. join_host_port a p) d"
proof -
  let ?sp = "layers_of (wireguard_tree ''b'')"
  have n: "names (take 4 ?sp) = t_pattern WireGuard" by code_simp
  have "case lower_wireguard (take 4 ?sp) (new_env ''eth0'') of (Inr cmds, e') \<Rightarrow> True | _ \<Rightarrow> False"
    by code_simp
  then obtain cmds e' where l: "lower_wireguard (take 4 ?sp) (new_env ''eth0'') = (Inr cmds, e')"
    by (auto split: prod.splits sum.splits)
  have "case expect ?sp of Inr x \<Rightarrow> True | Inl _ \<Rightarrow> False" by code_simp
  then obtain x where x: "expect ?sp = Inr x" by (auto split: sum.splits)
  from wireguard_predicted [OF n l x] l x show ?thesis by fastforce
qed

end
