(* ===== verification/Nettest.thy ===== *)
theory Nettest
  imports Shell
begin

text \<open>
  The harness that runs generated scripts against a kernel (\<open>src/internal/nettest/nettest.go\<close>).

  The machine is a parameter: a \<open>host\<close> says what \<open>exec.Command(...).CombinedOutput\<close> does to a
  world of any type (the output, and the text of the error if there is one), which programs there
  are, who runs the test and under which process number. A test is a computation on a \<open>bench\<close>: the
  world, the log of what was executed with its success, and the clean-ups registered so far, last
  first. \<open>t.Skip\<close> and \<open>t.Fatal\<close> end a test early, as the two values of \<open>halt\<close>; the clean-ups run in
  any case. A capture is a process in the background: the host says whether it starts, how the world
  changes while the test sleeps, and what the process has written when it ends or is killed.
\<close>

section \<open>Text\<close>

text \<open>\<open>strings.Split(s, "\n")\<close>.\<close>

fun split_lines :: "string \<Rightarrow> string list" where
  "split_lines [] = [[]]"
| "split_lines (c # cs) =
     (if c = char_nl then [] # split_lines cs
      else case split_lines cs of [] \<Rightarrow> [[c]] | l # ls \<Rightarrow> (c # l) # ls)"

text \<open>The UTF-8 encodings of the code points that Unicode calls white space.\<close>

definition white_space :: "string list" where
  "white_space =
     map (\<lambda>c. [c]) [char_tab, char_nl, CHR 0x0B, CHR 0x0C, char_cr, CHR '' '']
     @ map (\<lambda>c. [CHR 0xC2, c]) [CHR 0x85, CHR 0xA0]
     @ [[CHR 0xE1, CHR 0x9A, CHR 0x80]]
     @ map (\<lambda>k. [CHR 0xE2, CHR 0x80, char_of (k + 0x80)]) ([0..<11] @ [0x28, 0x29, 0x2F])
     @ [[CHR 0xE2, CHR 0x81, CHR 0x9F], [CHR 0xE3, CHR 0x80, CHR 0x80]]"

text \<open>Taking pieces off the front of a text as long as one fits; empty pieces never do.\<close>

function strip :: "string list \<Rightarrow> string \<Rightarrow> string" where
  "strip ws s =
     (case find (\<lambda>w. w \<noteq> [] \<and> prefix w s) ws of
        None \<Rightarrow> s
      | Some w \<Rightarrow> strip ws (drop (length w) s))"
  by pat_completeness auto
termination
  by (relation "measure (\<lambda>(ws, s). length s)") (auto simp: find_Some_iff prefix_def)

declare strip.simps [simp del]

text \<open>\<open>strings.TrimSpace\<close>.\<close>

definition trim_space :: "string \<Rightarrow> string" where
  "trim_space s = rev (strip (map rev white_space) (rev (strip white_space s)))"

section \<open>The bench\<close>

record 'w host =
  h_exec :: "string list \<Rightarrow> 'w \<Rightarrow> (string \<times> string option) \<times> 'w"
  h_start :: "string list \<Rightarrow> 'w \<Rightarrow> string option \<times> 'w"
  h_sleep :: "nat \<Rightarrow> 'w \<Rightarrow> 'w"
  h_collect :: "string list \<Rightarrow> nat \<Rightarrow> 'w \<Rightarrow> string \<times> 'w"
  h_look :: "string \<Rightarrow> bool"
  h_euid :: nat
  h_pid :: nat

record 'w bench =
  b_world :: 'w
  b_log :: "(string list \<times> bool) list"
  b_cleanup :: "string list list"

datatype halt = Skip string | Fatal string

type_synonym ('w, 'a) testing = "('w bench, halt, 'a) est"

text \<open>\<open>exec.Command(...).CombinedOutput\<close> and \<open>t.Cleanup\<close>.\<close>

definition host_run :: "'w host \<Rightarrow> string list \<Rightarrow> ('w, string \<times> string option) testing" where
  "host_run h args b =
     (case h_exec h args (b_world b) of (r, w) \<Rightarrow>
        (Inr r, b\<lparr>b_world := w, b_log := b_log b @ [(args, snd r = None)]\<rparr>))"

definition cleanup :: "string list \<Rightarrow> ('w, unit) testing" where
  "cleanup args = modS (\<lambda>b. b\<lparr>b_cleanup := args # b_cleanup b\<rparr>)"

text \<open>A test of the \<open>testing\<close> package: the body, and then the clean-ups, the last one first.\<close>

fun run_cleanups :: "'w host \<Rightarrow> string list list \<Rightarrow> 'w bench \<Rightarrow> 'w bench" where
  "run_cleanups h [] b = b"
| "run_cleanups h (args # rest) b = run_cleanups h rest (snd (host_run h args b))"

definition run_test :: "'w host \<Rightarrow> ('w, 'a) testing \<Rightarrow> 'w \<Rightarrow> (halt + 'a) \<times> 'w bench" where
  "run_test h m w =
     (case m \<lparr>b_world = w, b_log = [], b_cleanup = []\<rparr> of (r, b) \<Rightarrow>
        (r, run_cleanups h (b_cleanup b) (b\<lparr>b_cleanup := []\<rparr>)))"

section \<open>Namespaces\<close>

definition require_netns :: "'w host \<Rightarrow> ('w, unit) testing" where
  "require_netns h =
     (if h_euid h \<noteq> 0 then failS (Skip ''netns tests need root (CAP_NET_ADMIN)'')
      else if \<not> h_look h ''ip'' then failS (Skip ''netns tests need iproute2'')
      else bindS (host_run h [''ip'', ''netns'', ''list'']) (\<lambda>(out, err).
        case err of
          Some er \<Rightarrow> failS (Skip (''namespaces unavailable: '' @ er @ '': '' @ out))
        | None \<Rightarrow> retS ()))"

text \<open>\<open>NS.Run\<close>, \<open>NS.MustRun\<close> and \<open>mustHost\<close>. An \<open>NS\<close> is its name.\<close>

definition run_in :: "'w host \<Rightarrow> string \<Rightarrow> string list \<Rightarrow> ('w, string \<times> string option) testing" where
  "run_in h ns args = host_run h ([''ip'', ''netns'', ''exec'', ns] @ args)"

definition or_fatal :: "string list \<Rightarrow> ('w, string \<times> string option) testing \<Rightarrow> ('w, string) testing" where
  "or_fatal args m =
     bindS m (\<lambda>(out, err).
       case err of
         Some er \<Rightarrow> failS (Fatal (join '' '' args @ '': '' @ er @ [char_nl] @ out))
       | None \<Rightarrow> retS out)"

definition must_run :: "'w host \<Rightarrow> string \<Rightarrow> string list \<Rightarrow> ('w, string) testing" where
  "must_run h ns args = or_fatal args (run_in h ns args)"

definition must_host :: "'w host \<Rightarrow> string list \<Rightarrow> ('w, unit) testing" where
  "must_host h args = bindS (or_fatal args (host_run h args)) (\<lambda>_. retS ())"

definition netns_add :: "string \<Rightarrow> string list" where
  "netns_add ns = [''ip'', ''netns'', ''add'', ns]"

definition netns_del :: "string \<Rightarrow> string list" where
  "netns_del ns = [''ip'', ''netns'', ''del'', ns]"

definition new_empty :: "'w host \<Rightarrow> string \<Rightarrow> ('w, string) testing" where
  "new_empty h name =
     (let full = ''pktc-'' @ name @ ''-'' @ itoa (h_pid h)
      in bindS (host_run h (netns_add full)) (\<lambda>(out, err).
           case err of
             Some er \<Rightarrow> failS (Skip (''cannot create namespace: '' @ er @ '': '' @ out))
           | None \<Rightarrow> bindS (cleanup (netns_del full)) (\<lambda>_. retS full)))"

definition new_ns :: "'w host \<Rightarrow> string \<Rightarrow> string \<Rightarrow> ('w, string) testing" where
  "new_ns h name local =
     bindS (require_netns h) (\<lambda>_.
     bindS (new_empty h name) (\<lambda>ns.
     bindS (must_run h ns [''ip'', ''link'', ''add'', ''veth0'', ''type'', ''veth'', ''peer'', ''name'', ''veth1''])
       (\<lambda>_.
     bindS (must_run h ns [''ip'', ''addr'', ''add'', local @ ''/24'', ''dev'', ''veth0'']) (\<lambda>_.
     bindS (must_run h ns [''ip'', ''link'', ''set'', ''veth0'', ''up'']) (\<lambda>_.
       retS ns)))))"

definition veth_add :: "string \<Rightarrow> string \<Rightarrow> string list" where
  "veth_add ta tb = [''ip'', ''link'', ''add'', ta, ''type'', ''veth'', ''peer'', ''name'', tb]"

text \<open>The body of the loop of \<open>NewPair\<close>.\<close>

definition set_up_end :: "'w host \<Rightarrow> string \<Rightarrow> string \<Rightarrow> string \<Rightarrow> ('w, unit) testing" where
  "set_up_end h ns end_name addr =
     bindS (must_run h ns [''ip'', ''link'', ''set'', end_name, ''name'', ''wire0'']) (\<lambda>_.
     bindS (must_run h ns [''ip'', ''addr'', ''add'', addr @ ''/24'', ''dev'', ''wire0'']) (\<lambda>_.
     bindS (must_run h ns [''ip'', ''link'', ''set'', ''wire0'', ''up'']) (\<lambda>_.
     bindS (must_run h ns [''ip'', ''link'', ''set'', ''lo'', ''up'']) (\<lambda>_.
       retS ()))))"

definition new_pair :: "'w host \<Rightarrow> string \<Rightarrow> string \<Rightarrow> string \<Rightarrow> ('w, string \<times> string) testing" where
  "new_pair h name a_addr b_addr =
     bindS (require_netns h) (\<lambda>_.
     bindS (new_empty h (name @ ''a'')) (\<lambda>a.
     bindS (new_empty h (name @ ''b'')) (\<lambda>b.
     let ta = ''pktc-ta-'' @ itoa (h_pid h); tb = ''pktc-tb-'' @ itoa (h_pid h)
     in bindS (host_run h (veth_add ta tb)) (\<lambda>(out, err).
        case err of
          Some er \<Rightarrow> failS (Skip (''cannot create a veth pair: '' @ er @ '': '' @ out))
        | None \<Rightarrow>
            bindS (cleanup [''ip'', ''link'', ''del'', ta]) (\<lambda>_.
            bindS (must_host h [''ip'', ''link'', ''set'', ta, ''netns'', a]) (\<lambda>_.
            bindS (must_host h [''ip'', ''link'', ''set'', tb, ''netns'', b]) (\<lambda>_.
            bindS (set_up_end h a ta a_addr) (\<lambda>_.
            bindS (set_up_end h b tb b_addr) (\<lambda>_.
              retS (a, b))))))))))"

section \<open>Scripts and devices\<close>

text \<open>\<open>NS.RunScript\<close>: the error it returns is a value, here its text.\<close>

fun run_lines :: "'w host \<Rightarrow> string \<Rightarrow> string list \<Rightarrow> ('w, string option) testing" where
  "run_lines h ns [] = retS None"
| "run_lines h ns (raw # rest) =
     (let ln = trim_space raw
      in if ln = [] \<or> prefix ''#'' ln then run_lines h ns rest
         else bindS (run_in h ns [''sh'', ''-c'', ln]) (\<lambda>(out, err).
           case err of
             Some er \<Rightarrow> retS (Some (ln @ '': '' @ er @ [char_nl] @ trim_space out))
           | None \<Rightarrow> run_lines h ns rest))"

definition run_script :: "'w host \<Rightarrow> string \<Rightarrow> string \<Rightarrow> ('w, string option) testing" where
  "run_script h ns script = run_lines h ns (split_lines (trim_space script))"

definition show_device :: "'w host \<Rightarrow> string \<Rightarrow> string \<Rightarrow> ('w, string \<times> string option) testing" where
  "show_device h ns dev = run_in h ns [''ip'', ''-details'', ''link'', ''show'', dev]"

definition supports_type :: "'w host \<Rightarrow> string \<Rightarrow> string \<Rightarrow> ('w, bool) testing" where
  "supports_type h ns knd =
     bindS (run_in h ns [''ip'', ''link'', ''add'', ''name'', ''pktc-probe0'', ''type'', knd]) (\<lambda>(out, err).
       case err of
         Some _ \<Rightarrow> retS (\<not> contains out ''Unknown device type'' \<and> \<not> contains out ''not supported'')
       | None \<Rightarrow> bindS (run_in h ns [''ip'', ''link'', ''del'', ''pktc-probe0'']) (\<lambda>_. retS True))"

definition require_type :: "'w host \<Rightarrow> string \<Rightarrow> string \<Rightarrow> ('w, unit) testing" where
  "require_type h ns knd =
     bindS (supports_type h ns knd) (\<lambda>ok.
       if ok then retS () else failS (Skip (''kernel has no '' @ knd @ '' device support here'')))"

fun attr_line :: "string \<Rightarrow> string list \<Rightarrow> string option" where
  "attr_line knd [] = None"
| "attr_line knd (raw # rest) =
     (if prefix (knd @ '' '') (trim_space raw) then Some (trim_space raw) else attr_line knd rest)"

text \<open>\<open>NS.Attrs\<close>: the line, or the error.\<close>

definition attrs :: "'w host \<Rightarrow> string \<Rightarrow> string \<Rightarrow> string \<Rightarrow> ('w, string + string) testing" where
  "attrs h ns dev knd =
     bindS (show_device h ns dev) (\<lambda>(out, err).
       case err of
         Some er \<Rightarrow> retS (Inl (er @ [char_nl] @ out))
       | None \<Rightarrow>
           retS (case attr_line knd (split_lines out) of
               Some ln \<Rightarrow> Inr ln
             | None \<Rightarrow> Inl (''no '' @ knd @ '' attribute line for '' @ dev @ '' in:'' @ [char_nl] @ out)))"

definition send_script :: "string \<Rightarrow> nat \<Rightarrow> nat \<Rightarrow> string" where
  "send_script addr port rounds =
     ''for i in $(seq '' @ itoa rounds @ ''); do echo pktc > /dev/udp/'' @ addr @ ''/'' @ itoa port
     @ '' 2>/dev/null || true; sleep 0.2; done''"

definition send_udp :: "'w host \<Rightarrow> string \<Rightarrow> string \<Rightarrow> nat \<Rightarrow> nat \<Rightarrow> ('w, string option) testing" where
  "send_udp h ns addr port rounds =
     (if \<not> h_look h ''bash'' then failS (Skip ''traffic generation needs bash'')
      else bindS (run_in h ns [''bash'', ''-c'', send_script addr port rounds]) (\<lambda>(out, err).
        retS (case err of Some er \<Rightarrow> Some (er @ '': '' @ out) | None \<Rightarrow> None)))"

text \<open>
  \<open>NS.StartCapture\<close> and \<open>Capture.Wait\<close>; times are milliseconds, and a \<open>Capture\<close> is the command it
  started.
\<close>

definition start_capture ::
  "'w host \<Rightarrow> string \<Rightarrow> string \<Rightarrow> string \<Rightarrow> nat \<Rightarrow> ('w, string list) testing" where
  "start_capture h ns dev pattern n =
     (if \<not> h_look h ''tcpdump'' then failS (Skip ''wire verification needs tcpdump'')
      else let args = [''ip'', ''netns'', ''exec'', ns, ''tcpdump'', ''-i'', dev, ''-c'', itoa n, ''-nn'',
                       ''-l'', ''-U'', pattern]
           in bindS (\<lambda>b. case h_start h args (b_world b) of (err, w) \<Rightarrow>
                  (Inr err, b\<lparr>b_world := w, b_log := b_log b @ [(args, err = None)]\<rparr>)) (\<lambda>err.
              case err of
                Some er \<Rightarrow> failS (Skip (''cannot start tcpdump: '' @ er))
              | None \<Rightarrow>
                  bindS (modS (\<lambda>b. b\<lparr>b_world := h_sleep h 700 (b_world b)\<rparr>)) (\<lambda>_. retS args)))"

definition wait_capture :: "'w host \<Rightarrow> string list \<Rightarrow> nat \<Rightarrow> ('w, string) testing" where
  "wait_capture h args d b =
     (case h_collect h args d (b_world b) of (out, w) \<Rightarrow> (Inr out, b\<lparr>b_world := w\<rparr>))"

section \<open>Trimming and splitting\<close>

lemma split_lines_free: "char_nl \<notin> set u \<Longrightarrow> split_lines u = [u]"
  by (induction u) auto

lemma split_lines_append: "char_nl \<notin> set u \<Longrightarrow> split_lines (u @ char_nl # v) = u # split_lines v"
  by (induction u) auto

lemma split_lines_join:
  "ls \<noteq> [] \<Longrightarrow> list_all (\<lambda>l. char_nl \<notin> set l) ls \<Longrightarrow> split_lines (join [char_nl] ls) = ls"
  by (induction "[char_nl]" ls rule: join.induct) (simp_all add: split_lines_free split_lines_append)

lemma concat_lines:
  "ls \<noteq> [] \<Longrightarrow> concat (map (\<lambda>l. l @ [char_nl]) ls) = join [char_nl] ls @ [char_nl]"
  by (induction "[char_nl]" ls rule: join.induct) auto

definition visible :: "char \<Rightarrow> bool" where
  "visible c \<longleftrightarrow> 33 \<le> byte c \<and> byte c < 127"

lemma white_invisible: "list_all (\<lambda>w. w \<noteq> [] \<and> list_all (\<lambda>c. \<not> visible c) w) white_space"
  by code_simp

lemma white_newline: "list_all (\<lambda>w. last w = char_nl \<longrightarrow> w = [char_nl]) white_space"
  by code_simp

lemma newline_white: "[char_nl] \<in> set white_space"
  by (simp add: white_space_def)

lemma strip_Nil [simp]: "strip ws [] = []"
proof -
  have "find (\<lambda>w. w \<noteq> [] \<and> prefix w []) ws = None" by (auto simp: find_None_iff)
  then show ?thesis by (simp add: strip.simps [of ws "[]"])
qed

text \<open>A byte that is in no piece stays, with all that follows it.\<close>

lemma strip_keeps:
  assumes "\<forall>w \<in> set ws. c \<notin> set w"
  shows "\<exists>u'. strip ws (u @ c # v) = u' @ c # v"
proof (induction u rule: length_induct)
  case (1 u)
  show ?case
  proof (cases "find (\<lambda>w. w \<noteq> [] \<and> prefix w (u @ c # v)) ws")
    case None
    then show ?thesis by (simp add: strip.simps [of ws "u @ c # v"])
  next
    case (Some w)
    then have w: "w \<in> set ws" "w \<noteq> []" "prefix w (u @ c # v)" by (auto simp: find_Some_iff)
    have "length w \<le> length u"
    proof (rule ccontr)
      assume "\<not> length w \<le> length u"
      moreover from w(3) obtain z where "u @ c # v = w @ z" by (auto simp: prefix_def)
      ultimately have "w ! length u = c" "length u < length w"
        by (metis nth_append nth_append_length not_le)+
      with assms w(1) show False by auto
    qed
    then have "strip ws (u @ c # v) = strip ws (drop (length w) u @ c # v)"
      using Some by (simp add: strip.simps [of ws "u @ c # v"])
    moreover have "length (drop (length w) u) < length u" using w(2) \<open>length w \<le> length u\<close>
      by (cases w) auto
    ultimately show ?thesis using 1 by auto
  qed
qed

lemma visible_kept:
  assumes "visible c"
  shows "\<forall>w \<in> set white_space. c \<notin> set w" "\<forall>w \<in> set (map rev white_space). c \<notin> set w"
  using assms white_invisible by (auto simp: list_all_iff)

lemma strip_front:
  assumes "visible c" "ws = white_space \<or> ws = map rev white_space"
  shows "strip ws (c # v) = c # v"
proof -
  have "\<forall>w \<in> set ws. c \<notin> set w" using assms visible_kept by auto
  then have "find (\<lambda>w. w \<noteq> [] \<and> prefix w (c # v)) ws = None"
    by (fastforce simp: find_None_iff prefix_Cons)
  then show ?thesis by (simp add: strip.simps [of ws "c # v"])
qed

lemma trim_space_Nil [simp]: "trim_space [] = []"
  by (simp add: trim_space_def)

lemma trim_space_visible:
  assumes "s \<noteq> []" "visible (hd s)" "visible (last s)"
  shows "trim_space s = s"
proof -
  from assms(1,2) have "strip white_space s = s" using strip_front by (cases s) auto
  moreover from assms(1,3) have "strip (map rev white_space) (rev s) = rev s"
    using strip_front by (cases s rule: rev_cases) auto
  ultimately show ?thesis by (simp add: trim_space_def)
qed

lemma trim_space_newline:
  assumes "s \<noteq> []" "visible (hd s)" "visible (last s)"
  shows "trim_space (s @ [char_nl]) = s"
proof -
  let ?ws = "map rev white_space" and ?s = "char_nl # rev s"
  obtain w where w: "find (\<lambda>w. w \<noteq> [] \<and> prefix w ?s) ?ws = Some w"
    using newline_white by (cases "find (\<lambda>w. w \<noteq> [] \<and> prefix w ?s) ?ws")
      (fastforce simp: find_None_iff)+
  then have "w \<in> set ?ws" "w \<noteq> []" "prefix w ?s" by (auto simp: find_Some_iff)
  then have "rev w \<in> set white_space" "last (rev w) = char_nl" by (auto simp: prefix_Cons)
  with white_newline have "rev w = [char_nl]" by (auto simp: list_all_iff)
  then have "w = [char_nl]" by simp
  with w have "strip ?ws ?s = strip ?ws (rev s)" by (simp add: strip.simps [of ?ws ?s])
  also have "\<dots> = rev s" using strip_front assms(1,3) by (cases s rule: rev_cases) auto
  finally have "strip ?ws ?s = rev s" .
  moreover from assms(1,2) have "strip white_space (s @ [char_nl]) = s @ [char_nl]"
    using strip_front by (cases s) auto
  ultimately show ?thesis by (simp add: trim_space_def)
qed

lemma trim_space_comment: "prefix ''#'' (trim_space (CHR ''#'' # s))"
proof -
  have v: "visible (CHR ''#'')" by code_simp
  from strip_keeps [OF visible_kept(2) [OF v], of "rev s" "[]"] strip_front [OF v]
  show ?thesis by (auto simp: trim_space_def)
qed

section \<open>The lines of a script\<close>

text \<open>What a run of a script is meant to be: its commands, one by one, up to the first failure.\<close>

fun exec_all :: "'w host \<Rightarrow> string \<Rightarrow> script \<Rightarrow> ('w, string option) testing" where
  "exec_all h ns [] = retS None"
| "exec_all h ns (c # cs) =
     bindS (run_in h ns [''sh'', ''-c'', command_text c]) (\<lambda>(out, err).
       case err of
         Some er \<Rightarrow> retS (Some (command_text c @ '': '' @ er @ [char_nl] @ trim_space out))
       | None \<Rightarrow> exec_all h ns cs)"

definition one_line :: "command \<Rightarrow> bool" where
  "one_line c \<longleftrightarrow> char_nl \<notin> set (why c) \<and> list_all (\<lambda>a. char_nl \<notin> set a) (argv c)"

definition tool_call :: "command \<Rightarrow> bool" where
  "tool_call c \<longleftrightarrow> argv c \<noteq> [] \<and> hd (argv c) \<in> {''ip'', ''wg''}"

lemma quote_arg_last: "quote_arg a \<noteq> [] \<and> visible (last (quote_arg a))"
proof (cases "safe a")
  case True
  then have "a \<noteq> []" "safe_char (last a)" by (auto simp: safe_def list_all_iff)
  with True show ?thesis
    by (auto simp: quote_arg_def safe_char_def visible_def is_lower_def is_upper_def is_digit_def byte_def)
next
  case False
  then show ?thesis by (simp add: quote_arg_def visible_def byte_def)
qed

lemma quote_arg_newline: "char_nl \<notin> set a \<Longrightarrow> char_nl \<notin> set (quote_arg a)"
  by (auto simp: quote_arg_def replace_byte_def quoted_squote_def)

lemma join_set: "set (join sep xs) \<subseteq> set sep \<union> (\<Union>x \<in> set xs. set x)"
  by (induction sep xs rule: join.induct) auto

lemma join_last: "xs \<noteq> [] \<Longrightarrow> last xs \<noteq> [] \<Longrightarrow> join sep xs \<noteq> [] \<and> last (join sep xs) = last (last xs)"
  by (induction sep xs rule: join.induct) auto

lemma join_hd: "xs \<noteq> [] \<Longrightarrow> hd xs \<noteq> [] \<Longrightarrow> join sep xs \<noteq> [] \<and> hd (join sep xs) = hd (hd xs)"
  by (induction sep xs rule: join.induct) auto

text \<open>The line of a command begins and ends with a visible byte, so trimming leaves it alone.\<close>

lemma command_line:
  assumes "tool_call c"
  shows "command_text c \<noteq> []" "hd (command_text c) \<in> {CHR ''i'', CHR ''w''}"
    "visible (hd (command_text c))" "visible (last (command_text c))"
    "trim_space (command_text c) = command_text c" "\<not> prefix ''#'' (command_text c)"
proof -
  from assms obtain a as where a: "argv c = a # as" "a \<in> {''ip'', ''wg''}"
    by (cases "argv c") (auto simp: tool_call_def)
  have "quote_arg ''ip'' = ''ip''" "quote_arg ''wg'' = ''wg''" by code_simp+
  with a have q: "hd (map quote_arg (argv c)) = a" by auto
  from join_hd [of "map quote_arg (argv c)" "'' ''"] a q
  show ne: "command_text c \<noteq> []" and hd: "hd (command_text c) \<in> {CHR ''i'', CHR ''w''}"
    by (auto simp: command_text_def)
  from hd show v: "visible (hd (command_text c))" by (auto simp: visible_def byte_def)
  from join_last [of "map quote_arg (argv c)" "'' ''"] a quote_arg_last
  show l: "visible (last (command_text c))" by (simp add: command_text_def last_map)
  from trim_space_visible [OF ne v l] show "trim_space (command_text c) = command_text c" .
  from ne hd show "\<not> prefix ''#'' (command_text c)" by (cases "command_text c") auto
qed

lemma command_text_newline:
  assumes "one_line c"
  shows "char_nl \<notin> set (command_text c)"
  using assms join_set [of "'' ''" "map quote_arg (argv c)"] quote_arg_newline
  by (fastforce simp: command_text_def one_line_def list_all_iff)

text \<open>The lines of \<open>Script.Shell\<close>: the reasons and the blank lines are skipped by the harness.\<close>

fun shell_lines :: "nat \<Rightarrow> script \<Rightarrow> string list" where
  "shell_lines i [] = []"
| "shell_lines i (c # cs) =
     (if i > 0 then [[]] else []) @ (if why c \<noteq> [] then [''# '' @ why c] else [])
     @ [command_text c] @ shell_lines (Suc i) cs"

lemma shell_from_lines: "shell_from i s = concat (map (\<lambda>l. l @ [char_nl]) (shell_lines i s))"
  by (induction s arbitrary: i) (auto simp: shell_entry_def)

lemma shell_lines_free:
  "list_all one_line s \<Longrightarrow> list_all (\<lambda>l. char_nl \<notin> set l) (shell_lines i s)"
  by (induction s arbitrary: i) (auto simp: command_text_newline one_line_def)

lemma run_shell_lines:
  "list_all tool_call s \<Longrightarrow> run_lines h ns (shell_lines i s) = exec_all h ns s"
proof (induction s arbitrary: i)
  case (Cons c cs)
  then have t: "tool_call c" by simp
  have "run_lines h ns (command_text c # shell_lines j cs) = exec_all h ns (c # cs)" for j
    using Cons by (simp add: command_line [OF t] Let_def)
  moreover have "run_lines h ns ((''# '' @ why c) # x) = run_lines h ns x" for x
    using trim_space_comment [of "CHR '' '' # why c"] by (simp add: Let_def)
  moreover have "run_lines h ns ([] # x) = run_lines h ns x" for x by simp
  ultimately show ?case by (simp del: exec_all.simps run_lines.simps)
qed simp

lemma run_command_lines:
  "list_all tool_call s \<Longrightarrow> run_lines h ns (map command_text s) = exec_all h ns s"
  by (induction s) (simp_all add: command_line Let_def)

lemma shell_lines_ends:
  assumes "s \<noteq> []" "list_all tool_call s"
  shows "shell_lines 0 s \<noteq> []" "hd (shell_lines 0 s) \<noteq> []" "visible (hd (hd (shell_lines 0 s)))"
    "last (shell_lines 0 s) = command_text (last s)"
proof -
  from assms obtain c cs where s: "s = c # cs" "tool_call c" by (cases s) auto
  then show "shell_lines 0 s \<noteq> []" "hd (shell_lines 0 s) \<noteq> []"
    using command_line [OF s(2)] by auto
  show "visible (hd (hd (shell_lines 0 s)))"
    using s command_line [OF s(2)] by (auto simp: visible_def byte_def)
  have "t \<noteq> [] \<Longrightarrow> last (shell_lines i t) = command_text (last t)" for i t
  proof (induction t arbitrary: i)
    case (Cons d ds)
    then show ?case by (cases ds) (auto simp: last_append)
  qed simp
  with assms(1) show "last (shell_lines 0 s) = command_text (last s)" by simp
qed

lemma script_runs:
  assumes "list_all tool_call s" "list_all one_line s"
  shows "run_script h ns (shell_text s) = exec_all h ns s"
    "run_script h ns (plain_text s) = exec_all h ns s"
proof -
  consider "s = []" | "s \<noteq> []" by blast
  then have "run_script h ns (shell_text s) = exec_all h ns s
    \<and> run_script h ns (plain_text s) = exec_all h ns s"
  proof cases
    case 1
    then show ?thesis by (simp add: run_script_def shell_text_def plain_text_def)
  next
    case 2
    let ?ls = "shell_lines 0 s" and ?ps = "map command_text s"
    note e = shell_lines_ends [OF 2 assms(1)]
    have c: "tool_call (last s)" "tool_call (hd s)" using 2 assms(1) by (auto simp: list_all_iff)
    have "trim_space (join [char_nl] ?ls @ [char_nl]) = join [char_nl] ?ls"
      using join_hd [OF e(1,2), of "[char_nl]"] join_last [OF e(1), of "[char_nl]"] e(3,4)
        command_line [OF c(1)] by (intro trim_space_newline) auto
    then have "run_script h ns (shell_text s) = run_lines h ns ?ls"
      by (simp add: run_script_def shell_text_def shell_from_lines concat_lines [OF e(1)]
          split_lines_join [OF e(1)] shell_lines_free [OF assms(2)])
    moreover have "trim_space (join [char_nl] ?ps) = join [char_nl] ?ps"
      using join_hd [of ?ps "[char_nl]"] join_last [of ?ps "[char_nl]"] 2
        command_line [OF c(1)] command_line [OF c(2)]
      by (intro trim_space_visible) (simp_all add: hd_map last_map)
    moreover have "split_lines (join [char_nl] ?ps) = ?ps"
      using 2 assms(2) by (intro split_lines_join) (auto simp: list_all_iff command_text_newline)
    ultimately show ?thesis
      by (simp add: run_script_def plain_text_def run_shell_lines [OF assms(1)]
          run_command_lines [OF assms(1)])
  qed
  then show "run_script h ns (shell_text s) = exec_all h ns s"
    "run_script h ns (plain_text s) = exec_all h ns s" by simp_all
qed

text \<open>Everything \<open>Cover\<close> emits calls one of the two tools.\<close>

lemma tool_calls_argv: "list_all tool_call cs \<longleftrightarrow> list_all (\<lambda>a. a \<noteq> [] \<and> hd a \<in> {''ip'', ''wg''}) (map argv cs)"
  by (simp add: list.pred_map comp_def tool_call_def [abs_def])

lemma linux_tool_calls:
  assumes "t \<in> set (r_tiles linux)" "t_lower t = Some f" "names sub = t_pattern t"
    and "f sub e = (Inr cmds, e')"
  shows "list_all tool_call cmds"
proof -
  from assms(1,2) show ?thesis
  proof (cases rule: linux_tile_cases)
    case 1
    with assms(4) lower_ipip_Inr [of sub e cmds e'] show ?thesis
      by (auto simp: tool_calls_argv tunnel_argv_def)
  next
    case 2
    with assms(4) lower_gre_Inr [of sub e cmds e'] show ?thesis
      by (auto simp: tool_calls_argv tunnel_argv_def)
  next
    case 3
    with assms(4) lower_gretap_Inr [of sub e cmds e'] show ?thesis
      by (auto simp: tool_calls_argv tunnel_argv_def)
  next
    case 4
    with assms(4) have "lower_vxlan sub e = (Inr cmds, e')" by simp
    then show ?thesis
      by (auto simp: lower_vxlan_def est_simps tool_call_def new_command_def vxlan_argv_def link_add_def
          underlay_address_def)
  next
    case 5
    with assms(4) have "lower_vlan sub e = (Inr cmds, e')" by simp
    then show ?thesis by (auto simp: lower_vlan_def est_simps tool_call_def new_command_def split: if_splits)
  next
    case 6
    with assms(3,4) show ?thesis
      by (auto simp: tool_calls_argv peer_argv_def elim!: lower_wireguard_Inr)
  qed
qed

interpretation calls: lowering_invariant linux "\<lambda>_. True" "\<lambda>_. True" tool_call
  by unfold_locales
     (auto simp: linux_tool_calls tool_call_def address_command_def up_command_def new_command_def)

section \<open>Every namespace is deleted\<close>

definition registered :: "'w bench \<Rightarrow> bool" where
  "registered b \<longleftrightarrow> (\<forall>ns. (netns_add ns, True) \<in> set (b_log b) \<longleftrightarrow> netns_del ns \<in> set (b_cleanup b))
     \<and> (\<forall>ns args. args \<in> set (b_cleanup b) \<longrightarrow> args \<noteq> netns_add ns)"

definition tidy :: "('w, 'a) testing \<Rightarrow> bool" where
  "tidy m \<longleftrightarrow> (\<forall>b. registered b \<longrightarrow> registered (snd (m b)))"

named_theorems tidy_intros

lemma tidy_bind [tidy_intros]: "tidy m \<Longrightarrow> (\<And>a. tidy (f a)) \<Longrightarrow> tidy (bindS m f)"
  by (auto simp: tidy_def bindS_def split: prod.splits sum.splits; metis snd_conv)

lemma tidy_ret [tidy_intros]: "tidy (retS a)" and tidy_fail [tidy_intros]: "tidy (failS e)"
  by (simp_all add: tidy_def retS_def failS_def)

lemma tidy_host_run: "(\<And>ns. args \<noteq> netns_add ns) \<Longrightarrow> tidy (host_run h args)"
  by (auto simp: tidy_def host_run_def registered_def split: prod.splits)

lemma tidy_cleanup:
  "(\<And>ns. args \<noteq> netns_add ns) \<Longrightarrow> (\<And>ns. args \<noteq> netns_del ns) \<Longrightarrow> tidy (cleanup args)"
  by (auto simp: tidy_def cleanup_def modS_def registered_def)

lemma tidy_if [tidy_intros]: "tidy m \<Longrightarrow> tidy m' \<Longrightarrow> tidy (if c then m else m')"
  by simp

lemma tidy_option [tidy_intros]:
  "tidy m \<Longrightarrow> (\<And>x. tidy (f x)) \<Longrightarrow> tidy (case c of None \<Rightarrow> m | Some x \<Rightarrow> f x)"
  by (cases c) simp_all

lemma tidy_prod [tidy_intros]: "(\<And>x y. tidy (f x y)) \<Longrightarrow> tidy (case p of (x, y) \<Rightarrow> f x y)"
  by (cases p) simp

lemma tidy_run_in [tidy_intros]: "tidy (run_in h ns args)"
  unfolding run_in_def by (rule tidy_host_run) (simp add: netns_add_def)

lemma tidy_must [tidy_intros]:
  "tidy (must_run h ns args)" "(\<And>ns. args \<noteq> netns_add ns) \<Longrightarrow> tidy (must_host h args)"
  unfolding must_run_def must_host_def or_fatal_def
  by (intro tidy_intros tidy_host_run; simp)+

lemma tidy_require [tidy_intros]: "tidy (require_netns h)"
  unfolding require_netns_def by (intro tidy_intros tidy_host_run) (simp add: netns_add_def)

lemma tidy_new_empty [tidy_intros]: "tidy (new_empty h name)"
  by (auto simp: tidy_def new_empty_def Let_def bindS_def host_run_def cleanup_def modS_def retS_def
      failS_def registered_def netns_add_def netns_del_def split: prod.splits option.splits)

lemma tidy_new_ns [tidy_intros]: "tidy (new_ns h name local)"
  unfolding new_ns_def by (intro tidy_intros)

lemma tidy_new_pair [tidy_intros]: "tidy (new_pair h name x y)"
  unfolding new_pair_def set_up_end_def Let_def
  by (intro tidy_intros tidy_host_run tidy_cleanup) (simp_all add: veth_add_def netns_add_def netns_del_def)

lemma tidy_run_lines [tidy_intros]: "tidy (run_lines h ns ls)"
  by (induction ls) (auto simp: Let_def intro!: tidy_intros)

lemma tidy_harness [tidy_intros]:
  "tidy (run_script h ns s)" "tidy (show_device h ns dev)" "tidy (supports_type h ns knd)"
  "tidy (require_type h ns knd)" "tidy (attrs h ns dev knd)" "tidy (send_udp h ns addr port rounds)"
  unfolding run_script_def show_device_def supports_type_def require_type_def attrs_def send_udp_def
  by (intro tidy_intros)+

lemma tidy_capture [tidy_intros]: "tidy (start_capture h ns dev pattern n)" "tidy (wait_capture h args d)"
  by (auto simp: tidy_def start_capture_def wait_capture_def Let_def bindS_def modS_def retS_def
      failS_def registered_def netns_add_def split: prod.splits option.splits)

lemma run_cleanups_log:
  "\<exists>l. b_log (run_cleanups h args b) = b_log b @ l \<and> map fst l = args"
proof (induction args arbitrary: b)
  case (Cons a args)
  from Cons.IH [of "snd (host_run h a b)"] show ?case
    by (auto simp: host_run_def split: prod.splits)
qed simp

lemma tidy_test:
  assumes "tidy m"
  shows "\<exists>run end_log. b_log (snd (run_test h m w)) = run @ end_log
    \<and> (\<forall>ns. (netns_add ns, True) \<in> set run \<longleftrightarrow> netns_del ns \<in> fst ` set end_log)
    \<and> (\<forall>ns. netns_add ns \<notin> fst ` set end_log)"
proof -
  let ?b0 = "\<lparr>b_world = w, b_log = [], b_cleanup = []\<rparr>"
  obtain r b where m: "m ?b0 = (r, b)" by (cases "m ?b0")
  have "registered ?b0" by (simp add: registered_def)
  with assms m have reg: "registered b" unfolding tidy_def by (metis snd_conv)
  obtain l where l: "b_log (run_cleanups h (b_cleanup b) (b\<lparr>b_cleanup := []\<rparr>)) = b_log b @ l"
    "map fst l = b_cleanup b"
    using run_cleanups_log [of h "b_cleanup b" "b\<lparr>b_cleanup := []\<rparr>"] by auto
  have "fst ` set l = set (b_cleanup b)" using l(2) by (metis set_map)
  with reg l(1) show ?thesis
    by (intro exI [of _ "b_log b"] exI [of _ l]) (auto simp: run_test_def m registered_def)
qed

section \<open>Properties\<close>

text \<open>
  C26. The harness runs the script it is given: for every script \<open>Cover\<close> emits whose arguments and
  reasons hold no newline, \<open>RunScript\<close> on either rendering hands the command lines of the script to
  a shell, each one once and in order, and stops with the error of the first one that fails. The
  comments and blank lines of \<open>Shell\<close> change nothing, and no line is trimmed into another.
\<close>

theorem harness_runs_the_script:
  assumes "cover linux sp e = Some (Inr res, e')" and "list_all one_line (cr_script res)"
  shows "run_script h ns (shell_text (cr_script res)) = exec_all h ns (cr_script res)
    \<and> run_script h ns (plain_text (cr_script res)) = exec_all h ns (cr_script res)"
proof -
  have "list_all tool_call (cr_script res)"
    using calls.cover_keeps [OF assms(1)] by (simp add: list_all_iff)
  from script_runs [OF this assms(2)] show ?thesis by blast
qed

theorem harness_runs_the_script_witness:
  "\<exists>res e'. cover linux (layers_of gre_tree) (new_env ''eth0'') = Some (Inr res, e')
     \<and> length (cr_script res) = 3
     \<and> (\<forall>(h :: nat host) ns. run_script h ns (shell_text (cr_script res)) = exec_all h ns (cr_script res))"
proof -
  have "case cover linux (layers_of gre_tree) (new_env ''eth0'') of
      Some (Inr res, e') \<Rightarrow> length (cr_script res) = 3 \<and> list_all one_line (cr_script res) | _ \<Rightarrow> False"
    by code_simp
  then obtain res e' where r: "cover linux (layers_of gre_tree) (new_env ''eth0'') = Some (Inr res, e')"
    "length (cr_script res) = 3" "list_all one_line (cr_script res)"
    by (auto split: option.splits prod.splits sum.splits)
  from harness_runs_the_script [OF r(1,3)] r(1,2) show ?thesis by blast
qed

text \<open>
  C37. A test leaves no namespace behind. Whatever a test on a pair of namespaces does through the
  harness, and however it ends (skipped, failed or done), on whatever machine: its log is that of the
  run followed by that of the clean-ups, and the clean-ups delete exactly the namespaces that the
  run created.
\<close>

theorem tests_delete_namespaces:
  assumes "\<And>p. tidy (body p)"
  shows "\<exists>run end_log. b_log (snd (run_test h (bindS (new_pair h name x y) body) w)) = run @ end_log
    \<and> (\<forall>ns. (netns_add ns, True) \<in> set run \<longleftrightarrow> netns_del ns \<in> fst ` set end_log)
    \<and> (\<forall>ns. netns_add ns \<notin> fst ` set end_log)"
  using assms by (intro tidy_test tidy_intros)

theorem tests_delete_namespaces_witness:
  "\<exists>h. h_exec h [''ip''] (0 :: nat) = ((''out'', None), 1)
     \<and> (\<exists>run end_log. b_log (snd (run_test h (bindS (new_pair h ''t'' ''10.0.0.1'' ''10.0.0.2'')
            (\<lambda>(a, b). run_script h a ''ip link'')) 0)) = run @ end_log
          \<and> (\<forall>ns. (netns_add ns, True) \<in> set run \<longleftrightarrow> netns_del ns \<in> fst ` set end_log))"
proof -
  let ?h = "\<lparr>h_exec = \<lambda>_ n. ((''out'', None), Suc n), h_start = \<lambda>_ n. (None, n),
      h_sleep = \<lambda>_ n. n, h_collect = \<lambda>_ _ n. ([], n), h_look = \<lambda>_. True, h_euid = 0, h_pid = 7\<rparr>"
  let ?body = "\<lambda>(a, b). run_script ?h a ''ip link''"
  have "tidy (?body p)" for p by (intro tidy_intros)
  from tests_delete_namespaces [of ?body ?h "''t''" "''10.0.0.1''" "''10.0.0.2''" 0, OF this]
  show ?thesis by (intro exI [of _ ?h]) auto
qed

end
