(* ===== verification/Layout.thy ===== *)
theory Layout
  imports SexpPrint Tunnels Pktc
begin

text \<open>
  Positions are reported and never computed with. Every value, tree and error has a bare form, with
  all its positions forgotten, and every function between the reader and the output commutes with
  forgetting: what a command prints, and how it ends, depends on the bare forms of its input only,
  not on the layout of the file. One lemma per operation, in the order of the components.
\<close>

section \<open>Forgetting positions\<close>

fun bare_err :: "goerr \<Rightarrow> goerr" and bare_msg :: "msg \<Rightarrow> msg" where
  "bare_err (ErrPlain m) = ErrPlain (bare_msg m)"
| "bare_err (ErrAt p m) = ErrAt no_pos (bare_msg m)"
| "bare_err (Panic w) = Panic w"
| "bare_msg (PropMsg a b e) = PropMsg a b (bare_err e)"
| "bare_msg (WrapMsg e) = WrapMsg (bare_err e)"
| "bare_msg (PeerInnerMsg e) = PeerInnerMsg (bare_err e)"
| "bare_msg m = m"

definition bare_res :: "('a \<Rightarrow> 'b) \<Rightarrow> 'a res \<Rightarrow> 'b res" where
  "bare_res g m = map_sum bare_err g m"

definition bare_prop :: "property \<Rightarrow> property" where
  "bare_prop q = \<lparr>p_key = p_key q, p_val = bare (p_val q), p_pos = no_pos\<rparr>"

fun bare_node :: "node \<Rightarrow> node" where
  "bare_node (Node n ps cs p) = Node n (map bare_prop ps) (map bare_node cs) no_pos"

fun bare_pv :: "'a pvalue \<Rightarrow> 'a pvalue" where
  "bare_pv (PAbsent p k) = PAbsent no_pos k"
| "bare_pv (PDynamic p k) = PDynamic no_pos k"
| "bare_pv (PConcrete x p k) = PConcrete x no_pos k"

definition bare_ep :: "endpoint \<Rightarrow> endpoint" where
  "bare_ep e = e\<lparr>ep_pos := no_pos\<rparr>"

named_theorems bare_simps

lemma bare_res_simps [simp]:
  "bare_res g (Inl e) = Inl (bare_err e)" "bare_res g (Inr a) = Inr (g a)"
  by (simp_all add: bare_res_def)

lemma bare_sval [simp]:
  "vkind (bare v) = vkind v" "vtext (bare v) = vtext v" "vpos (bare v) = no_pos"
  "vitems (bare v) = map bare (vitems v)" "value_key (bare v) = value_key v" "texty (bare v) = texty v"
  by (cases v; simp add: value_key_def texty_def)+

lemma bare_prop_simps [simp]:
  "p_key (bare_prop q) = p_key q" "p_val (bare_prop q) = bare (p_val q)" "p_pos (bare_prop q) = no_pos"
  by (simp_all add: bare_prop_def)

lemma bare_prop_record [simp]:
  "bare_prop \<lparr>p_key = k, p_val = v, p_pos = p\<rparr> = \<lparr>p_key = k, p_val = bare v, p_pos = no_pos\<rparr>"
  by (simp add: bare_prop_def)

lemma bare_node_simps [simp]:
  "nname (bare_node n) = nname n" "nprops (bare_node n) = map bare_prop (nprops n)"
  "nchildren (bare_node n) = map bare_node (nchildren n)" "npos (bare_node n) = no_pos"
  by (cases n; simp)+

lemma bare_pv_simps [simp]:
  "concrete (bare_pv v) = concrete v" "is_dynamic (bare_pv v) = is_dynamic v"
  "is_absent (bare_pv v) = is_absent v" "value_pos (bare_pv v) = no_pos"
  by (cases v; simp add: concrete_def is_dynamic_def is_absent_def state_of_def value_pos_def)+

lemma bare_ep_simps [simp]:
  "ep_addr (bare_ep e) = ep_addr e" "ep_prefix (bare_ep e) = ep_prefix e"
  "ep_dynamic (bare_ep e) = ep_dynamic e" "ep_absent (bare_ep e) = ep_absent e"
  "ep_multicast (bare_ep e) = ep_multicast e" "underlay_address (bare_ep e) d = underlay_address e d"
  by (simp_all add: bare_ep_def ep_multicast_def underlay_address_def)

text \<open>Sequencing commutes when its parts do.\<close>

lemma bare_bindR:
  "(\<And>a. k' (g a) = bare_res h (k a)) \<Longrightarrow> bindR (bare_res g m) k' = bare_res h (bindR m k)"
  by (cases m) simp_all

lemma bare_wrap:
  "m' = bare_res h m \<Longrightarrow> (\<And>e. g' (bare_err e) = bare_err (g e))
     \<Longrightarrow> wrap_err g' m' = bare_res h (wrap_err g m)"
proof (cases m)
  case (Inl e)
  assume "m' = bare_res h m" "\<And>e. g' (bare_err e) = bare_err (g e)"
  with this(2) [of e] Inl show ?thesis by (cases e) auto
qed simp

definition bare_out :: "('a \<Rightarrow> 'b) \<Rightarrow> 'a res \<times> 's \<Rightarrow> 'b res \<times> 's" where
  "bare_out g = map_prod (bare_res g) id"

lemma bare_out_simps [simp]: "bare_out g (r, s) = (bare_res g r, s)"
  by (simp add: bare_out_def)

lemma bare_out_prims [simp]:
  "bare_out g (retS a s) = retS (g a) s" "bare_out g (failS e s) = failS (bare_err e) s"
  by (simp_all add: retS_def failS_def)

lemma bare_bindR_wrap:
  "(\<And>e. g' (bare_err e) = bare_err (g e)) \<Longrightarrow> (\<And>a. k' (f a) = bare_res h (k a))
     \<Longrightarrow> bindR (wrap_err g' (bare_res f m)) k' = bare_res h (bindR (wrap_err g m) k)"
  using bare_wrap [of "bare_res f m" f m g' g] bare_bindR [of k' f h k "wrap_err g m"] by simp

lemma bare_bindS_lift:
  "(\<And>a. k' (g a) s = bare_out h (k a s))
     \<Longrightarrow> bindS (liftS (bare_res g m)) k' s = bare_out h (bindS (liftS m) k s)"
  by (cases m) (auto simp: bindS_def liftS_def)

text \<open>A step on the state alone, and one whose error is wrapped with a position.\<close>

definition plain_step :: "('s, goerr, 'a) est \<Rightarrow> bool" where
  "plain_step m \<longleftrightarrow> (\<forall>s. bare_out id (m s) = m s)"

lemma bare_bindS_plain:
  "plain_step m \<Longrightarrow> (\<And>a s. k' a s = bare_out h (k a s)) \<Longrightarrow> bindS m k' s = bare_out h (bindS m k s)"
proof -
  assume m: "plain_step m" and k: "\<And>a s. k' a s = bare_out h (k a s)"
  from m have "bare_out id (m s) = m s" by (simp add: plain_step_def)
  with k show ?thesis by (cases "m s"; cases "fst (m s)") (auto simp: bindS_def)
qed

lemma bare_bindS_wrap:
  assumes "plain_step m" "\<And>a s. k' a s = bare_out h (k a s)" "\<And>e. g' (bare_err e) = bare_err (g e)"
  shows "bindS (wrapS g' m) k' s = bare_out h (bindS (wrapS g m) k s)"
proof -
  from assms(1) have m: "bare_out id (m s) = m s" by (simp add: plain_step_def)
  obtain r t where r: "m s = (r, t)" by (cases "m s")
  show ?thesis
  proof (cases r)
    case (Inl e)
    with m r have "bare_err e = e" by simp
    with assms(3) [of e] show ?thesis using r Inl by (cases e) (auto simp: bindS_def wrapS_def)
  next
    case (Inr a)
    with r assms(2) show ?thesis by (simp add: bindS_def wrapS_def)
  qed
qed

lemma plain_prims: "plain_step (getS f)" "plain_step (modS g)" "plain_step (retS a)"
  by (simp_all add: plain_step_def getS_def modS_def retS_def)

lemmas bare_intros = bare_bindR bare_bindR_wrap bare_bindS_lift bare_bindS_plain bare_bindS_wrap plain_prims

section \<open>Trees\<close>

lemma find_prop_bare [simp]: "find_prop (map bare_prop ps) k = map_option bare_prop (find_prop ps k)"
  by (induction ps) auto

lemma lookup_bare [simp]: "lookup (bare_node n) k = map_option bare_prop (lookup n k)"
  by (simp add: lookup_def)

lemma build_props_bare:
  "build_props name (map bare_prop acc) (map bare items)
     = bare_res (map_prod (map bare_prop) (map bare)) (build_props name acc items)"
  by (induction name acc items rule: build_props.induct) simp_all

lemma build_bare:
  shows "build (bare v) = bare_res bare_node (build v)"
    and "build_children (map bare items) (map bare_node acc) = bare_res (map bare_node) (build_children items acc)"
proof (induction v and items acc rule: build_build_children.induct)
  case (1 v)
  consider "vkind v \<noteq> KList \<or> vitems v = []" | head items where "vkind v = KList" "vitems v = head # items"
    by (cases "vitems v") auto
  then show ?case
  proof cases
    case 1
    then show ?thesis by (auto simp: build.simps [of v] build.simps [of "bare v"])
  next
    case (2 head items)
    then show ?thesis
      using "1.IH" [OF _ 2(2)] build_props_bare [of "vtext head" "[]" items]
      by (auto simp: build.simps [of v] build.simps [of "bare v"] split: sum.splits prod.splits)
  qed
next
  case (3 item items acc)
  then show ?case by (auto split: sum.splits)
qed simp

lemma build_all_bare: "build_all (map bare vs) = bare_res (map bare_node) (build_all vs)"
  by (induction vs) (auto intro!: bare_intros simp: build_bare)

section \<open>Properties of a node\<close>

definition textual :: "'a prop_def \<Rightarrow> bool" where
  "textual d \<longleftrightarrow> (\<forall>v. pd_parse d (bare v) = bare_res id (pd_parse d v))"

lemma parse_unsigned_bare: "parse_unsigned bits (bare v) = bare_res id (parse_unsigned bits v)"
  by (simp add: parse_unsigned_def Let_def split: option.split)

lemma parsers_bare:
  "parse_addr_value (bare v) = bare_res id (parse_addr_value v)"
  "parse_prefix_value (bare v) = bare_res id (parse_prefix_value v)"
  "parse_text (bare v) = bare_res id (parse_text v)"
  "parse_u16 (bare v) = bare_res id (parse_u16 v)" "parse_u32 (bare v) = bare_res id (parse_u32 v)"
  "parse_vlan_id (bare v) = bare_res id (parse_vlan_id v)"
  "parse_vni (bare v) = bare_res id (parse_vni v)"
  by (simp_all add: parse_addr_value_def parse_prefix_value_def parse_text_def parse_u16_def parse_u32_def
      parse_vlan_id_def parse_vni_def parse_unsigned_bare split: option.split sum.split)

lemma vocabulary_textual:
  "textual Src" "textual Dst" "textual SrcPrefix" "textual SrcPort" "textual DstPort" "textual VNI"
  "textual Key" "textual VLANID" "textual Peer"
  by (simp_all add: textual_def vocabulary_defs parsers_bare)

lemma get_prop_bare:
  assumes "textual d"
  shows "get_prop (bare_node n) d = bare_res bare_pv (get_prop n d)"
proof (cases "lookup n (pd_key d)")
  case None
  then show ?thesis by (simp add: get_prop_def)
next
  case (Some q)
  have "wrap_err (\<lambda>e. ErrAt no_pos (PropMsg (nname n) (pd_key d) e)) (pd_parse d (bare (p_val q)))
      = bare_res id (wrap_err (\<lambda>e. ErrAt (vpos (p_val q)) (PropMsg (nname n) (pd_key d) e))
          (pd_parse d (p_val q)))"
    using assms by (intro bare_wrap) (simp_all add: textual_def)
  with Some show ?thesis by (auto simp: get_prop_def split: sum.split)
qed

lemmas get_prop_vocabulary = vocabulary_textual [THEN get_prop_bare]

lemma require_bare: "require (bare_pv v) s = bare_res id (require v s)"
  by (cases v) (simp_all add: require_def)

section \<open>Spines\<close>

lemma layer_at_bare: "layer_at (map bare_node sp) i = bare_res bare_node (layer_at sp i)"
  by (simp add: layer_at_def)

lemma names_bare [simp]: "names (map bare_node sp) = names sp"
  by (simp add: names_def)

lemma spine_text_bare [simp]: "spine_text (map bare_node sp) = spine_text sp"
  by (simp add: spine_text_def)

lemma slice_bare: "slice (map bare_node sp) i j = bare_res (map bare_node) (slice sp i j)"
  by (simp add: slice_def take_map drop_map)

lemma extract_from_bare:
  "extract_from (map bare_node acc) (bare_node n) = bare_res (map bare_node) (extract_from acc n)"
proof (induction acc n rule: extract_from.induct)
  case (1 acc n ps cs p)
  then show ?case by (auto split: list.split)
qed

lemma from_form_bare: "from_form (bare_node n) = bare_res (map bare_node) (from_form n)"
  using extract_from_bare [of "[]"]
  by (auto simp: from_form_def extract_spine_def split: list.split)

section \<open>Endpoints and addresses\<close>

lemma read_endpoint_bare: "read_endpoint (bare_node n) k = bare_res bare_ep (read_endpoint n k)"
  by (auto simp: read_endpoint_def bare_ep_def parsers_bare split: option.split intro!: bare_intros)

lemma endpoints_bare: "endpoints (bare_node n) = bare_res id (endpoints n)"
  by (auto simp: endpoints_def get_prop_vocabulary require_bare intro!: bare_intros)

lemma address_of_bare: "address_of (bare_node n) = bare_res id (address_of n)"
  by (auto simp: address_of_def get_prop_vocabulary split: option.split intro!: bare_intros)

lemma addr_on_bare: "addr_on (bare_node n) dev = bare_res id (addr_on n dev)"
  by (auto simp: addr_on_def address_of_bare intro!: bare_intros)

section \<open>The tiles\<close>

definition bare_vx :: "vxlan_facts \<Rightarrow> vxlan_facts" where
  "bare_vx f = f\<lparr>vx_vni := bare_pv (vx_vni f), vx_local := bare_ep (vx_local f),
                 vx_remote := bare_ep (vx_remote f)\<rparr>"

definition bare_wg :: "wg_facts \<Rightarrow> wg_facts" where
  "bare_wg f = f\<lparr>wg_endpoint := bare_ep (wg_endpoint f)\<rparr>"

lemma read_vxlan_bare:
  "read_vxlan (bare_node o1) (bare_node o2) (bare_node o3) = bare_res bare_vx (read_vxlan o1 o2 o3)"
  by (auto simp: read_vxlan_def get_prop_vocabulary read_endpoint_bare bare_vx_def
      split: pvalue.split intro!: bare_intros)

lemma read_wireguard_bare:
  "read_wireguard (bare_node o1) (bare_node o2) (bare_node o3) (bare_node o4)
     = bare_res bare_wg (read_wireguard o1 o2 o3 o4)"
  by (auto simp: read_wireguard_def get_prop_vocabulary read_endpoint_bare require_bare bare_wg_def
      id_def intro!: bare_intros)

lemma names_plain: "plain_step (claim n)" "plain_step (alloc p)" "plain_step (vxlan_name v)"
proof -
  show c: "plain_step (claim n)" for n
    by (auto simp: plain_step_def claim_def valid_name_def bindS_def liftS_def failS_def modS_def)
  show a: "plain_step (alloc p)" for p
    unfolding plain_step_def
  proof
    fix e
    obtain k where "alloc p e = alloc_result p e k" using alloc_eq by blast
    then show "bare_out id (alloc p e) = alloc p e"
      by (auto simp: alloc_result_def valid_name_def Let_def)
  qed
  show "plain_step (vxlan_name v)" using a c by (simp add: vxlan_name_def split: option.split)
qed

lemma layer_reads:
  "bindR (layer_at (map bare_node sp) i) endpoints = bare_res id (bindR (layer_at sp i) endpoints)"
  "bindR (layer_at (map bare_node sp) i) (\<lambda>n. addr_on n d) = bare_res id (bindR (layer_at sp i) (\<lambda>n. addr_on n d))"
  "bindR (layer_at (map bare_node sp) i) (\<lambda>n. get_prop n Key)
     = bare_res bare_pv (bindR (layer_at sp i) (\<lambda>n. get_prop n Key))"
  by (simp_all add: layer_at_def endpoints_bare addr_on_bare get_prop_vocabulary)

lemma tunnel_lowerings_bare:
  "lower_ipip (map bare_node sp) e = bare_out id (lower_ipip sp e)"
  "lower_gre (map bare_node sp) e = bare_out id (lower_gre sp e)"
  "lower_gretap (map bare_node sp) e = bare_out id (lower_gretap sp e)"
  by (auto simp: lower_ipip_def lower_gre_def lower_gretap_def layer_reads names_plain key_args_def
      intro!: bare_intros)

lemma lower_vlan_bare: "lower_vlan (map bare_node sp) e = bare_out id (lower_vlan sp e)"
  by (auto simp: lower_vlan_def layer_at_bare get_prop_vocabulary require_bare names_plain
      intro!: bare_intros)

lemma vxlan_args_bare [simp]:
  "vx_vni (bare_vx f) = bare_pv (vx_vni f)" "vx_local (bare_vx f) = bare_ep (vx_local f)"
  "vxlan_name (bare_pv v) = vxlan_name v" "vxlan_why (bare_vx f) = vxlan_why f"
  "vxlan_argv (bare_vx f) d parent = vxlan_argv f d parent"
  by (simp_all add: bare_vx_def vxlan_name_def vxlan_why_def vxlan_argv_def vni_args_def local_args_def
      remote_args_def)

lemma wireguard_args_bare [simp]:
  "wg_port (bare_wg f) = wg_port f" "peer_command (bare_wg f) d dev = peer_command f d dev"
  by (simp_all add: bare_wg_def peer_command_def Let_def)

lemma lower_vxlan_bare: "lower_vxlan (map bare_node sp) e = bare_out id (lower_vxlan sp e)"
  by (auto simp: lower_vxlan_def layer_at_bare read_vxlan_bare names_plain intro!: bare_intros)

lemma lower_wireguard_bare: "lower_wireguard (map bare_node sp) e = bare_out id (lower_wireguard sp e)"
  by (auto simp: lower_wireguard_def layer_at_bare read_wireguard_bare addr_on_bare names_plain
      intro!: bare_intros)

text \<open>Every tile of the registry.\<close>

lemma linux_lowering_bare:
  assumes "t \<in> set (r_tiles linux)" "t_lower t = Some f"
  shows "f (map bare_node sp) e = bare_out id (f sp e)"
  using assms by (cases rule: linux_tile_cases)
    (simp_all add: tunnel_lowerings_bare lower_vlan_bare lower_vxlan_bare lower_wireguard_bare)

lemma apply_tile_bare:
  assumes "t \<in> set (r_tiles linux)"
  shows "apply_tile t (map bare_node sp) i e = bare_out id (apply_tile t sp i e)"
proof -
  from linux.has_lower [OF assms] obtain f where f: "t_lower t = Some f" by auto
  show ?thesis
    by (auto simp: apply_tile_def f slice_bare linux_lowering_bare [OF assms f] intro!: bare_intros)
qed

section \<open>Covering\<close>

definition bare_cr :: "cover_result \<Rightarrow> cover_result" where
  "bare_cr res = res\<lparr>cr_payload := map bare_node (cr_payload res)\<rparr>"

lemma run_tiles_bare:
  "set ts \<subseteq> set (r_tiles linux)
     \<Longrightarrow> run_tiles (map bare_node sp) i scr app ts e = bare_out id (run_tiles sp i scr app ts e)"
  by (induction ts arbitrary: i scr app e) (auto simp: apply_tile_bare split: prod.split sum.split)

lemma tiling_tiles: "tiling r sp i ts \<Longrightarrow> set ts \<subseteq> set (r_tiles r)"
  by (induction ts arbitrary: i) auto

lemma finish_cover_bare:
  "finish_cover r (map bare_node sp) created st e = bare_res bare_cr (finish_cover r sp created st e)"
proof (cases st)
  case (fields i scr app)
  show ?thesis
  proof (cases "i = 0")
    case True
    then show ?thesis by (auto simp: finish_cover_def fields layer_at_bare intro!: bare_intros)
  next
    case False
    have part: "(if map bare_node rest \<noteq> [] then
           bindR (layer_at (map bare_node rest) 0) (\<lambda>n. bindR (address_of n) (\<lambda>a.
             if a \<noteq> [] then bindR (slice (map bare_node rest) 1 (length (map bare_node rest))) (\<lambda>rest'.
                  Inr (scr @ [address_command a (e_dev e)], rest'))
             else Inr (scr, map bare_node rest)))
         else Inr (scr, map bare_node rest))
       = bare_res (map_prod id (map bare_node)) (if rest \<noteq> [] then
           bindR (layer_at rest 0) (\<lambda>n. bindR (address_of n) (\<lambda>a.
             if a \<noteq> [] then bindR (slice rest 1 (length rest)) (\<lambda>rest'.
                  Inr (scr @ [address_command a (e_dev e)], rest'))
             else Inr (scr, rest)))
         else Inr (scr, rest))" for rest
      by (auto simp: layer_at_bare address_of_bare slice_bare intro!: bare_intros)
    show ?thesis
      unfolding finish_cover_def fields prod.case length_map slice_bare
      using False by (auto simp: part [simplified] bare_cr_def intro!: bare_intros)
  qed
qed

lemma cover_bare:
  "cover linux (map bare_node sp) e = map_option (bare_out bare_cr) (cover linux sp e)"
proof -
  have c: "choices linux (map bare_node sp) 0 = choices linux sp 0" by (rule choices_names) simp
  have "set (choices linux sp 0) \<subseteq> set (r_tiles linux)"
    by (rule tiling_tiles) (rule choices_tiling)
  from run_tiles_bare [OF this] show ?thesis
    by (simp add: linux.cover_run c finish_cover_bare split: prod.split sum.split)
qed

section \<open>Explaining\<close>

lemma bid_layers_bare: "bid_layers (map bare_node sp) i ws = bare_res id (bid_layers sp i ws)"
  by (induction ws arbitrary: i) (auto simp: layer_at_bare intro!: bare_intros)

lemma bid_bare: "t_guard t = None \<Longrightarrow> bid t (map bare_node sp) i = bare_res id (bid t sp i)"
  by (auto simp: bid_def bid_layers_bare intro!: bare_intros)

lemma all_bids_bare:
  "\<forall>t \<in> set ts. t_guard t = None \<Longrightarrow> all_bids ts (map bare_node sp) i = bare_res id (all_bids ts sp i)"
  by (induction ts) (auto simp: bid_bare intro!: bare_intros)

lemma linux_no_guard: "\<forall>t \<in> set (r_tiles linux). t_guard t = None"
  by (simp add: linux_def tile_defs)

lemma bare_bindR_best:
  "(\<And>t. k' t = bare_res h (k t)) \<Longrightarrow> bindR (best ts) k' = bare_res h (bindR (best ts) k)"
  by (cases ts) simp_all

lemma explain_at_bare: "explain_at linux (map bare_node sp) i = bare_res id (explain_at linux sp i)"
  by (auto simp: explain_at_def all_bids_bare [OF linux_no_guard] slice_bare
      intro!: bare_bindR_best bare_intros)

lemma explain_loop_bare:
  "explain_loop linux (map bare_node sp) i steps = map_option (bare_res id) (explain_loop linux sp i steps)"
proof (induction "length sp - i" arbitrary: i steps rule: less_induct)
  case less
  note unfold = explain_loop.simps [of linux "map bare_node sp" i steps] explain_loop.simps [of linux sp i steps]
  show ?case
  proof (cases "i < length sp")
    case False
    then show ?thesis unfolding unfold by simp
  next
    case True
    show ?thesis
    proof (cases "choices linux sp i")
      case Nil
      with linux.explain_at_none [OF True] obtain s where "explain_at linux sp i = Inr (s, None)" by blast
      with True show ?thesis unfolding unfold by (simp add: explain_at_bare)
    next
      case (Cons t ts)
      from linux.explain_at_some [OF Cons] obtain s where
        s: "explain_at linux sp i = Inr (s, Some (length (t_pattern t)))" by blast
      have "length (t_pattern t) > 0" using linux.choices_Cons [OF Cons] linux.nonempty_pattern by blast
      with True have "length sp - (i + length (t_pattern t)) < length sp - i"
        by (intro diff_less_mono2) simp_all
      from less [OF this] True s show ?thesis unfolding unfold by (simp add: explain_at_bare)
    qed
  qed
qed

definition bare_x :: "explanation \<Rightarrow> explanation" where
  "bare_x x = x\<lparr>x_spine := map bare_node (x_spine x), x_leftover := map bare_node (x_leftover x)\<rparr>"

lemma explain_bare: "explain linux (map bare_node sp) = map_option (bare_res bare_x) (explain linux sp)"
  by (auto simp: explain_def explain_loop_bare slice_bare bare_x_def explain_note_def
      split: option.split sum.split intro!: bare_intros)

lemma explanation_text_bare: "explanation_text (bare_x x) = explanation_text x"
  by (simp add: explanation_text_def bare_x_def)

section \<open>Mirroring\<close>

lemma split_rebuild_bare:
  "split_prefix (bare v) = split_prefix v" "rebuild (bare v) a l = bare (rebuild v a l)"
  by (simp_all add: split_prefix_def rebuild_def split: option.split)

lemma exchange_bare: "exchange (bare s) (bare d) (bare_prop q) = bare_prop (exchange s d q)"
  by (simp add: exchange_def new_src_def new_dst_def split_rebuild_bare bare_prop_def)

definition bare_edit :: "(node \<Rightarrow> property list) \<Rightarrow> bool" where
  "bare_edit g \<longleftrightarrow> (\<forall>n. g (bare_node n) = map bare_prop (g n))"

lemma swap_bare: "bare_edit swap_endpoints"
  by (auto simp: bare_edit_def swap_endpoints_def exchange_bare split: option.split)

lemma set_prop_bare:
  "set_prop no_pos k t (map bare_prop ps) = map bare_prop (set_prop p k t ps)"
  by (induction p k t ps rule: set_prop.induct) (simp_all add: bare_prop_def)

lemma inner_edits_bare:
  "bare_edit (\<lambda>n. set_prop (npos n) k t (nprops n))" "bare_edit (\<lambda>n. remove_prop k (nprops n))"
  by (simp_all add: bare_edit_def set_prop_bare remove_prop_def filter_map comp_def)

lemma map_chain_bare: "bare_edit g \<Longrightarrow> map_chain g (bare_node n) = bare_node (map_chain g n)"
proof (induction n)
  case (Node nm ps cs p)
  then have e: "g (bare_node (Node nm ps cs p)) = map bare_prop (g (Node nm ps cs p))"
    by (simp add: bare_edit_def del: bare_node.simps)
  consider "cs = []" | c where "cs = [c]" | c d r where "cs = c # d # r"
    by (cases cs; cases "tl cs") auto
  then show ?case using e Node by cases simp_all
qed

lemma on_layer_bare: "bare_edit g \<Longrightarrow> on_layer k g (bare_node n) = bare_node (on_layer k g n)"
proof (induction k g n rule: on_layer.induct)
  case (1 g nm ps cs p)
  then have "g (bare_node (Node nm ps cs p)) = map bare_prop (g (Node nm ps cs p))"
    by (simp add: bare_edit_def del: bare_node.simps)
  then show ?case by simp
qed (auto split: list.split)

lemma spine_of_bare: "spine_of (bare_node n) = map bare_node (spine_of n)"
  by (induction n rule: spine_of.induct) (auto split: list.split)

lemma addressed_bare: "addressed (bare_node n) = addressed n"
  by (auto simp: addressed_def parsers_bare split: option.split sum.split)

lemma innermost_bare: "innermost_addressed (map bare_node ls) = innermost_addressed ls"
proof -
  have "i \<le> length ls \<Longrightarrow> innermost_from i (map bare_node ls) = innermost_from i ls" for i
    by (induction i) (simp_all add: addressed_bare)
  then show ?thesis by (simp add: innermost_addressed_def)
qed

lemma notes_bare:
  "swapped_notes (map bare_node ls) = swapped_notes ls" "same_notes (map bare_node ls) = same_notes ls"
  "key_notes q (map bare_node ls) = key_notes q ls"
  "filter two_ended (map bare_node ls) = map bare_node (filter two_ended ls)"
proof -
  have t: "two_ended (bare_node n) = two_ended n" for n by (simp add: two_ended_def)
  then show f: "filter two_ended (map bare_node ls) = map bare_node (filter two_ended ls)"
    by (simp add: filter_map comp_def)
  show "swapped_notes (map bare_node ls) = swapped_notes ls" by (simp add: swapped_notes_def f comp_def)
  show "same_notes (map bare_node ls) = same_notes ls"
    by (auto simp: same_notes_def comp_def same_keys_def intro!: arg_cong [where f = concat])
  show "key_notes q (map bare_node ls) = key_notes q ls"
    by (auto simp: key_notes_def comp_def split: option.split intro!: arg_cong [where f = concat])
qed

lemma finish_inner_bare:
  "finish_inner inner (bare_node n) = map_prod bare_node id (finish_inner inner n)"
proof (cases "innermost_addressed (spine_of n)")
  case (Some k)
  have bound: "innermost_from i ls = Some k \<Longrightarrow> k < i" for i ls
    by (induction i) (auto split: if_splits)
  from Some have "k < length (spine_of n)" by (simp add: innermost_addressed_def bound)
  with Some show ?thesis
    using on_layer_bare [OF inner_edits_bare(1)] on_layer_bare [OF inner_edits_bare(2)]
    by (simp add: finish_inner_def Let_def spine_of_bare innermost_bare)
qed (simp add: finish_inner_def Let_def spine_of_bare innermost_bare)

lemma packet_bare:
  "packet_of (bare_node t) = bare_node (packet_of t)"
  "with_packet (bare_node t) (bare_node n) = bare_node (with_packet t n)"
  by (auto simp: packet_of_def with_packet_def split: list.split)

definition bare_mr :: "mirror_result \<Rightarrow> mirror_result" where
  "bare_mr res = res\<lparr>m_tree := bare_node (m_tree res)\<rparr>"

lemma peer_bare: "peer q (bare_node root) inner = bare_res bare_mr (peer q root inner)"
proof -
  have c: "check_inner inner = bare_res id (check_inner inner)"
    by (auto simp: check_inner_def parse_prefix_value_def split: option.split)
  show ?thesis
  proof (cases "check_inner inner")
    case (Inl e)
    with c show ?thesis by (simp add: peer_def)
  next
    case (Inr u)
    obtain packet2 sps mis where f:
      "finish_inner inner (map_chain swap_endpoints (packet_of root)) = (packet2, sps, mis)"
      by (cases "finish_inner inner (map_chain swap_endpoints (packet_of root))")
    from f have "finish_inner inner (map_chain swap_endpoints (packet_of (bare_node root)))
        = (bare_node packet2, sps, mis)"
      by (simp add: packet_bare map_chain_bare [OF swap_bare] finish_inner_bare)
    with f Inr show ?thesis
      by (auto simp: peer_def Let_def packet_bare spine_of_bare notes_bare layer_at_bare bare_mr_def
          map_chain_bare [OF swap_bare] intro!: bare_intros)
  qed
qed

section \<open>Predicting\<close>

lemma tunnel_facts_bare: "tunnel_facts (bare_node n) = bare_res id (tunnel_facts n)"
  by (auto simp: tunnel_facts_def get_prop_vocabulary intro!: bare_intros)

lemma expect_udp_bare:
  "expect_udp (map bare_node sp) (bare_node n) facts dst = bare_res id (expect_udp sp n facts dst)"
proof -
  have "bindR (layer_at (map bare_node sp) 2) tunnel_facts = bare_res id (bindR (layer_at sp 2) tunnel_facts)"
    by (auto simp: layer_at_bare tunnel_facts_bare intro!: bare_intros)
  then show ?thesis
    by (auto simp: expect_udp_def get_prop_vocabulary Let_def split: option.split intro!: bare_intros)
qed

lemma expect_under_bare:
  "expect_under (map bare_node sp) facts dst = bare_res id (expect_under sp facts dst)"
  by (auto simp: expect_under_def layer_at_bare expect_udp_bare intro!: bare_intros)

lemma expect_bare: "expect (map bare_node sp) = bare_res id (expect sp)"
  by (auto simp: expect_def layer_at_bare get_prop_vocabulary expect_under_bare Let_def intro!: bare_intros)

section \<open>The commands\<close>

fun bare_end :: "ending \<Rightarrow> ending" where
  "bare_end (Failed er) = Failed (bare_err er)"
| "bare_end fin = fin"

definition bare_run :: "command_run \<Rightarrow> command_run" where
  "bare_run = map_prod id bare_end"

lemma bare_run_simps [simp]: "bare_run (out, fin) = (out, bare_end fin)"
  by (simp add: bare_run_def)

lemma render_text_bare: "render_text h (map bare_node sp) quiet (bare_cr res) = render_text h sp quiet res"
  by (simp add: render_text_def bare_cr_def)

lemma render_bare:
  "render h (bare_node root) quiet e = map_option (bare_out id) (render h root quiet e)"
  by (auto simp: render_def from_form_bare linux_registry_eq cover_bare render_text_bare
      split: sum.split option.split prod.split)

lemma lower_rules_bare:
  "lower_rules quiet count i (map bare_node roots) e
     = map_option (map_prod bare_run id) (lower_rules quiet count i roots e)"
  by (induction roots arbitrary: i e)
     (auto simp: render_bare Let_def split: sum.split option.split prod.split)

lemma lower_trees_bare:
  "lower_trees u k quiet (map bare_node trees) = map_option (map_prod bare_run id) (lower_trees u k quiet trees)"
  by (simp add: lower_trees_def lower_rules_bare)

lemma mirror_tree_bare:
  "mirror_tree q u pu inner (bare_node root) = map_option bare_run (mirror_tree q u pu inner root)"
  by (auto simp: mirror_tree_def render_bare peer_bare bare_mr_def mirror_report_def
      split: sum.split option.split prod.split)

lemma spine_table_bare: "spine_table (map bare_node sp) = spine_table sp"
proof -
  have d: "describe (bare_node n) = describe n" for n by (simp add: describe_def comp_def)
  have "foldl (\<lambda>w n. if length (nname n) > w then length (nname n) else w) k (map bare_node sp)
      = foldl (\<lambda>w n. if length (nname n) > w then length (nname n) else w) k sp" for k
    by (induction sp arbitrary: k) simp_all
  then show ?thesis by (simp add: spine_table_def comp_def d)
qed

lemma explain_rules_bare:
  "explain_rules linux count i (map bare_node roots) = map_option bare_run (explain_rules linux count i roots)"
  by (induction roots arbitrary: i)
     (auto simp: from_form_bare explain_bare explanation_text_bare Let_def
       split: sum.split option.split prod.split)

section \<open>The whole program\<close>

text \<open>The forms of a file, as every command reads them.\<close>

definition forms :: "file_system \<Rightarrow> string \<Rightarrow> sval list res" where
  "forms files path = bindR (files path) (Sexp.read path)"

definition same_forms :: "file_system \<Rightarrow> file_system \<Rightarrow> bool" where
  "same_forms files files' \<longleftrightarrow>
     (\<forall>path. bare_res (map bare) (forms files path) = bare_res (map bare) (forms files' path))"

lemma bare_same:
  assumes "bare_res g m = bare_res g m'" "\<And>a. K (g a) = bare_res h (K a)"
  shows "bare_res h (bindR m K) = bare_res h (bindR m' K)"
  using bare_bindR [of K g h K m] bare_bindR [of K g h K m'] assms by simp

lemma bare_res_eqE:
  assumes "bare_res g x = bare_res g y"
  obtains e e' where "x = Inl e" "y = Inl e'" "bare_err e = bare_err e'"
  | a b where "x = Inr a" "y = Inr b" "g a = g b"
  using assms by (cases x; cases y) auto

lemma read_trees_forms:
  "read_trees files path = bindR (forms files path) (\<lambda>fs.
     if fs = [] then err_plain (CmdMsg (NoForms path)) else build_all fs)"
  by (cases "files path") (simp_all add: read_trees_def forms_def)

lemma same_inputs:
  assumes "same_forms files files'"
  shows "bare_res (map bare_node) (read_trees files path) = bare_res (map bare_node) (read_trees files' path)"
    and "bare_res bare_node (read_tree files path) = bare_res bare_node (read_tree files' path)"
    and "bare_res (map bare_node) (read_spine files path) = bare_res (map bare_node) (read_spine files' path)"
proof -
  show ts: "bare_res (map bare_node) (read_trees files path) = bare_res (map bare_node) (read_trees files' path)"
    unfolding read_trees_forms using assms
    by (intro bare_same [where g = "map bare"]) (simp_all add: same_forms_def build_all_bare)
  show t: "bare_res bare_node (read_tree files path) = bare_res bare_node (read_tree files' path)"
    unfolding read_tree_def using ts by (intro bare_same [where g = "map bare_node"]) (auto simp: node_at_def)
  show "bare_res (map bare_node) (read_spine files path) = bare_res (map bare_node) (read_spine files' path)"
    unfolding read_spine_def using t by (intro bare_same [where g = bare_node]) (simp_all add: from_form_bare)
qed

text \<open>A step after the reading that commutes gives the same run up to positions.\<close>

lemma bare_cases:
  assumes "bare_res g x = bare_res g y" "\<And>a. R (K (g a)) = R (K a)"
    and "\<And>e. R (F e) = R (F (bare_err e))"
  shows "R (case x of Inl e \<Rightarrow> F e | Inr a \<Rightarrow> K a) = R (case y of Inl e \<Rightarrow> F e | Inr a \<Rightarrow> K a)"
  using assms(1)
proof (cases rule: bare_res_eqE)
  case (1 e e')
  with assms(3) [of e] assms(3) [of e'] show ?thesis by simp
next
  case (2 a b)
  with assms(2) [of a] assms(2) [of b] show ?thesis by simp
qed

lemma bare_err_idem [simp]: "bare_err (bare_err e) = bare_err e" "bare_msg (bare_msg m) = bare_msg m"
  by (induction e and m rule: bare_err_bare_msg.induct) simp_all

lemma bare_end_idem [simp]: "bare_end (bare_end fin) = bare_end fin"
  by (cases fin) simp_all

lemma bare_run_idem [simp]: "bare_run (bare_run r) = bare_run r"
  by (cases r) simp

lemma cmd_lower_bare:
  assumes "same_forms files files'"
  shows "map_option bare_run (cmd_lower q files args) = map_option bare_run (cmd_lower q files' args)"
proof (cases "one_arg (parse_flags q lower_flags args)")
  case (Inl a)
  obtain fs path where a: "a = (fs, path)" by (cases a)
  show ?thesis unfolding cmd_lower_def Inl a sum.case prod.case
    by (rule bare_cases [OF same_inputs(1) [OF assms]])
       (simp_all add: lower_trees_bare option.map_comp comp_def)
qed (simp add: cmd_lower_def)

lemma cmd_mirror_bare:
  assumes "same_forms files files'"
  shows "map_option bare_run (cmd_mirror q files args) = map_option bare_run (cmd_mirror q files' args)"
proof (cases "one_arg (parse_flags q mirror_flags args)")
  case (Inl a)
  obtain fs path where a: "a = (fs, path)" by (cases a)
  show ?thesis unfolding cmd_mirror_def Inl a sum.case prod.case Let_def
    by (rule bare_cases [OF same_inputs(2) [OF assms]])
       (simp_all add: mirror_tree_bare option.map_comp comp_def)
qed (simp add: cmd_mirror_def)

lemma cmd_explain_bare:
  assumes "same_forms files files'"
  shows "map_option bare_run (cmd_explain files args) = map_option bare_run (cmd_explain files' args)"
proof (cases "\<exists>path. args = [path]")
  case True
  then obtain path where p: "args = [path]" ..
  have e: "cmd_explain f [path] = (case read_trees f path of
      Inl er \<Rightarrow> Some ([], Failed er)
    | Inr trees \<Rightarrow> explain_rules linux (length trees) 0 trees)" for f
    by (cases "read_trees f path") (simp_all add: cmd_explain_def linux_registry_eq)
  show ?thesis unfolding p e
    by (rule bare_cases [OF same_inputs(1) [OF assms]])
       (simp_all add: explain_rules_bare option.map_comp comp_def)
qed (auto simp: cmd_explain_def split: list.split)

lemma cmd_parse_bare:
  assumes "same_forms files files'"
  shows "bare_run (cmd_parse files args) = bare_run (cmd_parse files' args)"
proof (cases "\<exists>path. args = [path]")
  case True
  then obtain path where p: "args = [path]" ..
  show ?thesis unfolding cmd_parse_def p list.case
    by (rule bare_cases [OF same_inputs(3) [OF assms]]) (simp_all add: spine_table_bare)
qed (auto simp: cmd_parse_def split: list.split)

lemma cmd_expect_bare:
  assumes "same_forms files files'"
  shows "bare_run (cmd_expect files args) = bare_run (cmd_expect files' args)"
proof (cases "\<exists>path. args = [path]")
  case True
  then obtain path where p: "args = [path]" ..
  have "bare_res id (bindR (read_spine files path) expect) = bare_res id (bindR (read_spine files' path) expect)"
    using same_inputs(3) [OF assms] by (intro bare_same [where g = "map bare_node"]) (simp_all add: expect_bare)
  then show ?thesis unfolding cmd_expect_def p list.case by (rule bare_cases) simp_all
qed (auto simp: cmd_expect_def split: list.split)

lemma main_run_bare:
  assumes "same_forms files files'"
  shows "map_option bare_run (main_run q files args) = map_option bare_run (main_run q files' args)"
  using assms cmd_parse_bare cmd_lower_bare cmd_mirror_bare cmd_expect_bare cmd_explain_bare
  by (cases args) (simp_all add: main_run_def)

lemma same_forms_run:
  assumes "same_forms files files'" "main_run q files args = Some (out, fin)"
  shows "\<exists>fin'. main_run q files' args = Some (out, fin') \<and> bare_end fin' = bare_end fin"
  using main_run_bare [OF assms(1), of q args] assms(2) by (auto simp: map_option_case split: option.splits)

section \<open>Properties\<close>

text \<open>
  C11. The layout of a file does not matter: when two file systems hold the same forms up to
  positions (or fail to read with the same error up to positions), every command line prints the
  same text on both and ends in the same way. Only the positions in an error can differ.
\<close>

theorem layout_does_not_matter:
  assumes "same_forms files files'" and "main_run q files args = Some (out, fin)"
  shows "\<exists>fin'. main_run q files' args = Some (out, fin') \<and> bare_end fin' = bare_end fin
    \<and> (fin = Fine \<longrightarrow> fin' = Fine)"
proof -
  from same_forms_run [OF assms] obtain fin' where
    "main_run q files' args = Some (out, fin')" "bare_end fin' = bare_end fin" by blast
  moreover from this(2) have "fin = Fine \<longrightarrow> fin' = Fine" by (cases fin') auto
  ultimately show ?thesis by blast
qed

theorem layout_does_not_matter_witness:
  "\<exists>out. out \<noteq> [] \<and> main_run (\<lambda>_. False)
        (\<lambda>_. Inr ''(configure (ethernet (vlan :id 5)))'') [''lower'', ''f''] = Some (out, Fine)
     \<and> main_run (\<lambda>_. False)
        (\<lambda>_. Inr (''; tagged'' @ [char_nl] @ ''(configure'' @ [char_nl] @ '' (ethernet (vlan  :id 5) ) )''))
        [''lower'', ''f''] = Some (out, Fine)"
proof -
  let ?s = "''(configure (ethernet (vlan :id 5)))''"
  let ?t = "''; tagged'' @ [char_nl] @ ''(configure'' @ [char_nl] @ '' (ethernet (vlan  :id 5) ) )''"
  have "same_forms (\<lambda>_. Inr ?s) (\<lambda>_. Inr ?t)"
  proof -
    have "bare_res (map bare) (Sexp.read path ?s) = bare_res (map bare) (Sexp.read path ?t)" for path
      by code_simp
    then show ?thesis by (simp add: same_forms_def forms_def)
  qed
  moreover have "case main_run (\<lambda>_. False) (\<lambda>_. Inr ?s) [''lower'', ''f''] of
      Some (out, fin) \<Rightarrow> out \<noteq> [] \<and> fin = Fine | None \<Rightarrow> False"
    by code_simp
  then obtain out where out: "main_run (\<lambda>_. False) (\<lambda>_. Inr ?s) [''lower'', ''f''] = Some (out, Fine)"
    "out \<noteq> []"
    by (auto split: option.splits prod.splits)
  ultimately show ?thesis using layout_does_not_matter [OF _ out(1)] by blast
qed

end
