(* ===== verification/Spec2Isabelle.thy ===== *)
theory Spec2Isabelle
  imports Samples SexpPos SexpPrint Machine Tunnels Shell FarEnd Wiring Nettest Layout
begin

text \<open>
  pktc compiles a description of a packet into the commands that configure the Linux devices which
  produce it. This development models the whole tool, from the bytes of a file to the text it
  prints; every theory opens with what it holds.

  The parts, in the order of a run (\<open>cmd/pktc/main.go\<close>, theory \<open>Pktc\<close>):

  \<^item> \<open>sexp\<close> reads the text (\<open>Sexp\<close>: the reader's state and one definition per method; \<open>SexpPos\<close>:
    its positions are those of the source, for values and for errors);
  \<^item> \<open>ast\<close> builds protocol nodes and reads their properties in three states (\<open>Ast\<close>);
  \<^item> \<open>spine\<close> flattens the tree to a list of layers (\<open>Spine\<close>);
  \<^item> \<open>tile\<close> selects tiles and covers the spine (\<open>Tile\<close>: registry, matching, \<open>Cover\<close>; \<open>Cover\<close>: what
    covering guarantees; \<open>Explain\<close>: the record of every bid, and its agreement with the cover);
  \<^item> \<open>tiles/linux\<close> lowers the six shapes to iproute2 commands (\<open>Linux\<close>), taking names from \<open>env\<close>
    (\<open>Env\<close>) and making the commands of \<open>command\<close> (\<open>Command\<close>, with a
    specification of how a POSIX shell reads them back, reserved words and \<open>$(cat path)\<close> included);
  \<^item> \<open>mirror\<close> derives the far end's tree (\<open>Mirror\<close>) and \<open>wire\<close> predicts the underlay (\<open>Wire\<close>).

  Go's standard library is modelled as far as the program uses it: errors, state and numbers in
  \<open>GoLib\<close>, strings and \<open>%q\<close> in \<open>GoText\<close>, \<open>net/netip\<close> in \<open>NetIP\<close>, \<open>flag\<close> in \<open>Flags\<close>; diagnostics
  are values of \<open>Diag\<close>, with their text. A Go \<open>int\<close> that counts is a natural number (no count comes
  near 64 bits), a field of 16 or 32 bits is a word. Parameters are \<open>os.ReadFile\<close>, the
  table of code points that \<open>%q\<close> prints as they are, and the machine of the harness. A pointer to an \<open>Env\<close> is explicit state,
  with the state an error leaves; a panic is an error value \<open>Panic\<close>, so that its absence is a
  theorem (C2). Loops that must end are functions with a measure; the loops of \<open>Cover\<close> and
  \<open>Explain\<close>, which do not end for a tile with an empty pattern, are partial functions, and they are
  proved to return on every registry that \<open>NewRegistry\<close> accepts.

  The interfaces are locales: \<open>name_source\<close> (what \<open>Claim\<close> and \<open>Alloc\<close> owe a tile, \<open>Env\<close>),
  \<open>accepted\<close>, \<open>unambiguous\<close> and \<open>tile_contract\<close> (what a registry and its lowerings owe the cover,
  \<open>Cover\<close>), \<open>lowering_invariant\<close> (what every lowering must keep for the cover to keep it, \<open>Shell\<close>);
  they are interpreted on \<open>Claim\<close>, \<open>Alloc\<close> and the iproute2 registry. \<open>Devices\<close> is the abstract
  side of a script: the interfaces each command needs, makes and brings up (only those: addresses,
  which a real machine keeps apart too, are not tracked); \<open>Machine\<close> runs a script
  in steps that can be interrupted, as an inductive relation. \<open>Samples\<close> holds the trees the
  witnesses run on.

  The harness of the kernel tests (\<open>internal/nettest\<close>, theory \<open>Nettest\<close>) is modelled over a machine
  that is a parameter: what its commands do to it is arbitrary.

  Theories of properties that need several parts, but no front end:

  \<^item> \<open>SexpPrint\<close>: printing values and reading them back;
  \<^item> \<open>Tunnels\<close>: the table of the tiles, and every argument of the commands each tile makes;
  \<^item> \<open>Shell\<close>: which text of a tree can reach the shell as anything but data;
  \<^item> \<open>Peers\<close>: what the mirrored tree lowers to, and where the mirror is wrong; \<open>FarEnd\<close>: the mirror as
    a map on layers, when it is undone by itself, and the two ends of a point-to-point tunnel;
  \<^item> \<open>Wiring\<close>: the predictions of \<open>wire\<close> against the commands of every tile that has one;
  \<^item> \<open>Layout\<close>: positions are for diagnostics only, so what is printed does not depend on how a file
    is laid out; one lemma per operation says that it commutes with forgetting positions.

  This theory holds the properties of the whole tool: the scripts of a file, their runs, also when
  they are stopped half-way, failures, and the optimality of covering on the iproute2 registry. A witness stands beside its property,
  or here when it needs the sample trees.

  Not modelled: the tests and their inputs.
\<close>

section \<open>Lowering a file\<close>

lemma lower_trees_runs:
  assumes "lower_trees underlay key_dir quiet trees = Some ((out, Fine), e')"
  obtains rs where "list_all2 covered trees rs"
    "out = file_text quiet (length trees) 0 rs"
    "length (e_created e') = sum_list (map (\<lambda>r. length (cr_applied (snd r))) rs)"
    "distinct (underlay # e_created e')" "list_all if_name (e_created e')"
    "run_devices (concat (map (\<lambda>r. cr_script (snd r)) rs)) \<lparr>m_devs = [underlay], m_up = []\<rparr>
        = Some \<lparr>m_devs = underlay # e_created e', m_up = e_created e'\<rparr>"
proof -
  let ?e = "(new_env underlay)\<lparr>e_keydir := key_dir\<rparr>"
  have e: "env_ok ?e" using new_env_ok [of underlay] by (simp add: env_ok_def is_used_def)
  have p: "present ?e = [underlay]" "e_created ?e = []" "e_root ?e = underlay"
    by (simp_all add: present_def new_env_def)
  from lower_rules_builds [OF assms [unfolded lower_trees_def] e] obtain rs where
    rs: "list_all2 covered trees rs"
      "out = file_text quiet (length trees) 0 rs" "env_ok e'" "e_root e' = underlay"
      "length (e_created e') = sum_list (map (\<lambda>r. length (cr_applied (snd r))) rs)"
      "run_devices (concat (map (\<lambda>r. cr_script (snd r)) rs)) \<lparr>m_devs = [underlay], m_up = []\<rparr>
        = Some \<lparr>m_devs = present e', m_up = [] @ e_created e'\<rparr>"
    unfolding p by auto
  have "distinct (underlay # e_created e')" "list_all if_name (e_created e')"
    using rs(3,4) by (auto simp: env_ok_def list_all_iff)
  with rs show thesis by (intro that [of rs]) (auto simp: present_def)
qed

text \<open>
  C1. The script \<open>pktc lower\<close> prints for a file configures one machine consistently. When every
  rule is lowered, the output is the rendering of one cover per rule, and running all their
  commands in order on a machine that has only the physical device succeeds: no command names an
  interface that is not there yet or makes one that is there, every tile makes exactly one
  interface, all of them have usable Linux names different from each other and from the physical
  device, and in the end all of them are up, each one after the one it stands on.
\<close>

theorem lowered_file_runs:
  assumes "lower_trees underlay key_dir quiet trees = Some ((out, Fine), e')"
  shows "\<exists>rs. list_all2 covered trees rs
    \<and> out = file_text quiet (length trees) 0 rs
    \<and> length (e_created e') = sum_list (map (\<lambda>r. length (cr_applied (snd r))) rs)
    \<and> distinct (underlay # e_created e') \<and> list_all if_name (e_created e')
    \<and> run_devices (concat (map (\<lambda>r. cr_script (snd r)) rs)) \<lparr>m_devs = [underlay], m_up = []\<rparr>
        = Some \<lparr>m_devs = underlay # e_created e', m_up = e_created e'\<rparr>"
  using assms by (rule lower_trees_runs) blast

theorem lowered_file_runs_witness:
  "\<exists>out e' rs. lower_trees ''eth0'' ''/etc/wireguard'' True [gre_tree, chain_tree] = Some ((out, Fine), e')
     \<and> out = file_text True 2 0 rs
     \<and> run_devices (concat (map (\<lambda>r. cr_script (snd r)) rs)) \<lparr>m_devs = [''eth0''], m_up = []\<rparr>
        = Some \<lparr>m_devs = [''eth0'', ''gre1'', ''eth0.100'', ''vxlan1''],
                m_up = [''gre1'', ''eth0.100'', ''vxlan1'']\<rparr>"
proof -
  have "case lower_trees ''eth0'' ''/etc/wireguard'' True [gre_tree, chain_tree] of
      Some ((out, Fine), e') \<Rightarrow> e_created e' = [''gre1'', ''eth0.100'', ''vxlan1''] | _ \<Rightarrow> False"
    by code_simp
  then obtain out e' where r:
    "lower_trees ''eth0'' ''/etc/wireguard'' True [gre_tree, chain_tree] = Some ((out, Fine), e')"
    "e_created e' = [''gre1'', ''eth0.100'', ''vxlan1'']"
    by (auto split: option.splits prod.splits ending.splits)
  from lowered_file_runs [OF r(1)] obtain rs where
    "out = file_text True (length [gre_tree, chain_tree]) 0 rs"
    "run_devices (concat (map (\<lambda>r. cr_script (snd r)) rs)) \<lparr>m_devs = [''eth0''], m_up = []\<rparr>
        = Some \<lparr>m_devs = ''eth0'' # e_created e', m_up = e_created e'\<rparr>"
    by blast
  with r show ?thesis by (intro exI [of _ out] exI [of _ e'] exI [of _ rs])
    (simp add: numeral_2_eq_2)
qed



text \<open>
  Two rules may build on one address: each VXLAN rule with the same \<open>:src\<close> and length gives that address
  to the physical device, and the second \<open>ip addr add\<close> is the first one over again, which a real
  machine refuses.
\<close>

lemma address_given_twice:
  "case lower_trees ''eth0'' ''/etc/wireguard'' True
      [configure (vxlan_under ''10.0.0.1/24'' ''10.0.0.2'' KNumber ''100'' []),
       configure (vxlan_under ''10.0.0.1/24'' ''10.0.0.3'' KNumber ''200'' [])] of
     Some ((out, Fine), _) \<Rightarrow> length (filter (\<lambda>ln. ln = ''ip addr add 10.0.0.1/24 dev eth0'')
         (split_on char_nl out)) = 2
   | _ \<Rightarrow> False"
  by code_simp

section \<open>Failures and panics\<close>

text \<open>
  C2. No command ever crashes or hangs: whatever the arguments are and whatever the files contain,
  \<open>main\<close> returns, and it does not end in a run-time panic, as long as reading a file does not.
\<close>

theorem no_command_crashes:
  assumes "\<forall>path. no_panic (files path)"
  shows "\<exists>out fin. main_run q files args = Some (out, fin)
    \<and> (\<forall>er. fin = Failed er \<longrightarrow> \<not> is_panic er)"
proof -
  from assms have "survives (main_run q files args)"
    by (intro main_survives) (simp add: quiet_disk_def)
  then show ?thesis by (auto simp: survives_def split: option.splits ending.splits)
qed

theorem no_command_crashes_witness:
  "\<exists>out fin. main_run (\<lambda>_. False) (\<lambda>path. if path = ''a'' then Inr ''(configure)'' else err_plain (CmdMsg (OsError ''no such file'')))
      [''lower'', ''a''] = Some (out, fin)"
proof -
  let ?files = "\<lambda>path. if path = ''a'' then Inr ''(configure)'' else err_plain (CmdMsg (OsError ''no such file''))"
  have "\<forall>path. no_panic (?files path)" by simp
  from no_command_crashes [OF this, of "\<lambda>_. False" "[''lower'', ''a'']"] show ?thesis by blast
qed

text \<open>
  C16. A rule that fails leaves no partial script of its own, but not the whole file's: what was
  printed is exactly the complete output of the rules before it (and the separating line), and the
  error is not a panic.
\<close>

theorem failed_file_prints_whole_rules:
  assumes "lower_trees underlay key_dir quiet trees = Some ((out, Failed er), e')"
  shows "\<exists>k rs e1. k < length trees
    \<and> lower_rules quiet (length trees) 0 (take k trees) ((new_env underlay)\<lparr>e_keydir := key_dir\<rparr>)
        = Some ((file_text quiet (length trees) 0 rs, Fine), e1)
    \<and> list_all2 (\<lambda>root r. from_form root = Inr (fst r)) (take k trees) rs
    \<and> out = file_text quiet (length trees) 0 rs @ (if k > 0 \<and> \<not> quiet then [char_nl] else [])
    \<and> \<not> is_panic er"
proof -
  let ?e = "(new_env underlay)\<lparr>e_keydir := key_dir\<rparr>"
  have e: "env_ok ?e" using new_env_ok [of underlay] by (simp add: env_ok_def is_used_def)
  show ?thesis
    using lower_rules_failed [OF assms [unfolded lower_trees_def] e] by simp
qed

theorem failed_file_prints_whole_rules_witness:
  "\<exists>out er e' rs. lower_trees ''eth0'' ''/etc/wireguard'' False [gre_tree, sym_layer ''ipv4'' [] []]
      = Some ((out, Failed er), e')
     \<and> out = file_text False 2 0 rs @ [char_nl] \<and> length rs = 1 \<and> \<not> is_panic er"
proof -
  let ?ts = "[gre_tree, sym_layer ''ipv4'' [] []]"
  have "case lower_trees ''eth0'' ''/etc/wireguard'' False ?ts of
      Some ((out, Failed er), e') \<Rightarrow> out \<noteq> [] \<and> out \<noteq> [char_nl] | _ \<Rightarrow> False"
    by code_simp
  then obtain out er e' where r:
    "lower_trees ''eth0'' ''/etc/wireguard'' False ?ts = Some ((out, Failed er), e')"
    "out \<noteq> []" "out \<noteq> [char_nl]"
    by (auto split: option.splits prod.splits ending.splits)
  from failed_file_prints_whole_rules [OF r(1)] obtain k rs where
    k: "k < length ?ts" "list_all2 (\<lambda>root r. from_form root = Inr (fst r)) (take k ?ts) rs"
      "out = file_text False (length ?ts) 0 rs @ (if k > 0 \<and> \<not> False then [char_nl] else [])"
      "\<not> is_panic er"
    by blast
  have "length rs = k" using k(1) list_all2_lengthD [OF k(2)] by simp
  moreover have "k = 1"
  proof (rule ccontr)
    assume "k \<noteq> 1"
    with k(1) have "k = 0" by simp
    with k(3) \<open>length rs = k\<close> r(2) show False by simp
  qed
  ultimately show ?thesis using r(1) k(3,4)
    by (intro exI [of _ out] exI [of _ er] exI [of _ e'] exI [of _ rs])
       (simp add: numeral_2_eq_2)
qed

section \<open>Covering on this registry\<close>

text \<open>
  C3. Greedy longest match is optimal for the iproute2 tiles: every way of placing tiles one after
  the other from the outermost layer is an initial part of what \<open>Cover\<close> applies, so no tiling
  configures a layer that \<open>Cover\<close> leaves to the payload.
\<close>

theorem greedy_is_optimal:
  assumes "cover linux sp e = Some (Inr res, e')" and "tiling linux sp 0 ts"
  shows "prefix (map t_name ts) (cr_applied res)
    \<and> width ts + length (cr_payload res) \<le> length sp"
proof -
  note c = linux.cover_choices [OF assms(1)]
  have "prefix ts (choices linux sp 0)" using linux.greedy_optimal [OF assms(2)] .
  then have "prefix (map t_name ts) (cr_applied res)" using c by (simp add: map_mono_prefix)
  moreover have "width ts \<le> width (choices linux sp 0)" using linux.greedy_widest [OF assms(2)] .
  moreover have "width (choices linux sp 0) \<le> length sp"
    using tiling_width [OF choices_tiling [of linux sp 0]] by simp
  ultimately show ?thesis using c by auto
qed

theorem greedy_is_optimal_witness:
  "\<exists>res e'. cover linux (layers_of chain_tree) (new_env ''eth0'') = Some (Inr res, e')
     \<and> prefix [''VLAN'', ''VXLAN''] (cr_applied res)"
proof -
  have "case cover linux (layers_of chain_tree) (new_env ''eth0'') of
      Some (Inr res, e') \<Rightarrow> True | _ \<Rightarrow> False"
    by code_simp
  then obtain res e' where r: "cover linux (layers_of chain_tree) (new_env ''eth0'') = Some (Inr res, e')"
    by (auto split: option.splits prod.splits sum.splits)
  have "fits (layers_of chain_tree) 0 VLAN" "fits (layers_of chain_tree) 2 VXLAN" by code_simp+
  then have "tiling linux (layers_of chain_tree) 0 [VLAN, VXLAN]"
    by (simp add: linux_def VLAN_def plain_tile_def numeral_2_eq_2)
  from greedy_is_optimal [OF r this] r show ?thesis by (auto simp: VLAN_def VXLAN_def plain_tile_def)
qed

section \<open>One tile at work\<close>

theorem vxlan_modes_witness:
  "\<exists>cmds e'. lower_vxlan (layers_of (configure (vxlan_under ''10.0.0.1'' ''239.1.1.1'' KStar ''*'' [])))
        (new_env ''eth0'') = (Inr cmds, e')
     \<and> (\<exists>vni. is_dynamic vni \<and> link_option cmds ''id'' = map_option u32 (concrete vni)
          \<and> link_option cmds ''external'' \<noteq> None)
     \<and> link_option cmds ''dev'' = Some ''eth0''"
proof -
  let ?sp = "layers_of (configure (vxlan_under ''10.0.0.1'' ''239.1.1.1'' KStar ''*'' []))"
  have "case lower_vxlan ?sp (new_env ''eth0'') of
      (Inr cmds, e') \<Rightarrow> link_option cmds ''external'' = Some [] | _ \<Rightarrow> False"
    by code_simp
  then obtain cmds e' where r: "lower_vxlan ?sp (new_env ''eth0'') = (Inr cmds, e')"
    "link_option cmds ''external'' = Some []"
    by (auto split: prod.splits sum.splits)
  have dev: "e_dev (new_env ''eth0'') = ''eth0''" by (simp add: new_env_def)
  from vxlan_modes [OF r(1)] show ?thesis using r unfolding dev by auto
qed

theorem tile_table_witness:
  "select_tile linux (layers_of chain_tree) 2 = Inr (Some VXLAN)
   \<and> choices linux (layers_of (wireguard_tree ''a'')) 0 = choices linux (layers_of (wireguard_tree ''b'')) 0"
proof -
  let ?sp = "layers_of chain_tree"
  have i: "2 < length ?sp" and "names (drop 2 ?sp) = [''ipv4'', ''udp'', ''vxlan'', ''ethernet'']"
    by code_simp+
  then have t: "tile_for (names (drop 2 ?sp)) = Some VXLAN" by simp
  have j: "0 < length (layers_of (wireguard_tree ''a''))"
    and same: "names (layers_of (wireguard_tree ''a'')) = names (layers_of (wireguard_tree ''b''))"
    by code_simp+
  from tile_table [OF i] tile_table [OF j] same t show ?thesis by simp
qed

theorem vlan_on_parent_witness:
  "\<exists>cmds e'. lower_vlan (layers_of chain_tree) (new_env ''eth0'') = (Inr cmds, e')
     \<and> (\<exists>n. map argv cmds = [[''ip'', ''link'', ''add'', ''link'', ''eth0'', ''name'', ''eth0.'' @ u16 n,
          ''type'', ''vlan'', ''id'', u16 n]] \<and> 1 \<le> unat n)"
proof -
  let ?sp = "layers_of chain_tree"
  have "case lower_vlan ?sp (new_env ''eth0'') of (Inr cmds, e') \<Rightarrow> True | _ \<Rightarrow> False" by code_simp
  then obtain cmds e' where r: "lower_vlan ?sp (new_env ''eth0'') = (Inr cmds, e')"
    by (auto split: prod.splits sum.splits)
  have dev: "e_dev (new_env ''eth0'') = ''eth0''" by (simp add: new_env_def)
  from vlan_on_parent [OF r] show ?thesis using r unfolding dev by auto
qed

theorem wireguard_peer_witness:
  "\<exists>cmds e' (f :: wg_facts) dev. lower_wireguard (layers_of (wireguard_tree ''b'')) (new_env ''eth0'') = (Inr cmds, e')
     \<and> map argv cmds ! 3 = [''ip'', ''addr'', ''add'', prefix_string (wg_overlay f), ''dev'', dev]
     \<and> e_dev e' = dev"
proof -
  let ?sp = "layers_of (wireguard_tree ''b'')" and ?e = "new_env ''eth0''"
  have "case lower_wireguard ?sp ?e of (Inr cmds, e') \<Rightarrow> True | _ \<Rightarrow> False" by code_simp
  then obtain cmds e' where r: "lower_wireguard ?sp ?e = (Inr cmds, e')"
    by (auto split: prod.splits sum.splits)
  have n: "names ?sp = t_pattern WireGuard" by code_simp
  from wireguard_peer [OF r n] obtain f :: wg_facts and dev e1 where
    "map argv cmds ! 3 = [''ip'', ''addr'', ''add'', prefix_string (wg_overlay f), ''dev'', dev]"
    "e' = enter dev e1"
    by (auto simp: numeral_3_eq_3)
  with r show ?thesis by (auto simp: enter_def)
qed

theorem vni_used_once_witness:
  "\<exists>(f :: vxlan_facts) n cmds e'. read_vxlan (layers_of vxlan_tree ! 0) (layers_of vxlan_tree ! 1)
        (layers_of vxlan_tree ! 2) = Inr f \<and> concrete (vx_vni f) = Some n
     \<and> lower_vxlan (layers_of vxlan_tree) (new_env ''eth0'') = (Inr cmds, e')
     \<and> is_used e' (vni_name n)
     \<and> lower_vxlan (layers_of vxlan_tree) e' = (Inl (ErrAt (npos (layers_of vxlan_tree ! 2))
          (WrapMsg (ErrPlain (NameMsg (NameUsed (vni_name n)))))), e')"
proof -
  let ?sp = "layers_of vxlan_tree"
  have "case read_vxlan (?sp ! 0) (?sp ! 1) (?sp ! 2) of
      Inr f \<Rightarrow> concrete (vx_vni f) = Some 100 | _ \<Rightarrow> False" by code_simp
  then obtain f :: vxlan_facts where f: "read_vxlan (?sp ! 0) (?sp ! 1) (?sp ! 2) = Inr f"
    "concrete (vx_vni f) = Some 100"
    by (auto split: sum.splits)
  have n: "names ?sp = t_pattern VXLAN" by code_simp
  have "\<not> is_used (new_env ''eth0'') (vni_name 100)" by code_simp
  with vni_used_once [OF n f, of "new_env ''eth0''"] obtain cmds e' where
    r: "lower_vxlan ?sp (new_env ''eth0'') = (Inr cmds, e')" "is_used e' (vni_name 100)"
    by blast
  from vni_used_once [OF n f, of e'] r f show ?thesis by blast
qed

theorem omitted_reads_as_star_witness:
  "lower_gre [layers_of gre_tree ! 0, sym_layer ''gre'' [] [], layers_of gre_tree ! 2] (new_env ''eth0'')
   = lower_gre [layers_of gre_tree ! 0, sym_layer ''gre'' [(''key'', KStar, ''*'')] [],
       layers_of gre_tree ! 2] (new_env ''eth0'')"
proof -
  have "lookup (sym_layer ''gre'' [] []) ''key'' = None"
    and "lookup (sym_layer ''gre'' [(''key'', KStar, ''*'')] []) ''key''
      = Some \<lparr>p_key = ''key'', p_val = SVal KStar ''*'' [] no_pos, p_pos = no_pos\<rparr>"
    by code_simp+
  from omitted_reads_as_star [OF this] show ?thesis by simp
qed

section \<open>The mirror at work\<close>

theorem swap_is_an_exchange_witness:
  "swapped (swapped (layers_of chain_tree ! 2)) = layers_of chain_tree ! 2
   \<and> (\<exists>s'. lookup (swapped (layers_of chain_tree ! 2)) ''src'' = Some s'
        \<and> addr_part (p_val s') = ''10.0.0.2'' \<and> len_part (p_val s') = ''24'')"
proof -
  let ?n = "layers_of chain_tree ! 2"
  have ok: "node_ok ?n" by code_simp
  have "(case lookup ?n ''src'' of
        Some s \<Rightarrow> plain_end (p_val s) \<and> len_part (p_val s) = ''24'' | None \<Rightarrow> False)
      \<and> (case lookup ?n ''dst'' of
        Some s \<Rightarrow> plain_end (p_val s) \<and> addr_part (p_val s) = ''10.0.0.2'' | None \<Rightarrow> False)"
    by code_simp
  then obtain s d where sd: "lookup ?n ''src'' = Some s" "lookup ?n ''dst'' = Some d"
    "plain_end (p_val s)" "plain_end (p_val d)"
    and parts: "len_part (p_val s) = ''24''" "addr_part (p_val d) = ''10.0.0.2''"
    by (auto split: option.splits)
  from swap_is_an_exchange [OF ok sd] parts show ?thesis by auto
qed

theorem mirror_keeps_the_rest_witness:
  "\<exists>res. peer (\<lambda>_. False) gre_tree ''10.1.0.2/30'' = Inr res \<and> skeleton (m_tree res) = skeleton gre_tree"
proof -
  have "case peer (\<lambda>_. False) gre_tree ''10.1.0.2/30'' of Inr _ \<Rightarrow> True | Inl _ \<Rightarrow> False"
    by code_simp
  then obtain res where "peer (\<lambda>_. False) gre_tree ''10.1.0.2/30'' = Inr res"
    by (auto split: sum.splits)
  with mirror_keeps_the_rest [OF this] show ?thesis by blast
qed

end
